(* ===== verification/Gx_Prelude.thy ===== *)
theory Gx_Prelude imports Main "HOL-Library.Word" begin

text \<open>
  What every component of the development shares: the outcome of a Go operation
  (a returned value or a panic), indexing and slicing with the bounds checks of Go,
  truncated remainder, the effect of an operation on a condition variable, runs of
  operations with the refinement contract between a concrete and an abstract
  component, and reachability in a step relation.
\<close>

named_theorems go_simps \<open>unfolding of the Go primitives: bounds checks, panics, effects\<close>
named_theorems op_defs \<open>definitions of the operations of the component at hand\<close>

section \<open>Outcomes\<close>

text \<open>
  A Go operation returns or panics; the panic carries its message.
\<close>

datatype 'r go = Ret 'r | Panic string

definition go_bind :: "'a go \<Rightarrow> ('a \<Rightarrow> 'b go) \<Rightarrow> 'b go" where
  "go_bind m f = (case m of Ret x \<Rightarrow> f x | Panic s \<Rightarrow> Panic s)"

lemma go_bind_simps [simp, go_simps]:
  "go_bind (Ret x) f = f x"
  "go_bind (Panic s) f = Panic s"
  by (simp_all add: go_bind_def)

lemma go_bind_eq_Ret: "go_bind m f = Ret y \<longleftrightarrow> (\<exists>x. m = Ret x \<and> f x = Ret y)"
  by (cases m) auto

fun go_the :: "'r \<Rightarrow> 'r go \<Rightarrow> 'r" where
  "go_the d (Ret x) = x"
| "go_the d (Panic s) = d"

section \<open>Slices\<close>

text \<open>
  A slice made with \<open>make([]T, n)\<close> is a list of length \<open>n\<close>. Indices are Go
  \<open>int\<close>s, so a negative index is a value of the type; indexing, storing and
  slicing out of range panic.
\<close>

definition go_index :: "'a list \<Rightarrow> int \<Rightarrow> 'a go" where
  "go_index xs i =
     (if 0 \<le> i \<and> i < int (length xs) then Ret (xs ! nat i)
      else Panic ''index out of range'')"

definition go_store :: "'a list \<Rightarrow> int \<Rightarrow> 'a \<Rightarrow> 'a list go" where
  "go_store xs i v =
     (if 0 \<le> i \<and> i < int (length xs) then Ret (xs[nat i := v])
      else Panic ''index out of range'')"

definition go_slice :: "'a list \<Rightarrow> int \<Rightarrow> int \<Rightarrow> 'a list go" where
  "go_slice xs lo hi =
     (if 0 \<le> lo \<and> lo \<le> hi \<and> hi \<le> int (length xs)
      then Ret (take (nat (hi - lo)) (drop (nat lo) xs))
      else Panic ''slice bounds out of range'')"

text \<open>\<open>copy(dst[at:], src)\<close>: as many elements as fit are overwritten.\<close>

definition go_copy :: "'a list \<Rightarrow> nat \<Rightarrow> 'a list \<Rightarrow> 'a list" where
  "go_copy dst at src =
     (let n = min (length dst - at) (length src)
      in take at dst @ take n src @ drop (at + n) dst)"

definition go_make :: "'a \<Rightarrow> int \<Rightarrow> 'a list go" where
  "go_make zero n =
     (if n < 0 then Panic ''makeslice: len out of range'' else Ret (replicate (nat n) zero))"

text \<open>The operator \<open>%\<close> truncates towards zero and panics on a zero divisor.\<close>

definition go_rem :: "int \<Rightarrow> int \<Rightarrow> int go" where
  "go_rem a b =
     (if b = 0 then Panic ''integer divide by zero'' else Ret (sgn a * (\<bar>a\<bar> mod \<bar>b\<bar>)))"

lemma go_index_int [simp, go_simps]: "i < length xs \<Longrightarrow> go_index xs (int i) = Ret (xs ! i)"
  by (simp add: go_index_def)

lemma go_store_int [simp, go_simps]: "i < length xs \<Longrightarrow> go_store xs (int i) v = Ret (xs[i := v])"
  by (simp add: go_store_def)

lemma go_slice_int [simp, go_simps]:
  "lo \<le> hi \<Longrightarrow> hi \<le> length xs \<Longrightarrow>
     go_slice xs (int lo) (int hi) = Ret (take (hi - lo) (drop lo xs))"
  by (simp add: go_slice_def nat_diff_distrib flip: of_nat_diff)

lemma go_make_int [simp, go_simps]: "go_make z (int n) = Ret (replicate n z)"
  by (simp add: go_make_def)

lemma go_rem_int [simp, go_simps]: "0 < n \<Longrightarrow> go_rem (int m) (int n) = Ret (int (m mod n))"
  by (cases "m = 0") (simp_all add: go_rem_def zmod_int)

lemma length_go_copy [simp]: "at \<le> length dst \<Longrightarrow> length (go_copy dst at src) = length dst"
  by (simp add: go_copy_def Let_def min_def)

lemma go_copy_fits [simp, go_simps]:
  "length src \<le> length dst \<Longrightarrow> go_copy dst 0 src = src @ drop (length src) dst"
  by (simp add: go_copy_def)

lemma go_copy_at [simp, go_simps]:
  "length src \<le> length dst - at \<Longrightarrow>
     go_copy dst at src = take at dst @ src @ drop (at + length src) dst"
  by (simp add: go_copy_def)

section \<open>Condition variables\<close>

text \<open>What an operation does to the condition variable of its component.\<close>

datatype cond_op = NoSignal | Signal | Broadcast

section \<open>Runs and refinement\<close>

text \<open>
  A component that is used sequentially is a step function from an operation and a
  state to a new state and a response; a run threads the state through a list of
  operations and stops at a panic.
\<close>

fun run_ops :: "('op \<Rightarrow> 's \<Rightarrow> ('s \<times> 'r) go) \<Rightarrow> 'op list \<Rightarrow> 's \<Rightarrow> ('s \<times> 'r list) go" where
  "run_ops step [] s = Ret (s, [])"
| "run_ops step (x # xs) s =
     go_bind (step x s) (\<lambda>(s', r).
       go_bind (run_ops step xs s') (\<lambda>(s'', rs). Ret (s'', r # rs)))"

fun run_spec :: "('op \<Rightarrow> 'a \<Rightarrow> 'a \<times> 'r) \<Rightarrow> 'op list \<Rightarrow> 'a \<Rightarrow> 'a \<times> 'r list" where
  "run_spec step [] a = (a, [])"
| "run_spec step (x # xs) a =
     (let (a', r) = step x a; (a'', rs) = run_spec step xs a' in (a'', r # rs))"

text \<open>
  The contract between a component and its specification: under the invariant no
  operation panics, the invariant is kept, and the step commutes with the abstraction,
  responses included.
\<close>

locale refinement =
  fixes cstep :: "'op \<Rightarrow> 'c \<Rightarrow> ('c \<times> 'r) go"
    and astep :: "'op \<Rightarrow> 'a \<Rightarrow> 'a \<times> 'r"
    and abs_of :: "'c \<Rightarrow> 'a"
    and inv :: "'c \<Rightarrow> bool"
  assumes step_refines:
    "inv c \<Longrightarrow> \<exists>c' r. cstep x c = Ret (c', r) \<and> inv c' \<and> astep x (abs_of c) = (abs_of c', r)"
begin

lemma run_refines:
  "inv c \<Longrightarrow>
     \<exists>c'. run_ops cstep xs c = Ret (c', snd (run_spec astep xs (abs_of c))) \<and> inv c' \<and>
          abs_of c' = fst (run_spec astep xs (abs_of c))"
proof (induction xs arbitrary: c)
  case Nil
  then show ?case by simp
next
  case (Cons x xs)
  obtain c1 r where 1: "cstep x c = Ret (c1, r)" "inv c1" "astep x (abs_of c) = (abs_of c1, r)"
    using step_refines [OF Cons.prems] by blast
  from Cons.IH [OF 1(2)] obtain c2 where
    "run_ops cstep xs c1 = Ret (c2, snd (run_spec astep xs (abs_of c1)))" "inv c2"
    "abs_of c2 = fst (run_spec astep xs (abs_of c1))"
    by blast
  then show ?case using 1 by (simp add: case_prod_beta)
qed

lemma run_never_panics: "inv c \<Longrightarrow> run_ops cstep xs c \<noteq> Panic s"
  by (drule run_refines [where xs = xs]) auto

lemma run_keeps_inv: "inv c \<Longrightarrow> run_ops cstep xs c = Ret (c', rs) \<Longrightarrow> inv c'"
  by (drule run_refines [where xs = xs]) auto

end

section \<open>Reachable states\<close>

inductive reach :: "('s \<Rightarrow> bool) \<Rightarrow> ('s \<Rightarrow> 's \<Rightarrow> bool) \<Rightarrow> 's \<Rightarrow> bool"
  for start :: "'s \<Rightarrow> bool" and step :: "'s \<Rightarrow> 's \<Rightarrow> bool" where
  reach_start [intro]: "start s \<Longrightarrow> reach start step s"
| reach_step: "reach start step s \<Longrightarrow> step s t \<Longrightarrow> reach start step t"

locale inductive_invariant =
  fixes start :: "'s \<Rightarrow> bool"
    and step :: "'s \<Rightarrow> 's \<Rightarrow> bool"
    and inv :: "'s \<Rightarrow> bool"
  assumes inv_start: "start s \<Longrightarrow> inv s"
    and inv_step: "inv s \<Longrightarrow> step s t \<Longrightarrow> inv t"
begin

lemma reach_inv: "reach start step s \<Longrightarrow> inv s"
  by (induction rule: reach.induct) (auto intro: inv_start inv_step)

end

section \<open>Lists and numbers\<close>

lemma nat_int_Suc [simp]: "nat (1 + int n) = Suc n" "nat (int n + 1) = Suc n"
  by simp_all

lemma nth_upd: "xs[i := x] ! j = (if i = j \<and> j < length xs then x else xs ! j)"
  by (cases "i < length xs") (auto simp: nth_list_update list_update_beyond)

lemma last_in_subset: "set xs \<subseteq> A \<Longrightarrow> xs \<noteq> [] \<Longrightarrow> last xs \<in> A"
  using last_in_set by blast

lemma drop_eq_replicateI:
  "length xs = n \<Longrightarrow> (\<And>i. k \<le> i \<Longrightarrow> i < n \<Longrightarrow> xs ! i = z) \<Longrightarrow> drop k xs = replicate (n - k) z"
  by (rule nth_equalityI) simp_all

lemma sum_list_snoc [simp]: "sum_list (xs @ [x]) = sum_list xs + (x :: 'a :: comm_monoid_add)"
  by (simp add: add.commute)

end
