(* ===== verification/Gx_Container.thy ===== *)
theory Gx_Container imports Gx_Prelude begin

text \<open>
  The interface \<open>Buffer\<close> and \<open>Stack\<close> share: values are pushed until the container is
  closed, taken one by one (blocking or not), and what is still stored stays available
  after closing. The abstract state is the closed flag and the list of values in push
  order; a \<open>split\<close> function says which end is taken. The blocking call runs on a
  monitor built from a mutex and a \<open>sync.Cond\<close>; the locale \<open>container\<close> proves once
  that no wakeup is lost.
\<close>

section \<open>Operations, responses and the abstract container\<close>

datatype 'a container_op = OpClose | OpLen | OpPush 'a | OpTryTake

fun is_push :: "'a container_op \<Rightarrow> bool" where
  "is_push (OpPush v) = True"
| "is_push x = False"

datatype 'a response = RUnit | RLen int | RBool bool | RValue 'a bool

type_synonym 'a abs_container = "bool \<times> 'a list"

fun spec_step ::
  "('a list \<Rightarrow> 'a \<times> 'a list) \<Rightarrow> 'a \<Rightarrow> 'a container_op \<Rightarrow> 'a abs_container \<Rightarrow>
     'a abs_container \<times> 'a response \<times> cond_op" where
  "spec_step split zero OpClose (c, xs) = ((True, xs), RUnit, if c then NoSignal else Broadcast)"
| "spec_step split zero OpLen (c, xs) = ((c, xs), RLen (int (length xs)), NoSignal)"
| "spec_step split zero (OpPush v) (c, xs) =
     (if c then ((c, xs), RBool False, NoSignal) else ((c, xs @ [v]), RBool True, Signal))"
| "spec_step split zero OpTryTake (c, xs) =
     (if xs = [] then ((c, xs), RValue zero False, NoSignal)
      else ((c, snd (split xs)), RValue (fst (split xs)) True, NoSignal))"

text \<open>The blocking take: \<open>None\<close> when the caller must wait.\<close>

fun spec_take ::
  "('a list \<Rightarrow> 'a \<times> 'a list) \<Rightarrow> 'a \<Rightarrow> 'a abs_container \<Rightarrow>
     ('a abs_container \<times> 'a \<times> bool) option" where
  "spec_take split zero (c, xs) =
     (if xs = [] then (if c then Some ((c, xs), zero, False) else None)
      else Some ((c, snd (split xs)), fst (split xs), True))"

definition split_first :: "'a list \<Rightarrow> 'a \<times> 'a list" where
  "split_first xs = (hd xs, tl xs)"

definition split_last :: "'a list \<Rightarrow> 'a \<times> 'a list" where
  "split_last xs = (last xs, butlast xs)"

section \<open>The monitor: goroutines around one mutex and one condition variable\<close>

text \<open>
  \<open>mon_waiting\<close> is the notify list of the \<open>sync.Cond\<close> in arrival order: goroutines
  parked in \<open>Wait\<close>. \<open>mon_woken\<close> are those a \<open>Signal\<close> or \<open>Broadcast\<close> has
  released and that still have to take the mutex and look at the loop condition again.
  \<open>mon_returned\<close> logs what blocking calls returned.
\<close>

record ('s, 'r) monitor =
  mon_data :: 's
  mon_waiting :: "nat list"
  mon_woken :: "nat list"
  mon_returned :: "(nat \<times> 'r) list"

definition mon_start :: "'s \<Rightarrow> ('s, 'r) monitor \<Rightarrow> bool" where
  "mon_start d m \<longleftrightarrow>
     m = \<lparr>mon_data = d, mon_waiting = [], mon_woken = [], mon_returned = []\<rparr>"

fun notify :: "cond_op \<Rightarrow> ('s, 'r) monitor \<Rightarrow> ('s, 'r) monitor" where
  "notify NoSignal m = m"
| "notify Signal m =
     (case mon_waiting m of
        [] \<Rightarrow> m
      | t # ts \<Rightarrow> m\<lparr>mon_waiting := ts, mon_woken := mon_woken m @ [t]\<rparr>)"
| "notify Broadcast m = m\<lparr>mon_waiting := [], mon_woken := mon_woken m @ mon_waiting m\<rparr>"

text \<open>
  One critical section at a time. A blocking call by a goroutine that is not inside one
  already, or by a woken goroutine, either returns or parks (again); every other
  operation runs to its end and notifies.
\<close>

inductive mon_step ::
  "('s \<Rightarrow> ('s \<times> 'r) option go) \<Rightarrow> ('o \<Rightarrow> 's \<Rightarrow> ('s \<times> 'p \<times> cond_op) go) \<Rightarrow>
     ('s, 'r) monitor \<Rightarrow> ('s, 'r) monitor \<Rightarrow> bool"
  for attempt :: "'s \<Rightarrow> ('s \<times> 'r) option go"
    and upd :: "'o \<Rightarrow> 's \<Rightarrow> ('s \<times> 'p \<times> cond_op) go" where
  call_returns:
    "t \<notin> set (mon_waiting m) \<Longrightarrow> t \<notin> set (mon_woken m) \<Longrightarrow>
     attempt (mon_data m) = Ret (Some (d, r)) \<Longrightarrow>
     mon_step attempt upd m
       (m\<lparr>mon_data := d, mon_returned := mon_returned m @ [(t, r)]\<rparr>)"
| call_parks:
    "t \<notin> set (mon_waiting m) \<Longrightarrow> t \<notin> set (mon_woken m) \<Longrightarrow>
     attempt (mon_data m) = Ret None \<Longrightarrow>
     mon_step attempt upd m (m\<lparr>mon_waiting := mon_waiting m @ [t]\<rparr>)"
| wake_returns:
    "t \<in> set (mon_woken m) \<Longrightarrow> attempt (mon_data m) = Ret (Some (d, r)) \<Longrightarrow>
     mon_step attempt upd m
       (m\<lparr>mon_data := d, mon_woken := remove1 t (mon_woken m),
          mon_returned := mon_returned m @ [(t, r)]\<rparr>)"
| wake_parks:
    "t \<in> set (mon_woken m) \<Longrightarrow> attempt (mon_data m) = Ret None \<Longrightarrow>
     mon_step attempt upd m
       (m\<lparr>mon_woken := remove1 t (mon_woken m), mon_waiting := mon_waiting m @ [t]\<rparr>)"
| operate:
    "upd x (mon_data m) = Ret (d, p, sig) \<Longrightarrow>
     mon_step attempt upd m (notify sig (m\<lparr>mon_data := d\<rparr>))"

inductive_cases mon_stepE: "mon_step attempt upd m m'"

section \<open>The container contract\<close>

locale container =
  refinement cstep "spec_step split zero" abs_of inv
  for cstep :: "'a container_op \<Rightarrow> 'c \<Rightarrow> ('c \<times> 'a response \<times> cond_op) go"
    and split :: "'a list \<Rightarrow> 'a \<times> 'a list"
    and zero :: 'a
    and abs_of :: "'c \<Rightarrow> 'a abs_container"
    and inv :: "'c \<Rightarrow> bool" +
  fixes attempt :: "'c \<Rightarrow> ('c \<times> 'a \<times> bool) option go"
  assumes attempt_parks:
      "inv c \<Longrightarrow> spec_take split zero (abs_of c) = None \<Longrightarrow> attempt c = Ret None"
    and attempt_returns:
      "inv c \<Longrightarrow> spec_take split zero (abs_of c) = Some (a, v) \<Longrightarrow>
         \<exists>c'. attempt c = Ret (Some (c', v)) \<and> inv c' \<and> abs_of c' = a"
    and split_shrinks: "xs \<noteq> [] \<Longrightarrow> length (snd (split xs)) = length xs - 1"
begin

definition stored :: "'c \<Rightarrow> nat" where
  "stored c = length (snd (abs_of c))"

definition shut :: "'c \<Rightarrow> bool" where
  "shut c = fst (abs_of c)"

text \<open>
  The invariant behind "no wakeup is lost": while a goroutine is parked, the container is
  open and at least as many goroutines are on their way as there are values to take.
\<close>

definition mon_inv :: "('c, 'a \<times> bool) monitor \<Rightarrow> bool" where
  "mon_inv m \<longleftrightarrow> inv (mon_data m) \<and> distinct (mon_waiting m @ mon_woken m) \<and>
     (mon_waiting m \<noteq> [] \<longrightarrow>
        \<not> shut (mon_data m) \<and> stored (mon_data m) \<le> length (mon_woken m))"

lemma spec_step_effect:
  "spec_step split zero x a = (a', p, sig) \<Longrightarrow>
    sig = NoSignal \<and> fst a' = fst a \<and> length (snd a') \<le> length (snd a) \<or>
    sig = Signal \<and> fst a' = fst a \<and> length (snd a') = Suc (length (snd a)) \<or>
    sig = Broadcast \<and> fst a'"
  by (cases "(split, zero, x, a)" rule: spec_step.cases) (auto simp: split_shrinks split: if_splits)

lemma spec_take_None: "spec_take split zero a = None \<longleftrightarrow> snd a = [] \<and> \<not> fst a"
  by (cases a) simp

lemma spec_take_Some:
  "spec_take split zero a = Some (a', v) \<Longrightarrow>
     fst a' = fst a \<and> length (snd a') = length (snd a) - 1 \<and> (snd a \<noteq> [] \<or> fst a)"
  by (cases a) (auto simp: split_shrinks split: if_splits)

lemma attempt_cases:
  assumes "inv c"
  obtains "attempt c = Ret None" "\<not> shut c" "stored c = 0"
  | c' v where "attempt c = Ret (Some (c', v))" "inv c'" "shut c' = shut c"
      "stored c' = stored c - 1" "stored c \<noteq> 0 \<or> shut c"
proof (cases "spec_take split zero (abs_of c)")
  case None
  with attempt_parks [OF assms] show ?thesis
    by (intro that(1)) (auto simp: spec_take_None shut_def stored_def)
next
  case (Some p)
  obtain a v where p: "spec_take split zero (abs_of c) = Some (a, v)"
    using Some by (cases p) auto
  from attempt_returns [OF assms p] obtain c'
    where "attempt c = Ret (Some (c', v))" "inv c'" "abs_of c' = a"
    by blast
  with spec_take_Some [OF p] show ?thesis
    by (intro that(2) [of c' v]) (auto simp: shut_def stored_def)
qed

lemma upd_effect:
  assumes "inv c" and "cstep x c = Ret (c', p, sig)"
  shows "inv c' \<and>
    (sig = NoSignal \<and> shut c' = shut c \<and> stored c' \<le> stored c \<or>
     sig = Signal \<and> shut c' = shut c \<and> stored c' = Suc (stored c) \<or>
     sig = Broadcast \<and> shut c')"
proof -
  from step_refines [OF assms(1), of x] assms(2)
  have "inv c'" and "spec_step split zero x (abs_of c) = (abs_of c', p, sig)"
    by auto
  then show ?thesis
    using spec_step_effect by (simp add: shut_def stored_def)
qed

lemma notify_inv:
  assumes "mon_inv m" and "cstep x (mon_data m) = Ret (c', p, sig)"
  shows "mon_inv (notify sig (m\<lparr>mon_data := c'\<rparr>))"
proof -
  from assms(1) have "inv (mon_data m)"
    by (simp add: mon_inv_def)
  from upd_effect [OF this assms(2)] assms(1) show ?thesis
    by (auto simp: mon_inv_def split: list.splits)
qed

lemma mon_inv_data: "mon_inv m \<Longrightarrow> inv (mon_data m)"
  by (simp add: mon_inv_def)

lemma mon_step_inv:
  assumes m: "mon_inv m" and "mon_step attempt cstep m m'"
  shows "mon_inv m'"
  using assms(2)
proof (cases rule: mon_step.cases)
  case (call_returns t d r)
  then show ?thesis
    using m by (cases rule: attempt_cases [OF mon_inv_data [OF m]]) (auto simp: mon_inv_def)
next
  case (call_parks t)
  then show ?thesis
    using m by (cases rule: attempt_cases [OF mon_inv_data [OF m]]) (auto simp: mon_inv_def)
next
  case (wake_returns t d r)
  then show ?thesis
    using m by (cases rule: attempt_cases [OF mon_inv_data [OF m]])
      (auto simp: mon_inv_def length_remove1)
next
  case (wake_parks t)
  then show ?thesis
    using m by (cases rule: attempt_cases [OF mon_inv_data [OF m]])
      (auto simp: mon_inv_def length_remove1)
next
  case (operate x d p sig)
  then show ?thesis
    using notify_inv [OF m] by simp
qed

sublocale monitored: inductive_invariant
  "\<lambda>m. \<exists>d. inv d \<and> mon_start d m" "mon_step attempt cstep" mon_inv
proof
  show "mon_inv m" if "\<exists>d. inv d \<and> mon_start d m" for m
    using that by (auto simp: mon_inv_def mon_start_def)
qed (rule mon_step_inv)

text \<open>
  A reachable monitor: a parked goroutine means an open container whose values are all
  spoken for by goroutines already released.
\<close>

lemma no_lost_wakeup:
  assumes "reach (\<lambda>m. \<exists>d. inv d \<and> mon_start d m) (mon_step attempt cstep) m"
    and "mon_waiting m \<noteq> []"
  shows "\<not> shut (mon_data m) \<and> stored (mon_data m) \<le> length (mon_woken m)"
  using monitored.reach_inv [OF assms(1)] assms(2) by (simp add: mon_inv_def)

text \<open>After closing nobody is parked and every blocking call returns at once.\<close>

lemma closed_releases:
  assumes "reach (\<lambda>m. \<exists>d. inv d \<and> mon_start d m) (mon_step attempt cstep) m"
    and "shut (mon_data m)"
  shows "mon_waiting m = [] \<and> (\<exists>d v. attempt (mon_data m) = Ret (Some (d, v)))"
proof -
  from monitored.reach_inv [OF assms(1)] have m: "mon_inv m" .
  with assms(2) show ?thesis
    by (cases rule: attempt_cases [OF mon_inv_data [OF m]]) (auto simp: mon_inv_def)
qed

end

end
