(* ===== verification/Gx_Buffer.thy ===== *)
theory Gx_Buffer imports Gx_Container begin

text \<open>
  \<open>buffer.go\<close>: the growing FIFO ring buffer. The record has the fields of the Go
  struct; the mutex is the atomicity of each operation and the condition variable is the
  effect each operation returns. The element type's zero value is the argument
  \<open>zero\<close>. The abstraction reads \<open>len\<close> slots from \<open>head\<close>, wrapping at the
  capacity; the refinement shows that growing, wrapping and resetting \<open>head\<close> never
  show outside.
\<close>

section \<open>Reading a ring\<close>

definition ring_list :: "'a list \<Rightarrow> nat \<Rightarrow> nat \<Rightarrow> 'a list" where
  "ring_list xs h n = map (\<lambda>i. xs ! ((h + i) mod length xs)) [0..<n]"

lemma length_ring_list [simp]: "length (ring_list xs h n) = n"
  by (simp add: ring_list_def)

lemma ring_list_0 [simp]: "ring_list xs h 0 = []"
  by (simp add: ring_list_def)

lemma nth_ring_list [simp]: "i < n \<Longrightarrow> ring_list xs h n ! i = xs ! ((h + i) mod length xs)"
  by (simp add: ring_list_def)

lemma ring_slot_inj_le:
  fixes L :: nat
  assumes "(h + i) mod L = (h + j) mod L" and "i \<le> j" and "j < L"
  shows "i = j"
proof -
  have "L dvd j - i"
    using assms mod_eq_dvd_iff_nat [of "h + i" "h + j" L] by simp
  then show ?thesis
    using assms(2,3) by (auto dest: dvd_imp_le)
qed

lemma ring_slot_inj:
  fixes L :: nat
  assumes "(h + i) mod L = (h + j) mod L" and "i < L" and "j < L"
  shows "i = j"
  using ring_slot_inj_le [of h i L j] ring_slot_inj_le [of h j L i] assms
  by (cases "i \<le> j") auto

text \<open>Writing the slot behind the window appends; reading the first slot takes the head.\<close>

lemma ring_list_append:
  assumes "n < length xs"
  shows "ring_list (xs[(h + n) mod length xs := v]) h (Suc n) = ring_list xs h n @ [v]"
proof (rule nth_equalityI)
  fix i
  assume "i < length (ring_list (xs[(h + n) mod length xs := v]) h (Suc n))"
  then consider "i < n" | "i = n"
    by fastforce
  then show "ring_list (xs[(h + n) mod length xs := v]) h (Suc n) ! i = (ring_list xs h n @ [v]) ! i"
  proof cases
    case 1
    then have "(h + n) mod length xs \<noteq> (h + i) mod length xs"
      using ring_slot_inj [of h n "length xs" i] assms by auto
    with 1 show ?thesis
      by (simp add: nth_append)
  next
    case 2
    have "(h + n) mod length xs < length xs"
      by (rule mod_less_divisor) (use assms in linarith)
    with 2 show ?thesis
      by (simp add: nth_append)
  qed
qed simp

lemma ring_list_take:
  assumes "h < length xs" and "n < length xs"
  shows "ring_list xs h (Suc n) = xs ! h # ring_list (xs[h := z]) (Suc h mod length xs) n"
proof (rule nth_equalityI)
  fix i
  assume i: "i < length (ring_list xs h (Suc n))"
  have skip: "(h + Suc j) mod length xs \<noteq> h" if "j < n" for j
  proof
    assume "(h + Suc j) mod length xs = h"
    then have "Suc j = 0"
      using that assms by (intro ring_slot_inj [of h "Suc j" "length xs" 0]) auto
    then show False
      by simp
  qed
  show "ring_list xs h (Suc n) ! i = (xs ! h # ring_list (xs[h := z]) (Suc h mod length xs) n) ! i"
  proof (cases i)
    case (Suc j)
    with skip [of j] i show ?thesis
      by (simp add: mod_add_left_eq flip: add_Suc)
  qed (use assms in simp)
qed simp

lemma ring_list_straight:
  "h + n \<le> length xs \<Longrightarrow> ring_list xs h n = take n (drop h xs)"
  by (rule nth_equalityI) simp_all

lemma ring_list_wrapped:
  assumes "h < length xs" and "n \<le> length xs" and "length xs < h + n"
  shows "ring_list xs h n = drop h xs @ take (n - (length xs - h)) xs"
proof (rule nth_equalityI)
  fix i
  assume "i < length (ring_list xs h n)"
  then have i: "i < n"
    by simp
  show "ring_list xs h n ! i = (drop h xs @ take (n - (length xs - h)) xs) ! i"
  proof (cases "h + i < length xs")
    case False
    have "(h + i) mod length xs = (h + i - length xs) mod length xs"
      using False by (simp add: le_mod_geq)
    also have "\<dots> = i - (length xs - h)"
      using False i assms by auto
    finally have "(h + i) mod length xs = i - (length xs - h)" .
    moreover have "\<not> i < length xs - h" and "i - (length xs - h) < n - (length xs - h)"
      using False i assms by auto
    ultimately show ?thesis
      using i by (simp add: nth_append)
  next
    case True
    then have "i < length xs - h"
      by simp
    with True show ?thesis
      using i by (simp add: nth_append)
  qed
qed (use assms in simp)

section \<open>The buffer\<close>

record 'a buffer =
  buf_closed :: bool
  buf_head :: int
  buf_items :: "'a list"
  buf_len :: int

definition NewBuffer :: "'a \<Rightarrow> int \<Rightarrow> 'a buffer go" where
  "NewBuffer zero initialCapacity =
     (let cap = if initialCapacity \<le> 0 then 1 else initialCapacity
      in go_bind (go_make zero cap) (\<lambda>items.
           Ret \<lparr>buf_closed = False, buf_head = 0, buf_items = items, buf_len = 0\<rparr>))"

definition buffer_Close :: "'a buffer \<Rightarrow> 'a buffer \<times> cond_op" where
  "buffer_Close b =
     (if buf_closed b then (b, NoSignal) else (b\<lparr>buf_closed := True\<rparr>, Broadcast))"

definition buffer_Len :: "'a buffer \<Rightarrow> int" where
  "buffer_Len b = buf_len b"

definition buffer_growLocked :: "'a \<Rightarrow> 'a buffer \<Rightarrow> 'a buffer go" where
  "buffer_growLocked zero b =
     (let cap = int (length (buf_items b)) in
      if buf_len b < cap then Ret b
      else go_bind (go_make zero (cap * 2)) (\<lambda>items.
        go_bind
          (if buf_head b + buf_len b \<le> cap
           then go_bind (go_slice (buf_items b) (buf_head b) (buf_head b + buf_len b)) (\<lambda>src.
                  Ret (go_copy items 0 src))
           else go_bind (go_slice (buf_items b) (buf_head b) cap) (\<lambda>src.
                  let n = min (length items) (length src);
                      items' = go_copy items 0 src
                  in go_bind (go_slice (buf_items b) 0 (buf_len b - int n)) (\<lambda>src'.
                       Ret (go_copy items' n src'))))
          (\<lambda>filled. Ret (b\<lparr>buf_items := filled, buf_head := 0\<rparr>))))"

definition buffer_nextLocked :: "'a \<Rightarrow> 'a buffer \<Rightarrow> ('a buffer \<times> 'a) go" where
  "buffer_nextLocked zero b =
     go_bind (go_index (buf_items b) (buf_head b)) (\<lambda>value.
     go_bind (go_store (buf_items b) (buf_head b) zero) (\<lambda>items.
     go_bind (go_rem (buf_head b + 1) (int (length items))) (\<lambda>head.
       let len = buf_len b - 1;
           b' = b\<lparr>buf_items := items, buf_head := (if len = 0 then 0 else head), buf_len := len\<rparr>
       in Ret (b', value))))"

definition buffer_Push :: "'a \<Rightarrow> 'a \<Rightarrow> 'a buffer \<Rightarrow> ('a buffer \<times> bool \<times> cond_op) go" where
  "buffer_Push zero value b =
     (if buf_closed b then Ret (b, False, NoSignal)
      else go_bind (buffer_growLocked zero b) (\<lambda>b.
           go_bind (go_rem (buf_head b + buf_len b) (int (length (buf_items b)))) (\<lambda>i.
           go_bind (go_store (buf_items b) i value) (\<lambda>items.
             Ret (b\<lparr>buf_items := items, buf_len := buf_len b + 1\<rparr>, True, Signal)))))"

definition buffer_TryNext :: "'a \<Rightarrow> 'a buffer \<Rightarrow> ('a buffer \<times> 'a \<times> bool) go" where
  "buffer_TryNext zero b =
     (if buf_len b = 0 then Ret (b, zero, False)
      else go_bind (buffer_nextLocked zero b) (\<lambda>(b', value). Ret (b', value, True)))"

text \<open>
  One pass of \<open>Next\<close> under the mutex: \<open>None\<close> is the call of \<open>cond.Wait\<close>, after
  which the loop condition is evaluated again.
\<close>

definition buffer_Next :: "'a \<Rightarrow> 'a buffer \<Rightarrow> ('a buffer \<times> 'a \<times> bool) option go" where
  "buffer_Next zero b =
     (if buf_len b = 0 \<and> \<not> buf_closed b then Ret None
      else if buf_len b = 0 then Ret (Some (b, zero, False))
      else go_bind (buffer_nextLocked zero b) (\<lambda>(b', value). Ret (Some (b', value, True))))"

fun buffer_exec ::
  "'a \<Rightarrow> 'a container_op \<Rightarrow> 'a buffer \<Rightarrow> ('a buffer \<times> 'a response \<times> cond_op) go" where
  "buffer_exec zero OpClose b = (let (b', sig) = buffer_Close b in Ret (b', RUnit, sig))"
| "buffer_exec zero OpLen b = Ret (b, RLen (buffer_Len b), NoSignal)"
| "buffer_exec zero (OpPush v) b =
     go_bind (buffer_Push zero v b) (\<lambda>(b', ok, sig). Ret (b', RBool ok, sig))"
| "buffer_exec zero OpTryTake b =
     go_bind (buffer_TryNext zero b) (\<lambda>(b', v, ok). Ret (b', RValue v ok, NoSignal))"

lemmas buffer_defs [op_defs] =
  buffer_Close_def buffer_Len_def buffer_growLocked_def buffer_nextLocked_def
  buffer_Push_def buffer_TryNext_def buffer_Next_def

text \<open>
  The invariant: \<open>head\<close> and \<open>len\<close> lie within the capacity, an empty buffer starts at
  slot 0, and every slot outside the window holds the zero value, so nothing taken out is
  kept alive by the backing slice.
\<close>

definition buffer_abs :: "'a buffer \<Rightarrow> 'a abs_container" where
  "buffer_abs b = (buf_closed b, ring_list (buf_items b) (nat (buf_head b)) (nat (buf_len b)))"

definition buffer_inv :: "'a \<Rightarrow> 'a buffer \<Rightarrow> bool" where
  "buffer_inv zero b \<longleftrightarrow>
     0 \<le> buf_head b \<and> buf_head b < int (length (buf_items b)) \<and>
     0 \<le> buf_len b \<and> buf_len b \<le> int (length (buf_items b)) \<and>
     (buf_len b = 0 \<longrightarrow> buf_head b = 0) \<and>
     (\<forall>j < length (buf_items b). buf_items b ! j \<noteq> zero \<longrightarrow>
        (\<exists>i < nat (buf_len b). j = (nat (buf_head b) + i) mod length (buf_items b)))"

lemma buffer_inv_cases:
  assumes "buffer_inv zero b"
  obtains h n where "buf_head b = int h" "buf_len b = int n"
    "h < length (buf_items b)" "n \<le> length (buf_items b)" "n = 0 \<Longrightarrow> h = 0"
    "\<And>j. j < length (buf_items b) \<Longrightarrow> buf_items b ! j \<noteq> zero \<Longrightarrow>
       \<exists>i < n. j = (h + i) mod length (buf_items b)"
proof
  show "buf_head b = int (nat (buf_head b))" "buf_len b = int (nat (buf_len b))"
    "nat (buf_head b) < length (buf_items b)" "nat (buf_len b) \<le> length (buf_items b)"
    "nat (buf_len b) = 0 \<Longrightarrow> nat (buf_head b) = 0"
    using assms by (auto simp: buffer_inv_def)
qed (use assms in \<open>auto simp: buffer_inv_def\<close>)

lemma NewBuffer_inv:
  "\<exists>b. NewBuffer zero cap = Ret b \<and> buffer_inv zero b \<and> buffer_abs b = (False, [])"
  by (auto simp: NewBuffer_def go_make_def buffer_inv_def buffer_abs_def)

text \<open>
  A full buffer is unrolled into the new slice: from \<open>head\<close> to the end, then from slot 0
  up to \<open>head\<close>, then zero values.
\<close>

lemma buffer_grow_full:
  assumes "buf_head b = int h" and "buf_len b = int (length (buf_items b))"
    and h: "h < length (buf_items b)"
  shows "buffer_growLocked zero b =
    Ret (b\<lparr>buf_items := drop h (buf_items b) @ take h (buf_items b) @
                         replicate (length (buf_items b)) zero, buf_head := 0\<rparr>)"
proof -
  let ?xs = "buf_items b"
  let ?L = "length ?xs"
  have make: "go_make zero (int ?L * 2) = Ret (replicate (?L + ?L) zero)"
    using go_make_int [of zero "?L + ?L"] by (simp add: mult_2_right)
  show ?thesis
  proof (cases "h = 0")
    case True
    have "go_slice ?xs 0 (int ?L) = Ret ?xs"
      using go_slice_int [of 0 ?L ?xs] by simp
    with True show ?thesis
      using assms make by (simp add: buffer_growLocked_def Let_def)
  next
    case False
    have s1: "go_slice ?xs (int h) (int ?L) = Ret (drop h ?xs)"
      using h by simp
    have s2: "go_slice ?xs 0 (int ?L - int (?L - h)) = Ret (take h ?xs)"
      using h go_slice_int [of 0 h ?xs] by simp
    have "go_copy (go_copy (replicate (?L + ?L) zero) 0 (drop h ?xs)) (?L - h) (take h ?xs)
        = drop h ?xs @ take h ?xs @ replicate ?L zero"
      using h by simp
    moreover have "min (?L + ?L) (?L - h) = ?L - h"
      by simp
    ultimately show ?thesis
      using False assms make s1 s2 by (simp add: buffer_growLocked_def Let_def)
  qed
qed

lemma ring_list_full:
  assumes "h < length xs"
  shows "ring_list xs h (length xs) = drop h xs @ take h xs"
  using assms by (cases "h = 0") (simp_all add: ring_list_straight ring_list_wrapped)

lemma NewBuffer_fresh:
  assumes "NewBuffer zero cap = Ret b"
  shows "buffer_inv zero b \<and> length (buf_items b) = max 1 (nat cap) \<and> buf_len b = 0"
  using assms NewBuffer_inv [of zero cap]
  by (cases "cap \<le> 0") (auto simp: NewBuffer_def go_make_def)

text \<open>Growing keeps contents and length and leaves room for one more value.\<close>

lemma buffer_growLocked_ok:
  assumes inv: "buffer_inv zero b"
  obtains b' where "buffer_growLocked zero b = Ret b'" "buffer_inv zero b'"
    "buffer_abs b' = buffer_abs b" "buf_len b' = buf_len b" "buf_closed b' = buf_closed b"
    "buf_len b < int (length (buf_items b'))"
    "length (buf_items b') = (if buf_len b < int (length (buf_items b)) then length (buf_items b)
                              else 2 * length (buf_items b))"
proof (cases "buf_len b < int (length (buf_items b))")
  case True
  then show ?thesis
    by (intro that [of b]) (simp_all add: buffer_growLocked_def inv)
next
  case False
  from buffer_inv_cases [OF inv] obtain h where
    b: "buf_head b = int h" "buf_len b = int (length (buf_items b))" "h < length (buf_items b)"
    using False by (metis int_ops(9) linorder_not_less nle_le of_nat_less_iff)
  let ?grown = "drop h (buf_items b) @ take h (buf_items b) @ replicate (length (buf_items b)) zero"
  have "ring_list ?grown 0 (length (buf_items b)) = drop h (buf_items b) @ take h (buf_items b)"
    using b(3) by (subst ring_list_straight) simp_all
  moreover have "\<exists>i < length (buf_items b). j = i mod (length (buf_items b) + length (buf_items b))"
    if "j < length (buf_items b) + length (buf_items b)" "?grown ! j \<noteq> zero" for j
  proof -
    have "j < length (buf_items b)"
      using that b(3) by (rule_tac ccontr) (simp add: nth_append flip: append_assoc)
    then show ?thesis
      by (intro exI [of _ j]) simp
  qed
  moreover have "buf_items b \<noteq> []"
    using b(3) by auto
  ultimately show ?thesis
    using b buffer_grow_full [OF b, of zero]
    by (intro that [of "b\<lparr>buf_items := ?grown, buf_head := 0\<rparr>"])
      (simp_all add: buffer_inv_def buffer_abs_def ring_list_full)
qed

lemma buffer_Push_closed:
  "buf_closed b \<Longrightarrow> buffer_Push zero v b = Ret (b, False, NoSignal)"
  by (simp add: buffer_Push_def)

lemma buffer_store_inv:
  assumes inv: "buffer_inv zero b" and room: "buf_len b < int (length (buf_items b))"
  shows "\<exists>i. go_rem (buf_head b + buf_len b) (int (length (buf_items b))) = Ret (int i) \<and>
    i < length (buf_items b) \<and>
    buffer_inv zero (b\<lparr>buf_items := (buf_items b)[i := v], buf_len := buf_len b + 1\<rparr>) \<and>
    buffer_abs (b\<lparr>buf_items := (buf_items b)[i := v], buf_len := buf_len b + 1\<rparr>) =
      (buf_closed b, snd (buffer_abs b) @ [v])"
proof -
  let ?L = "length (buf_items b)"
  from buffer_inv_cases [OF inv] obtain h n where
    b: "buf_head b = int h" "buf_len b = int n" "h < ?L" "n \<le> ?L" "n = 0 \<Longrightarrow> h = 0"
    and used: "\<And>j. j < ?L \<Longrightarrow> buf_items b ! j \<noteq> zero \<Longrightarrow> \<exists>i < n. j = (h + i) mod ?L" by metis
  let ?i = "(h + n) mod ?L"
  have L: "0 < ?L"
    using b(3) by linarith
  have rem: "go_rem (int h + int n) (int ?L) = Ret (int ?i)"
    using go_rem_int [OF L, of "h + n"] by simp
  have "\<exists>i < Suc n. j = (h + i) mod ?L" if "j < ?L" "(buf_items b)[?i := v] ! j \<noteq> zero" for j
  proof (cases "j = ?i")
    case False
    then show ?thesis
      using that used [of j] by (auto intro: less_SucI)
  qed auto
  then show ?thesis
    using b room L rem ring_list_append [of n "buf_items b" h v]
    by (intro exI [of _ ?i]) (auto simp: buffer_inv_def buffer_abs_def)
qed

lemma buffer_Push_open:
  assumes "buffer_inv zero b" and "\<not> buf_closed b"
  shows "\<exists>b'. buffer_Push zero v b = Ret (b', True, Signal) \<and> buffer_inv zero b' \<and>
    buffer_abs b' = (False, snd (buffer_abs b) @ [v]) \<and>
    length (buf_items b') = (if buf_len b < int (length (buf_items b)) then length (buf_items b)
                             else 2 * length (buf_items b)) \<and>
    buf_len b' = buf_len b + 1"
proof -
  obtain g where g: "buffer_growLocked zero b = Ret g" "buffer_inv zero g"
    "buffer_abs g = buffer_abs b" "buf_len g = buf_len b" "buf_closed g = buf_closed b"
    "buf_len b < int (length (buf_items g))"
    "length (buf_items g) = (if buf_len b < int (length (buf_items b)) then length (buf_items b)
                             else 2 * length (buf_items b))"
    using buffer_growLocked_ok [OF assms(1)] .
  have "buf_len g < int (length (buf_items g))"
    using g(4,6) by simp
  from buffer_store_inv [OF g(2) this, of v] obtain i where
    "go_rem (buf_head g + buf_len g) (int (length (buf_items g))) = Ret (int i)"
    "i < length (buf_items g)"
    "buffer_inv zero (g\<lparr>buf_items := (buf_items g)[i := v], buf_len := buf_len g + 1\<rparr>)"
    "buffer_abs (g\<lparr>buf_items := (buf_items g)[i := v], buf_len := buf_len g + 1\<rparr>) =
      (buf_closed g, snd (buffer_abs g) @ [v])"
    by blast
  then show ?thesis
    using g assms(2) by (simp add: buffer_Push_def)
qed

text \<open>Taking the head: the slot is zeroed, and the rest of the window starts one further.\<close>

lemma buffer_take_used:
  assumes used: "\<And>j. j < length xs \<Longrightarrow> xs ! j \<noteq> zero \<Longrightarrow> \<exists>i < Suc m. j = (h + i) mod length xs"
    and "h < length xs" and "j < length xs" and "xs[h := zero] ! j \<noteq> zero"
  shows "\<exists>i < m. j = (Suc h mod length xs + i) mod length xs"
proof -
  have "j \<noteq> h"
    using assms(2,4) by auto
  with used [OF assms(3)] assms(2,4) obtain i where i: "i < Suc m" "j = (h + i) mod length xs"
    by auto
  with \<open>j \<noteq> h\<close> assms(2) obtain k where "i = Suc k"
    by (cases i) auto
  with i show ?thesis
    by (intro exI [of _ k]) (simp add: mod_add_left_eq)
qed

lemma buffer_nextLocked_ok:
  assumes inv: "buffer_inv zero b" and "buf_len b \<noteq> 0"
  obtains b' where "buffer_nextLocked zero b = Ret (b', hd (snd (buffer_abs b)))"
    "buffer_inv zero b'" "buffer_abs b' = (buf_closed b, tl (snd (buffer_abs b)))"
    "snd (buffer_abs b) \<noteq> []"
proof -
  let ?xs = "buf_items b"
  let ?L = "length ?xs"
  from buffer_inv_cases [OF inv] obtain h n where
    b: "buf_head b = int h" "buf_len b = int n" "h < ?L" "n \<le> ?L"
    and used: "\<And>j. j < ?L \<Longrightarrow> ?xs ! j \<noteq> zero \<Longrightarrow> \<exists>i < n. j = (h + i) mod ?L" by metis
  obtain m where n: "n = Suc m"
    using b(2) assms(2) by (cases n) auto
  let ?h = "if m = 0 then 0 else Suc h mod ?L"
  let ?b = "b\<lparr>buf_items := ?xs[h := zero], buf_head := int ?h, buf_len := int m\<rparr>"
  have L: "0 < ?L"
    using b(3) by linarith
  then have h': "Suc h mod ?L < ?L"
    by simp
  have take1: "ring_list ?xs h (Suc m) = ?xs ! h # ring_list (?xs[h := zero]) (Suc h mod ?L) m"
    using b n by (simp add: ring_list_take)
  have rem: "go_rem (int h + 1) (int ?L) = Ret (int (Suc h mod ?L))"
    using go_rem_int [OF L, of "Suc h"] by (simp add: add.commute)
  have "buffer_nextLocked zero b = Ret (?b, ?xs ! h)"
    using b n rem by (simp add: buffer_nextLocked_def)
  moreover have "buffer_abs ?b = (buf_closed b, tl (snd (buffer_abs b)))"
    using b n take1 by (simp add: buffer_abs_def)
  moreover have "snd (buffer_abs b) = ?xs ! h # ring_list (?xs[h := zero]) (Suc h mod ?L) m"
    using b n take1 by (simp add: buffer_abs_def)
  moreover have "buffer_inv zero ?b"
    using b n L h' buffer_take_used [OF used [unfolded n]] by (auto simp: buffer_inv_def)
  ultimately show ?thesis
    by (intro that [of ?b]) simp_all
qed

section \<open>The buffer is a container\<close>

lemma buffer_TryNext_ok:
  assumes "buffer_inv zero b"
  shows "\<exists>b'. buffer_inv zero b' \<and>
    (if snd (buffer_abs b) = [] then buffer_TryNext zero b = Ret (b', zero, False) \<and> b' = b
     else buffer_TryNext zero b = Ret (b', hd (snd (buffer_abs b)), True) \<and>
          buffer_abs b' = (buf_closed b, tl (snd (buffer_abs b))))"
proof (cases "buf_len b = 0")
  case True
  then show ?thesis
    using assms by (simp add: buffer_TryNext_def buffer_abs_def)
next
  case False
  then show ?thesis
    using buffer_nextLocked_ok [OF assms False] by (fastforce simp: buffer_TryNext_def)
qed

lemma buffer_step_refines:
  assumes "buffer_inv zero b"
  shows "\<exists>b' r. buffer_exec zero x b = Ret (b', r) \<and> buffer_inv zero b' \<and>
    spec_step split_first zero x (buffer_abs b) = (buffer_abs b', r)"
proof (cases x)
  case OpClose
  then show ?thesis
    using assms by (auto simp: buffer_Close_def buffer_abs_def buffer_inv_def)
next
  case OpLen
  then show ?thesis
    using assms by (auto simp: buffer_Len_def buffer_abs_def buffer_inv_def)
next
  case (OpPush v)
  then show ?thesis
    using assms buffer_Push_open [OF assms, of v] buffer_Push_closed [of b zero v]
    by (cases "buf_closed b"; cases "buffer_abs b") (auto simp: buffer_abs_def)
next
  case OpTryTake
  then show ?thesis
    using buffer_TryNext_ok [OF assms] assms
    by (cases "buffer_abs b") (auto simp: split_first_def buffer_abs_def split: if_splits)
qed

lemma buffer_Next_parks:
  "buffer_inv zero b \<Longrightarrow> spec_take split_first zero (buffer_abs b) = None \<Longrightarrow>
     buffer_Next zero b = Ret None"
  by (auto simp: buffer_abs_def buffer_Next_def buffer_inv_def ring_list_def split: if_splits)

lemma buffer_Next_returns:
  assumes "buffer_inv zero b" and "spec_take split_first zero (buffer_abs b) = Some (a, v)"
  shows "\<exists>b'. buffer_Next zero b = Ret (Some (b', v)) \<and> buffer_inv zero b' \<and> buffer_abs b' = a"
proof (cases "buf_len b = 0")
  case True
  then show ?thesis
    using assms by (auto simp: buffer_Next_def buffer_abs_def split: if_splits)
next
  case False
  obtain b' where "buffer_nextLocked zero b = Ret (b', hd (snd (buffer_abs b)))"
    "buffer_inv zero b'" "buffer_abs b' = (buf_closed b, tl (snd (buffer_abs b)))"
    "snd (buffer_abs b) \<noteq> []"
    using buffer_nextLocked_ok [OF assms(1) False] .
  then show ?thesis
    using assms(2) False
    by (auto simp: buffer_Next_def split_first_def buffer_abs_def)
qed

interpretation buffer: container "buffer_exec zero" split_first zero buffer_abs "buffer_inv zero"
  "buffer_Next zero"
  for zero :: 'a
proof unfold_locales
  show "length (snd (split_first xs)) = length xs - 1" for xs :: "'a list"
    by (simp add: split_first_def)
qed (blast intro: buffer_step_refines buffer_Next_parks buffer_Next_returns)+

text \<open>Goroutines calling \<open>Next\<close>, \<open>Push\<close>, \<open>TryNext\<close>, \<open>Len\<close> and \<open>Close\<close> on one buffer.\<close>

definition buffer_step ::
  "'a \<Rightarrow> ('a buffer, 'a \<times> bool) monitor \<Rightarrow> ('a buffer, 'a \<times> bool) monitor \<Rightarrow> bool" where
  "buffer_step zero = mon_step (buffer_Next zero) (buffer_exec zero)"

definition buffer_reachable :: "'a \<Rightarrow> int \<Rightarrow> ('a buffer, 'a \<times> bool) monitor \<Rightarrow> bool" where
  "buffer_reachable zero cap m \<longleftrightarrow>
     (\<exists>b. NewBuffer zero cap = Ret b \<and> reach (mon_start b) (buffer_step zero) m)"

definition buffer_run ::
  "'a \<Rightarrow> int \<Rightarrow> 'a container_op list \<Rightarrow> ('a buffer \<times> ('a response \<times> cond_op) list) go" where
  "buffer_run zero cap ops = go_bind (NewBuffer zero cap) (run_ops (buffer_exec zero) ops)"

lemma buffer_run_Ret:
  obtains b rs where "buffer_run zero cap ops = Ret (b, rs)" "buffer_inv zero b"
    "(buffer_abs b, rs) = run_spec (spec_step split_first zero) ops (False, [])"
proof -
  obtain b where b: "NewBuffer zero cap = Ret b" "buffer_inv zero b" "buffer_abs b = (False, [])"
    using NewBuffer_inv [of zero cap] by blast
  from buffer.run_refines [OF b(2), of ops] obtain b' where r:
    "run_ops (buffer_exec zero) ops b =
       Ret (b', snd (run_spec (spec_step split_first zero) ops (False, [])))"
    "buffer_inv zero b'" "buffer_abs b' = fst (run_spec (spec_step split_first zero) ops (False, []))"
    unfolding b(3) by blast
  show ?thesis
  proof (rule that)
    show "buffer_run zero cap ops =
        Ret (b', snd (run_spec (spec_step split_first zero) ops (False, [])))"
      by (simp add: buffer_run_def b(1) r(1))
  qed (simp_all only: r prod.collapse)
qed

lemma buffer_reachable_reach:
  assumes "buffer_reachable zero cap m"
  shows "reach (\<lambda>m. \<exists>b. buffer_inv zero b \<and> mon_start b m)
    (mon_step (buffer_Next zero) (buffer_exec zero)) m"
proof -
  obtain b where b: "NewBuffer zero cap = Ret b" "reach (mon_start b) (buffer_step zero) m"
    using assms by (auto simp: buffer_reachable_def)
  then have "buffer_inv zero b"
    using NewBuffer_inv [of zero cap] by auto
  with b(2) show ?thesis
    unfolding buffer_step_def by (induction rule: reach.induct) (auto intro: reach.intros)
qed

section \<open>Capacity\<close>

lemma buffer_exec_capacity:
  assumes "buffer_inv zero b" and "buffer_exec zero x b = Ret (b', r)"
  shows "length (buf_items b') \<le>
      max (length (buf_items b)) (if is_push x then 2 * nat (buf_len b) else 0) \<and>
    nat (buf_len b') \<le> nat (buf_len b) + (if is_push x then 1 else 0)"
proof (cases x)
  case (OpPush v)
  show ?thesis
  proof (cases "buf_closed b")
    case False
    from buffer_Push_open [OF assms(1) this, of v] assms(2) OpPush
    have "buf_len b' = buf_len b + 1"
      "length (buf_items b') = (if buf_len b < int (length (buf_items b)) then length (buf_items b)
                               else 2 * length (buf_items b))"
      by auto
    moreover have "0 \<le> buf_len b" "buf_len b \<le> int (length (buf_items b))"
      using assms(1) by (simp_all add: buffer_inv_def)
    ultimately show ?thesis
      using OpPush by (simp split: if_splits)
  qed (use assms OpPush in \<open>auto simp: buffer_Push_closed\<close>)
next
  case OpTryTake
  then show ?thesis
    using assms
    by (auto simp: buffer_TryNext_def buffer_nextLocked_def go_index_def go_store_def go_rem_def
        go_bind_eq_Ret Let_def split: if_splits prod.splits)
qed (use assms in \<open>auto simp: buffer_Close_def split: if_splits\<close>)

lemma buffer_run_capacity:
  "buffer_inv zero b \<Longrightarrow> run_ops (buffer_exec zero) ops b = Ret (b', rs) \<Longrightarrow>
     length (buf_items b') \<le>
       max (length (buf_items b)) (2 * (nat (buf_len b) + length (filter is_push ops)))"
proof (induction ops arbitrary: b rs)
  case (Cons x ops)
  from buffer_step_refines [OF Cons.prems(1), of x] obtain b1 r where
    1: "buffer_exec zero x b = Ret (b1, r)" "buffer_inv zero b1" by blast
  with Cons.prems(2) obtain rs' where "run_ops (buffer_exec zero) ops b1 = Ret (b', rs')"
    by (auto simp: go_bind_eq_Ret)
  from Cons.IH [OF 1(2) this] buffer_exec_capacity [OF Cons.prems(1) 1(1)] show ?case
    by (cases "is_push x") auto
qed simp

section \<open>Properties\<close>

text \<open>
  C27: A buffer created with any initial capacity behaves as the abstract FIFO container on
  every sequence of operations: no panic, the same responses and wakeups, the same final
  contents.
\<close>

theorem buffer_refines_fifo:
  "go_bind (buffer_run zero cap ops) (\<lambda>(b, rs). Ret (buffer_abs b, rs)) =
     Ret (run_spec (spec_step split_first zero) ops (False, []))"
  by (rule buffer_run_Ret [of zero cap ops]) simp

text \<open>
  C28: In every reachable state of goroutines using one buffer, if a goroutine is parked in
  \<open>Next\<close> then the buffer is open and holds at most as many values as there are released
  goroutines on their way to take one; no wakeup is lost.
\<close>

theorem buffer_no_lost_wakeup:
  assumes "buffer_reachable zero cap m" and "mon_waiting m \<noteq> []"
  shows "\<not> buf_closed (mon_data m) \<and> buf_len (mon_data m) \<le> int (length (mon_woken m))"
  using buffer.no_lost_wakeup [OF buffer_reachable_reach [OF assms(1)] assms(2)]
  by (auto simp: buffer.shut_def buffer.stored_def buffer_abs_def)

lemma buffer_no_lost_wakeup_witness:
  "\<exists>m :: (nat buffer, nat \<times> bool) monitor. buffer_reachable 0 1 m \<and> mon_waiting m = [7] \<and>
     \<not> buf_closed (mon_data m) \<and> buf_len (mon_data m) \<le> int (length (mon_woken m))"
proof -
  let ?b = "\<lparr>buf_closed = False, buf_head = 0, buf_items = [0], buf_len = 0\<rparr> :: nat buffer"
  let ?start = "\<lparr>mon_data = ?b, mon_waiting = [], mon_woken = [], mon_returned = []\<rparr>
    :: (nat buffer, nat \<times> bool) monitor"
  let ?m = "?start\<lparr>mon_waiting := mon_waiting ?start @ [7]\<rparr>"
  have new: "NewBuffer 0 1 = Ret ?b"
    by code_simp
  have "reach (mon_start ?b) (buffer_step 0) ?start"
    by (rule reach_start) (simp only: mon_start_def)
  moreover have "buffer_step 0 ?start ?m"
    unfolding buffer_step_def by (rule call_parks) (simp_all add: buffer_Next_def)
  ultimately have m: "buffer_reachable 0 1 ?m"
    unfolding buffer_reachable_def using new by (blast intro: reach_step)
  have "mon_waiting ?m \<noteq> []"
    by simp
  from m buffer_no_lost_wakeup [OF m this] show ?thesis
    by (intro exI [of _ ?m] conjI) simp_all
qed

text \<open>
  After any sequence of operations on a new buffer every slot outside the stored window
  holds the zero value, and the backing slice is never longer than the initial capacity
  or twice the number of pushes.
\<close>

theorem buffer_memory_bounded:
  "\<exists>b rs. buffer_run zero cap ops = Ret (b, rs) \<and> buffer_inv zero b \<and>
     length (buf_items b) \<le> max (max 1 (nat cap)) (2 * length (filter is_push ops))"
proof -
  obtain b0 where "NewBuffer zero cap = Ret b0"
    using NewBuffer_inv [of zero cap] by blast
  then have b0: "NewBuffer zero cap = Ret b0" "buffer_inv zero b0"
    "length (buf_items b0) = max 1 (nat cap)" "buf_len b0 = 0"
    using NewBuffer_fresh [of zero cap b0] by simp_all
  obtain b rs where b: "buffer_run zero cap ops = Ret (b, rs)" "buffer_inv zero b"
    by (rule buffer_run_Ret)
  with b0 have "run_ops (buffer_exec zero) ops b0 = Ret (b, rs)"
    by (simp add: buffer_run_def)
  from buffer_run_capacity [OF b0(2) this] b0(3,4)
  have "length (buf_items b) \<le> max (max 1 (nat cap)) (2 * length (filter is_push ops))"
    by simp
  with b show ?thesis
    by blast
qed

end
