(* ===== verification/Gx_Stack.thy ===== *)
theory Gx_Stack imports Gx_Container begin

text \<open>
  \<open>stack.go\<close>: the growing LIFO stack. The values are the first \<open>len\<close> slots of the
  backing slice, top last; the other slots hold the zero value. It meets the container
  contract with the last value taken first.
\<close>

section \<open>The stack\<close>

record 'a stack =
  stk_closed :: bool
  stk_items :: "'a list"
  stk_len :: int

definition NewStack :: "'a \<Rightarrow> int \<Rightarrow> 'a stack go" where
  "NewStack zero initialCapacity =
     (let cap = if initialCapacity \<le> 0 then 1 else initialCapacity
      in go_bind (go_make zero cap) (\<lambda>items.
           Ret \<lparr>stk_closed = False, stk_items = items, stk_len = 0\<rparr>))"

definition stack_Close :: "'a stack \<Rightarrow> 'a stack \<times> cond_op" where
  "stack_Close s =
     (if stk_closed s then (s, NoSignal) else (s\<lparr>stk_closed := True\<rparr>, Broadcast))"

definition stack_Len :: "'a stack \<Rightarrow> int" where
  "stack_Len s = stk_len s"

definition stack_growLocked :: "'a \<Rightarrow> 'a stack \<Rightarrow> 'a stack go" where
  "stack_growLocked zero s =
     (let cap = int (length (stk_items s)) in
      if stk_len s < cap then Ret s
      else go_bind (go_make zero (cap * 2)) (\<lambda>items.
             Ret (s\<lparr>stk_items := go_copy items 0 (stk_items s)\<rparr>)))"

definition stack_popLocked :: "'a \<Rightarrow> 'a stack \<Rightarrow> ('a stack \<times> 'a) go" where
  "stack_popLocked zero s =
     (let len = stk_len s - 1 in
      go_bind (go_index (stk_items s) len) (\<lambda>value.
      go_bind (go_store (stk_items s) len zero) (\<lambda>items.
        Ret (s\<lparr>stk_items := items, stk_len := len\<rparr>, value))))"

definition stack_Push :: "'a \<Rightarrow> 'a \<Rightarrow> 'a stack \<Rightarrow> ('a stack \<times> bool \<times> cond_op) go" where
  "stack_Push zero value s =
     (if stk_closed s then Ret (s, False, NoSignal)
      else go_bind (stack_growLocked zero s) (\<lambda>s.
           go_bind (go_store (stk_items s) (stk_len s) value) (\<lambda>items.
             Ret (s\<lparr>stk_items := items, stk_len := stk_len s + 1\<rparr>, True, Signal))))"

definition stack_TryPop :: "'a \<Rightarrow> 'a stack \<Rightarrow> ('a stack \<times> 'a \<times> bool) go" where
  "stack_TryPop zero s =
     (if stk_len s = 0 then Ret (s, zero, False)
      else go_bind (stack_popLocked zero s) (\<lambda>(s', value). Ret (s', value, True)))"

text \<open>One pass of \<open>Pop\<close> under the mutex; \<open>None\<close> is the call of \<open>cond.Wait\<close>.\<close>

definition stack_Pop :: "'a \<Rightarrow> 'a stack \<Rightarrow> ('a stack \<times> 'a \<times> bool) option go" where
  "stack_Pop zero s =
     (if stk_len s = 0 \<and> \<not> stk_closed s then Ret None
      else if stk_len s = 0 then Ret (Some (s, zero, False))
      else go_bind (stack_popLocked zero s) (\<lambda>(s', value). Ret (Some (s', value, True))))"

fun stack_exec ::
  "'a \<Rightarrow> 'a container_op \<Rightarrow> 'a stack \<Rightarrow> ('a stack \<times> 'a response \<times> cond_op) go" where
  "stack_exec zero OpClose s = (let (s', sig) = stack_Close s in Ret (s', RUnit, sig))"
| "stack_exec zero OpLen s = Ret (s, RLen (stack_Len s), NoSignal)"
| "stack_exec zero (OpPush v) s =
     go_bind (stack_Push zero v s) (\<lambda>(s', ok, sig). Ret (s', RBool ok, sig))"
| "stack_exec zero OpTryTake s =
     go_bind (stack_TryPop zero s) (\<lambda>(s', v, ok). Ret (s', RValue v ok, NoSignal))"

section \<open>Abstraction and invariant\<close>

definition stack_abs :: "'a stack \<Rightarrow> 'a abs_container" where
  "stack_abs s = (stk_closed s, take (nat (stk_len s)) (stk_items s))"

definition stack_inv :: "'a \<Rightarrow> 'a stack \<Rightarrow> bool" where
  "stack_inv zero s \<longleftrightarrow>
     0 < length (stk_items s) \<and> 0 \<le> stk_len s \<and> stk_len s \<le> int (length (stk_items s)) \<and>
     (\<forall>j < length (stk_items s). nat (stk_len s) \<le> j \<longrightarrow> stk_items s ! j = zero)"

lemma stack_inv_cases:
  assumes "stack_inv zero s"
  obtains n where "stk_len s = int n" "n \<le> length (stk_items s)" "0 < length (stk_items s)"
    "\<And>j. n \<le> j \<Longrightarrow> j < length (stk_items s) \<Longrightarrow> stk_items s ! j = zero"
  using assms by (intro that [of "nat (stk_len s)"]) (auto simp: stack_inv_def)

lemma NewStack_fresh:
  "\<exists>s. NewStack zero cap = Ret s \<and> stack_inv zero s \<and> stack_abs s = (False, []) \<and>
     length (stk_items s) = max 1 (nat cap) \<and> stk_len s = 0"
  by (cases "cap \<le> 0") (auto simp: NewStack_def go_make_def stack_inv_def stack_abs_def)

lemma stack_growLocked_ok:
  assumes "stack_inv zero s"
  obtains g where "stack_growLocked zero s = Ret g" "stack_inv zero g" "stack_abs g = stack_abs s"
    "stk_len g = stk_len s" "stk_closed g = stk_closed s" "stk_len s < int (length (stk_items g))"
    "length (stk_items g) = (if stk_len s < int (length (stk_items s)) then length (stk_items s)
                             else 2 * length (stk_items s))"
proof (cases "stk_len s < int (length (stk_items s))")
  case True
  then show ?thesis
    by (intro that [of s]) (simp_all add: stack_growLocked_def assms)
next
  case False
  let ?xs = "stk_items s"
  let ?L = "length ?xs"
  have s: "stk_len s = int ?L" "0 < ?L"
    using assms False by (auto simp: stack_inv_def)
  have "go_make zero (int ?L * 2) = Ret (replicate (?L + ?L) zero)"
    using go_make_int [of zero "?L + ?L"] by (simp add: mult_2_right)
  then have "stack_growLocked zero s = Ret (s\<lparr>stk_items := ?xs @ replicate ?L zero\<rparr>)"
    using s by (simp add: stack_growLocked_def Let_def)
  then show ?thesis
    using s by (intro that [of "s\<lparr>stk_items := ?xs @ replicate ?L zero\<rparr>"])
      (simp_all add: stack_inv_def stack_abs_def nth_append)
qed

lemma stack_Push_closed: "stk_closed s \<Longrightarrow> stack_Push zero v s = Ret (s, False, NoSignal)"
  by (simp add: stack_Push_def)

lemma stack_store_ok:
  assumes "stack_inv zero s" and "stk_len s < int (length (stk_items s))"
  obtains items where "go_store (stk_items s) (stk_len s) v = Ret items"
    "length items = length (stk_items s)"
    "stack_inv zero (s\<lparr>stk_items := items, stk_len := stk_len s + 1\<rparr>)"
    "stack_abs (s\<lparr>stk_items := items, stk_len := stk_len s + 1\<rparr>) =
       (stk_closed s, snd (stack_abs s) @ [v])"
proof -
  from stack_inv_cases [OF assms(1)] obtain n where n: "stk_len s = int n"
    and free: "\<And>j. n \<le> j \<Longrightarrow> j < length (stk_items s) \<Longrightarrow> stk_items s ! j = zero" by metis
  with assms(2) have "n < length (stk_items s)"
    by simp
  then show ?thesis
    using n free
    by (intro that [of "(stk_items s)[n := v]"])
      (auto simp: stack_inv_def stack_abs_def take_Suc_conv_app_nth)
qed

lemma stack_Push_open:
  assumes "stack_inv zero s" and "\<not> stk_closed s"
  shows "\<exists>s'. stack_Push zero v s = Ret (s', True, Signal) \<and> stack_inv zero s' \<and>
    stack_abs s' = (False, snd (stack_abs s) @ [v]) \<and>
    length (stk_items s') = (if stk_len s < int (length (stk_items s)) then length (stk_items s)
                             else 2 * length (stk_items s)) \<and>
    stk_len s' = stk_len s + 1"
proof -
  obtain g where g: "stack_growLocked zero s = Ret g" "stack_inv zero g" "stack_abs g = stack_abs s"
    "stk_len g = stk_len s" "stk_closed g = stk_closed s" "stk_len s < int (length (stk_items g))"
    "length (stk_items g) = (if stk_len s < int (length (stk_items s)) then length (stk_items s)
                             else 2 * length (stk_items s))"
    using stack_growLocked_ok [OF assms(1)] .
  have "stk_len g < int (length (stk_items g))"
    using g(4,6) by simp
  from stack_store_ok [OF g(2) this, of v] obtain items where
    "go_store (stk_items g) (stk_len g) v = Ret items" "length items = length (stk_items g)"
    "stack_inv zero (g\<lparr>stk_items := items, stk_len := stk_len g + 1\<rparr>)"
    "stack_abs (g\<lparr>stk_items := items, stk_len := stk_len g + 1\<rparr>) =
       (stk_closed g, snd (stack_abs g) @ [v])" .
  then show ?thesis
    using g assms(2) by (simp add: stack_Push_def)
qed

lemma stack_popLocked_ok:
  assumes "stack_inv zero s" and "stk_len s \<noteq> 0"
  obtains s' where "stack_popLocked zero s = Ret (s', last (snd (stack_abs s)))"
    "stack_inv zero s'" "stack_abs s' = (stk_closed s, butlast (snd (stack_abs s)))"
    "snd (stack_abs s) \<noteq> []"
proof -
  from stack_inv_cases [OF assms(1)] obtain n where
    n: "stk_len s = int n" "n \<le> length (stk_items s)" "0 < length (stk_items s)"
    and free: "\<And>j. n \<le> j \<Longrightarrow> j < length (stk_items s) \<Longrightarrow> stk_items s ! j = zero" by metis
  obtain m where m: "n = Suc m"
    using n(1) assms(2) by (cases n) auto
  have "take (Suc m) (stk_items s) = take m (stk_items s) @ [stk_items s ! m]"
    using m n(2) by (simp add: take_Suc_conv_app_nth)
  moreover have "stack_popLocked zero s =
      Ret (s\<lparr>stk_items := (stk_items s)[m := zero], stk_len := int m\<rparr>, stk_items s ! m)"
    using m n by (simp add: stack_popLocked_def)
  moreover have "(stk_items s)[m := zero] ! j = zero" if "m \<le> j" "j < length (stk_items s)" for j
    using free [of j] that m by (cases "j = m") simp_all
  ultimately show ?thesis
    using m n by (intro that [of "s\<lparr>stk_items := (stk_items s)[m := zero], stk_len := int m\<rparr>"])
      (simp_all add: stack_inv_def stack_abs_def)
qed

section \<open>The stack is a container\<close>

lemma stack_TryPop_ok:
  assumes "stack_inv zero s"
  shows "\<exists>s'. stack_inv zero s' \<and>
    (if snd (stack_abs s) = [] then stack_TryPop zero s = Ret (s', zero, False) \<and> s' = s
     else stack_TryPop zero s = Ret (s', last (snd (stack_abs s)), True) \<and>
          stack_abs s' = (stk_closed s, butlast (snd (stack_abs s))))"
proof (cases "stk_len s = 0")
  case True
  then show ?thesis
    using assms by (simp add: stack_TryPop_def stack_abs_def)
next
  case False
  then show ?thesis
    using stack_popLocked_ok [OF assms False] by (fastforce simp: stack_TryPop_def)
qed

lemma stack_step_refines:
  assumes "stack_inv zero s"
  shows "\<exists>s' r. stack_exec zero x s = Ret (s', r) \<and> stack_inv zero s' \<and>
    spec_step split_last zero x (stack_abs s) = (stack_abs s', r)"
proof (cases x)
  case OpClose
  then show ?thesis
    using assms by (auto simp: stack_Close_def stack_abs_def stack_inv_def)
next
  case OpLen
  then show ?thesis
    using assms by (auto simp: stack_Len_def stack_abs_def stack_inv_def)
next
  case (OpPush v)
  then show ?thesis
    using assms stack_Push_open [OF assms, of v] stack_Push_closed [of s zero v]
    by (cases "stk_closed s"; cases "stack_abs s") (auto simp: stack_abs_def)
next
  case OpTryTake
  then show ?thesis
    using stack_TryPop_ok [OF assms] assms
    by (cases "stack_abs s") (auto simp: split_last_def stack_abs_def split: if_splits)
qed

lemma stack_Pop_parks:
  "stack_inv zero s \<Longrightarrow> spec_take split_last zero (stack_abs s) = None \<Longrightarrow>
     stack_Pop zero s = Ret None"
  by (auto simp: stack_abs_def stack_Pop_def stack_inv_def split: if_splits)

lemma stack_Pop_returns:
  assumes "stack_inv zero s" and "spec_take split_last zero (stack_abs s) = Some (a, v)"
  shows "\<exists>s'. stack_Pop zero s = Ret (Some (s', v)) \<and> stack_inv zero s' \<and> stack_abs s' = a"
proof (cases "stk_len s = 0")
  case True
  then show ?thesis
    using assms by (auto simp: stack_Pop_def stack_abs_def split: if_splits)
next
  case False
  obtain s' where "stack_popLocked zero s = Ret (s', last (snd (stack_abs s)))"
    "stack_inv zero s'" "stack_abs s' = (stk_closed s, butlast (snd (stack_abs s)))"
    "snd (stack_abs s) \<noteq> []"
    using stack_popLocked_ok [OF assms(1) False] .
  then show ?thesis
    using assms(2) False by (auto simp: stack_Pop_def split_last_def stack_abs_def)
qed

interpretation stack: container "stack_exec zero" split_last zero stack_abs "stack_inv zero"
  "stack_Pop zero"
  for zero :: 'a
proof unfold_locales
  show "length (snd (split_last xs)) = length xs - 1" for xs :: "'a list"
    by (simp add: split_last_def)
qed (blast intro: stack_step_refines stack_Pop_parks stack_Pop_returns)+

definition stack_run ::
  "'a \<Rightarrow> int \<Rightarrow> 'a container_op list \<Rightarrow> ('a stack \<times> ('a response \<times> cond_op) list) go" where
  "stack_run zero cap ops = go_bind (NewStack zero cap) (run_ops (stack_exec zero) ops)"

text \<open>Goroutines calling \<open>Pop\<close>, \<open>Push\<close>, \<open>TryPop\<close>, \<open>Len\<close> and \<open>Close\<close> on one stack.\<close>

definition stack_step ::
  "'a \<Rightarrow> ('a stack, 'a \<times> bool) monitor \<Rightarrow> ('a stack, 'a \<times> bool) monitor \<Rightarrow> bool" where
  "stack_step zero = mon_step (stack_Pop zero) (stack_exec zero)"

definition stack_reachable :: "'a \<Rightarrow> int \<Rightarrow> ('a stack, 'a \<times> bool) monitor \<Rightarrow> bool" where
  "stack_reachable zero cap m \<longleftrightarrow>
     (\<exists>s. NewStack zero cap = Ret s \<and> reach (mon_start s) (stack_step zero) m)"

lemma stack_run_Ret:
  obtains s rs where "stack_run zero cap ops = Ret (s, rs)" "stack_inv zero s"
    "(stack_abs s, rs) = run_spec (spec_step split_last zero) ops (False, [])"
proof -
  obtain s where s: "NewStack zero cap = Ret s" "stack_inv zero s" "stack_abs s = (False, [])"
    using NewStack_fresh [of zero cap] by blast
  from stack.run_refines [OF s(2), of ops] obtain s' where r:
    "run_ops (stack_exec zero) ops s =
       Ret (s', snd (run_spec (spec_step split_last zero) ops (False, [])))"
    "stack_inv zero s'" "stack_abs s' = fst (run_spec (spec_step split_last zero) ops (False, []))"
    unfolding s(3) by blast
  show ?thesis
  proof (rule that)
    show "stack_run zero cap ops =
        Ret (s', snd (run_spec (spec_step split_last zero) ops (False, [])))"
      by (simp add: stack_run_def s(1) r(1))
  qed (simp_all only: r prod.collapse)
qed

lemma stack_reachable_reach:
  assumes "stack_reachable zero cap m"
  shows "reach (\<lambda>m. \<exists>s. stack_inv zero s \<and> mon_start s m)
    (mon_step (stack_Pop zero) (stack_exec zero)) m"
proof -
  obtain s where s: "NewStack zero cap = Ret s" "reach (mon_start s) (stack_step zero) m"
    using assms by (auto simp: stack_reachable_def)
  then have "stack_inv zero s"
    using NewStack_fresh [of zero cap] by auto
  with s(2) show ?thesis
    unfolding stack_step_def by (induction rule: reach.induct) (auto intro: reach.intros)
qed

section \<open>Properties\<close>

text \<open>
  C36: A stack created with any initial capacity behaves as the abstract LIFO container on
  every sequence of operations: no panic, the same responses and wakeups, the same final
  contents.
\<close>

theorem stack_refines_lifo:
  "go_bind (stack_run zero cap ops) (\<lambda>(s, rs). Ret (stack_abs s, rs)) =
     Ret (run_spec (spec_step split_last zero) ops (False, []))"
  by (rule stack_run_Ret [of zero cap ops]) simp

text \<open>
  Once a stack shared by goroutines is closed, no goroutine stays parked in \<open>Pop\<close> and
  every further \<open>Pop\<close> returns without waiting.
\<close>

theorem stack_close_releases:
  assumes "stack_reachable zero cap m" and "stk_closed (mon_data m)"
  shows "mon_waiting m = [] \<and> (\<exists>s v. stack_Pop zero (mon_data m) = Ret (Some (s, v)))"
  using stack.closed_releases [OF stack_reachable_reach [OF assms(1)]] assms(2)
  by (simp add: stack.shut_def stack_abs_def)

lemma stack_close_releases_witness:
  "\<exists>m :: (nat stack, nat \<times> bool) monitor. stack_reachable 0 (- 3) m \<and> mon_woken m = [7] \<and>
     mon_waiting m = [] \<and> (\<exists>s v. stack_Pop 0 (mon_data m) = Ret (Some (s, v)))"
proof -
  let ?s = "\<lparr>stk_closed = False, stk_items = [0], stk_len = 0\<rparr> :: nat stack"
  let ?start = "\<lparr>mon_data = ?s, mon_waiting = [], mon_woken = [], mon_returned = []\<rparr>
    :: (nat stack, nat \<times> bool) monitor"
  let ?parked = "?start\<lparr>mon_waiting := mon_waiting ?start @ [7]\<rparr>"
  let ?shut = "notify Broadcast (?parked\<lparr>mon_data := ?s\<lparr>stk_closed := True\<rparr>\<rparr>)"
  have new: "NewStack 0 (- 3) = Ret ?s"
    by code_simp
  have "reach (mon_start ?s) (stack_step 0) ?start"
    by (rule reach_start) (simp add: mon_start_def)
  moreover have "stack_step 0 ?start ?parked"
    unfolding stack_step_def by (rule call_parks) (simp_all add: stack_Pop_def)
  moreover have "stack_step 0 ?parked ?shut"
    unfolding stack_step_def by (rule operate [where x = OpClose]) (simp add: stack_Close_def)
  ultimately have m: "stack_reachable 0 (- 3) ?shut"
    unfolding stack_reachable_def using new by (blast intro: reach_step)
  have "stk_closed (mon_data ?shut)"
    by simp
  from m stack_close_releases [OF m this] show ?thesis
    by (intro exI [of _ ?shut] conjI) simp_all
qed

end
