(* ===== verification/Gx_GoMap.thy ===== *)
theory Gx_GoMap imports Gx_Prelude "HOL-Library.AList" "HOL-Library.Multiset" begin

text \<open>
  Go's built-in map: nil, or an association list without duplicate keys whose order stands
  for the internal order of the table. Reading, deleting and clearing a nil map is
  allowed, assigning to it panics. \<open>range\<close> visits the entries in an order the language
  leaves open: it is an argument, any function that permutes the entries. Keys compare
  with equality (no floating-point NaN keys, no interface keys of uncomparable dynamic
  types). The locale \<open>kv_store\<close> is the contract keyed components rely on.
\<close>

type_synonym ('k, 'v) gomap = "('k \<times> 'v) list option"

definition gm_make :: "('k, 'v) gomap" where
  "gm_make = Some []"

definition gm_entries :: "('k, 'v) gomap \<Rightarrow> ('k \<times> 'v) list" where
  "gm_entries m = (case m of None \<Rightarrow> [] | Some kvs \<Rightarrow> kvs)"

definition gm_get :: "('k, 'v) gomap \<Rightarrow> 'k \<Rightarrow> 'v option" where
  "gm_get m k = map_of (gm_entries m) k"

definition gm_assign :: "'k \<Rightarrow> 'v \<Rightarrow> ('k, 'v) gomap \<Rightarrow> ('k, 'v) gomap go" where
  "gm_assign k v m =
     (case m of None \<Rightarrow> Panic ''assignment to entry in nil map''
      | Some kvs \<Rightarrow> Ret (Some (AList.update k v kvs)))"

definition gm_delete :: "'k \<Rightarrow> ('k, 'v) gomap \<Rightarrow> ('k, 'v) gomap" where
  "gm_delete k m = map_option (AList.delete k) m"

definition gm_clear :: "('k, 'v) gomap \<Rightarrow> ('k, 'v) gomap" where
  "gm_clear m = map_option (\<lambda>_. []) m"

definition gm_len :: "('k, 'v) gomap \<Rightarrow> int" where
  "gm_len m = int (length (gm_entries m))"

text \<open>\<open>maps.Clone\<close>: a copy of the table, nil for nil.\<close>

definition gm_clone :: "('k, 'v) gomap \<Rightarrow> ('k, 'v) gomap" where
  "gm_clone m = map_option (\<lambda>kvs. kvs) m"

definition range_order :: "(('k \<times> 'v) list \<Rightarrow> ('k \<times> 'v) list) \<Rightarrow> bool" where
  "range_order ord \<longleftrightarrow> (\<forall>kvs. mset (ord kvs) = mset kvs)"

definition gm_inv :: "('k, 'v) gomap \<Rightarrow> bool" where
  "gm_inv m \<longleftrightarrow> m \<noteq> None \<and> distinct (map fst (gm_entries m))"

lemmas gm_defs = gm_make_def gm_entries_def gm_get_def gm_assign_def gm_delete_def gm_clear_def
  gm_len_def gm_clone_def gm_inv_def

lemma gm_inv_make [simp]: "gm_inv gm_make"
  by (simp add: gm_defs)

lemma gm_get_make [simp]: "gm_get gm_make k = None"
  by (simp add: gm_defs)

lemma gm_clone_id [simp]: "gm_clone m = m"
  by (simp add: gm_clone_def option.map_ident)

lemma gm_clear_ok [simp]: "gm_inv m \<Longrightarrow> gm_inv (gm_clear m)" "gm_get (gm_clear m) k = None"
  by (auto simp: gm_defs split: option.splits)

lemma gm_delete_ok [simp]:
  "gm_inv m \<Longrightarrow> gm_inv (gm_delete k m)"
  "gm_get (gm_delete k m) = (gm_get m)(k := None)"
  by (cases m; auto simp: gm_defs fun_eq_iff delete_conv' distinct_delete)+

lemma gm_assign_ok:
  assumes "gm_inv m"
  obtains m' where "gm_assign k v m = Ret m'" "gm_inv m'" "gm_get m' = (gm_get m)(k \<mapsto> v)"
proof -
  obtain kvs where m: "m = Some kvs" "distinct (map fst kvs)"
    using assms by (auto simp: gm_defs)
  then show ?thesis
    by (intro that [of "Some (AList.update k v kvs)"])
      (auto simp: gm_defs fun_eq_iff update_conv' distinct_update)
qed

lemma gm_get_eq: "gm_get m = map_of (gm_entries m)"
  by (simp add: gm_get_def fun_eq_iff)

lemma gm_dom: "dom (gm_get m) = set (map fst (gm_entries m))"
  by (simp add: gm_get_eq dom_map_of_conv_image_fst)

lemma gm_len_card: "gm_inv m \<Longrightarrow> gm_len m = int (card (dom (gm_get m)))"
  unfolding gm_dom by (subst distinct_card) (simp_all add: gm_inv_def gm_len_def)

lemma gm_get_iff: "gm_inv m \<Longrightarrow> gm_get m k = Some v \<longleftrightarrow> (k, v) \<in> set (gm_entries m)"
  by (simp add: gm_inv_def gm_get_def)

section \<open>The contract of a keyed store\<close>

locale kv_store =
  fixes lookup :: "'s \<Rightarrow> 'k \<Rightarrow> 'v option"
    and insert :: "'k \<Rightarrow> 'v \<Rightarrow> 's \<Rightarrow> 's go"
    and inv :: "'s \<Rightarrow> bool"
  assumes insert_ok:
    "inv s \<Longrightarrow> \<exists>s'. insert k v s = Ret s' \<and> inv s' \<and> lookup s' = (lookup s)(k \<mapsto> v)"
begin

text \<open>
  Insert-if-absent: what \<open>Set.Add\<close>, \<open>Map.GetOrSet\<close> and the dependency store do. A
  present key is never overwritten, and exactly the first insertion of a key reports
  success.
\<close>

definition put_new :: "'k \<Rightarrow> 'v \<Rightarrow> 's \<Rightarrow> ('s \<times> bool) go" where
  "put_new k v s =
     (if lookup s k \<noteq> None then Ret (s, False)
      else go_bind (insert k v s) (\<lambda>s'. Ret (s', True)))"

lemma put_new_ok:
  assumes "inv s"
  obtains s' where "put_new k v s = Ret (s', lookup s k = None)" "inv s'"
    "lookup s' = (if lookup s k = None then (lookup s)(k \<mapsto> v) else lookup s)"
  using assms insert_ok [OF assms, of k v] by (cases "lookup s k") (auto simp: put_new_def)

lemma put_new_keeps:
  "inv s \<Longrightarrow> put_new k v s = Ret (s', ok) \<Longrightarrow> lookup s j = Some w \<Longrightarrow> lookup s' j = Some w"
  by (rule put_new_ok [where s = s and k = k and v = v]) (auto split: if_splits)

lemma put_new_again:
  assumes "inv s" and "put_new k v s = Ret (s', ok)"
  shows "put_new k w s' = Ret (s', False)"
  by (rule put_new_ok [OF assms(1), where k = k and v = v])
    (use assms(2) in \<open>auto simp: put_new_def split: if_splits\<close>)

end

text \<open>
  A store of lists, to which dispatchers and buses append: a missing key reads as the
  empty list.
\<close>

locale list_store = kv_store lookup insert inv
  for lookup :: "'s \<Rightarrow> 'k \<Rightarrow> 'h list option"
    and insert :: "'k \<Rightarrow> 'h list \<Rightarrow> 's \<Rightarrow> 's go"
    and inv :: "'s \<Rightarrow> bool"
begin

definition listed :: "'s \<Rightarrow> 'k \<Rightarrow> 'h list" where
  "listed s k = (case lookup s k of None \<Rightarrow> [] | Some hs \<Rightarrow> hs)"

lemma append_ok:
  assumes "inv s"
  obtains s' where "insert k (listed s k @ [h]) s = Ret s'" "inv s'"
    "listed s' = (listed s)(k := listed s k @ [h])"
proof -
  obtain s' where "insert k (listed s k @ [h]) s = Ret s'" "inv s'"
    "lookup s' = (lookup s)(k \<mapsto> listed s k @ [h])"
    using insert_ok [OF assms] by blast
  then show ?thesis
    by (intro that [of s']) (auto simp: listed_def fun_eq_iff)
qed

end

text \<open>Indexing a Go map of slices: nil, the empty slice, for a missing key.\<close>

definition gm_slice :: "('k, 'h list) gomap \<Rightarrow> 'k \<Rightarrow> 'h list" where
  "gm_slice m k = (case gm_get m k of None \<Rightarrow> [] | Some hs \<Rightarrow> hs)"

interpretation go_map: kv_store gm_get gm_assign gm_inv
  by unfold_locales (rule gm_assign_ok, auto)

interpretation go_registry: list_store gm_get gm_assign gm_inv
  by unfold_locales

lemma go_registry_listed: "go_registry.listed m k = gm_slice m k"
  by (simp add: go_registry.listed_def gm_slice_def)

lemma gm_append_ok:
  assumes "gm_inv m"
  obtains m' where "gm_assign k (gm_slice m k @ [h]) m = Ret m'" "gm_inv m'"
    "gm_slice m' = (gm_slice m)(k := gm_slice m k @ [h])"
  using go_registry.append_ok [OF assms, of k h] unfolding go_registry_listed [abs_def] by blast

lemma gm_slice_delete [simp]: "gm_inv m \<Longrightarrow> gm_slice (gm_delete k m) = (gm_slice m)(k := [])"
  by (auto simp: gm_slice_def fun_eq_iff)

lemma gm_slice_make [simp]: "gm_slice gm_make = (\<lambda>k. [])"
  by (simp add: gm_slice_def fun_eq_iff)

end
