(* ===== verification/Gx_Map.thy ===== *)
theory Gx_Map imports Gx_GoMap begin

text \<open>
  \<open>map.go\<close>: the concurrency-safe map. Each operation is one critical section of the
  RWMutex. \<open>zero\<close> is the value type's zero value; \<open>ord\<close> is the iteration order of
  \<open>range\<close>. The specification is the partial function from keys to values.
\<close>

section \<open>Operations\<close>

record ('k, 'v) gxmap =
  map_m :: "('k, 'v) gomap"

definition NewMap :: "('k, 'v) gxmap" where
  "NewMap = \<lparr>map_m = gm_make\<rparr>"

definition map_Clear :: "('k, 'v) gxmap \<Rightarrow> ('k, 'v) gxmap" where
  "map_Clear m = m\<lparr>map_m := gm_clear (map_m m)\<rparr>"

definition map_Clone :: "('k, 'v) gxmap \<Rightarrow> ('k, 'v) gxmap" where
  "map_Clone m = \<lparr>map_m = gm_clone (map_m m)\<rparr>"

definition map_Get :: "'v \<Rightarrow> 'k \<Rightarrow> ('k, 'v) gxmap \<Rightarrow> 'v \<times> bool" where
  "map_Get zero key m =
     (case gm_get (map_m m) key of None \<Rightarrow> (zero, False) | Some v \<Rightarrow> (v, True))"

definition map_GetAndRemove :: "'v \<Rightarrow> 'k \<Rightarrow> ('k, 'v) gxmap \<Rightarrow> ('k, 'v) gxmap \<times> 'v \<times> bool" where
  "map_GetAndRemove zero key m =
     (case gm_get (map_m m) key of
        None \<Rightarrow> (m, zero, False)
      | Some v \<Rightarrow> (m\<lparr>map_m := gm_delete key (map_m m)\<rparr>, v, True))"

definition map_GetOrSet :: "'k \<Rightarrow> 'v \<Rightarrow> ('k, 'v) gxmap \<Rightarrow> (('k, 'v) gxmap \<times> 'v \<times> bool) go" where
  "map_GetOrSet key value m =
     (case gm_get (map_m m) key of
        Some v \<Rightarrow> Ret (m, v, True)
      | None \<Rightarrow> go_bind (gm_assign key value (map_m m)) (\<lambda>m'. Ret (m\<lparr>map_m := m'\<rparr>, value, False)))"

definition map_Has :: "'k \<Rightarrow> ('k, 'v) gxmap \<Rightarrow> bool" where
  "map_Has key m = (gm_get (map_m m) key \<noteq> None)"

definition map_Keys :: "(('k \<times> 'v) list \<Rightarrow> ('k \<times> 'v) list) \<Rightarrow> ('k, 'v) gxmap \<Rightarrow> 'k list" where
  "map_Keys ord m = foldl (\<lambda>keys (k, v). keys @ [k]) [] (ord (gm_entries (map_m m)))"

definition map_Len :: "('k, 'v) gxmap \<Rightarrow> int" where
  "map_Len m = gm_len (map_m m)"

definition map_Remove :: "'k \<Rightarrow> ('k, 'v) gxmap \<Rightarrow> ('k, 'v) gxmap \<times> bool" where
  "map_Remove key m =
     (if gm_get (map_m m) key = None then (m, False)
      else (m\<lparr>map_m := gm_delete key (map_m m)\<rparr>, True))"

definition map_Set :: "'k \<Rightarrow> 'v \<Rightarrow> ('k, 'v) gxmap \<Rightarrow> (('k, 'v) gxmap \<times> bool) go" where
  "map_Set key value m =
     (let ok = (gm_get (map_m m) key \<noteq> None)
      in go_bind (gm_assign key value (map_m m)) (\<lambda>m'. Ret (m\<lparr>map_m := m'\<rparr>, \<not> ok)))"

definition map_Values :: "(('k \<times> 'v) list \<Rightarrow> ('k \<times> 'v) list) \<Rightarrow> ('k, 'v) gxmap \<Rightarrow> 'v list" where
  "map_Values ord m = foldl (\<lambda>values (k, v). values @ [v]) [] (ord (gm_entries (map_m m)))"

section \<open>Runs of operations and the specification\<close>

datatype ('k, 'v) map_op = MClear | MClone | MGet 'k | MGetAndRemove 'k | MGetOrSet 'k 'v | MHas 'k
  | MLen | MRemove 'k | MSet 'k 'v

datatype 'v map_resp = MUnit | MBool bool | MInt int | MValue 'v bool

text \<open>\<open>MClone\<close> continues with the clone, so a run checks that it answers like the original.\<close>

fun map_exec :: "'v \<Rightarrow> ('k, 'v) map_op \<Rightarrow> ('k, 'v) gxmap \<Rightarrow> (('k, 'v) gxmap \<times> 'v map_resp) go" where
  "map_exec zero MClear m = Ret (map_Clear m, MUnit)"
| "map_exec zero MClone m = Ret (map_Clone m, MUnit)"
| "map_exec zero (MGet k) m = (let (v, ok) = map_Get zero k m in Ret (m, MValue v ok))"
| "map_exec zero (MGetAndRemove k) m =
     (let (m', v, ok) = map_GetAndRemove zero k m in Ret (m', MValue v ok))"
| "map_exec zero (MGetOrSet k v) m =
     go_bind (map_GetOrSet k v m) (\<lambda>(m', v', ok). Ret (m', MValue v' ok))"
| "map_exec zero (MHas k) m = Ret (m, MBool (map_Has k m))"
| "map_exec zero MLen m = Ret (m, MInt (map_Len m))"
| "map_exec zero (MRemove k) m = (let (m', ok) = map_Remove k m in Ret (m', MBool ok))"
| "map_exec zero (MSet k v) m = go_bind (map_Set k v m) (\<lambda>(m', ok). Ret (m', MBool ok))"

fun map_spec :: "'v \<Rightarrow> ('k, 'v) map_op \<Rightarrow> ('k \<rightharpoonup> 'v) \<Rightarrow> ('k \<rightharpoonup> 'v) \<times> 'v map_resp" where
  "map_spec zero MClear f = (Map.empty, MUnit)"
| "map_spec zero MClone f = (f, MUnit)"
| "map_spec zero (MGet k) f =
     (f, case f k of None \<Rightarrow> MValue zero False | Some v \<Rightarrow> MValue v True)"
| "map_spec zero (MGetAndRemove k) f =
     (f(k := None), case f k of None \<Rightarrow> MValue zero False | Some v \<Rightarrow> MValue v True)"
| "map_spec zero (MGetOrSet k w) f =
     (case f k of None \<Rightarrow> (f(k \<mapsto> w), MValue w False) | Some v \<Rightarrow> (f, MValue v True))"
| "map_spec zero (MHas k) f = (f, MBool (k \<in> dom f))"
| "map_spec zero MLen f = (f, MInt (int (card (dom f))))"
| "map_spec zero (MRemove k) f = (f(k := None), MBool (k \<in> dom f))"
| "map_spec zero (MSet k v) f = (f(k \<mapsto> v), MBool (k \<notin> dom f))"

definition map_abs :: "('k, 'v) gxmap \<Rightarrow> ('k \<rightharpoonup> 'v)" where
  "map_abs m = gm_get (map_m m)"

definition map_inv :: "('k, 'v) gxmap \<Rightarrow> bool" where
  "map_inv m \<longleftrightarrow> gm_inv (map_m m)"

lemma map_GetOrSet_ok:
  assumes "map_inv m"
  shows "\<exists>m'. map_GetOrSet k v m = Ret (m', (case map_abs m k of None \<Rightarrow> v | Some w \<Rightarrow> w), map_abs m k \<noteq> None) \<and>
    map_inv m' \<and> map_abs m' = (if map_abs m k = None then (map_abs m)(k \<mapsto> v) else map_abs m)"
  using assms go_map.insert_ok [of "map_m m" k v]
  by (cases "gm_get (map_m m) k") (auto simp: map_GetOrSet_def map_inv_def map_abs_def)

lemma map_Set_ok:
  assumes "map_inv m"
  shows "\<exists>m'. map_Set k v m = Ret (m', map_abs m k = None) \<and> map_inv m' \<and>
    map_abs m' = (map_abs m)(k \<mapsto> v)"
  using assms go_map.insert_ok [of "map_m m" k v]
  by (auto simp: map_Set_def map_inv_def map_abs_def)

lemma map_step_refines:
  assumes "map_inv m"
  shows "\<exists>m' r. map_exec zero x m = Ret (m', r) \<and> map_inv m' \<and>
    map_spec zero x (map_abs m) = (map_abs m', r)"
proof (cases x)
  case (MGetOrSet k v)
  with map_GetOrSet_ok [OF assms, of k v] show ?thesis
    by (cases "map_abs m k") auto
next
  case (MSet k v)
  with map_Set_ok [OF assms, of k v] show ?thesis
    by (auto simp: dom_def)
next
  case (MGet k)
  with assms show ?thesis
    by (simp add: map_Get_def map_abs_def split: option.split)
next
  case (MGetAndRemove k)
  with assms show ?thesis
    by (cases "gm_get (map_m m) k")
      (auto simp: map_GetAndRemove_def map_inv_def map_abs_def)
next
  case (MRemove k)
  with assms show ?thesis
    by (cases "gm_get (map_m m) k") (auto simp: map_Remove_def map_inv_def map_abs_def)
next
  case MClear
  with assms show ?thesis
    by (simp add: map_Clear_def map_inv_def map_abs_def fun_eq_iff)
qed (use assms in \<open>simp_all add: map_Clone_def map_Has_def map_Len_def gm_len_card map_inv_def
      map_abs_def domIff\<close>)

interpretation gxmap: refinement "map_exec zero" "map_spec zero" map_abs map_inv
  for zero :: 'v
  by unfold_locales (rule map_step_refines)

lemma foldl_keys: "foldl (\<lambda>keys (k, v). keys @ [k]) acc kvs = acc @ map fst kvs"
  by (induction kvs arbitrary: acc) auto

lemma foldl_values: "foldl (\<lambda>values (k, v). values @ [v]) acc kvs = acc @ map snd kvs"
  by (induction kvs arbitrary: acc) auto

lemma map_Keys_eq: "map_Keys ord m = map fst (ord (gm_entries (map_m m)))"
  by (simp add: map_Keys_def foldl_keys)

lemma map_Values_eq: "map_Values ord m = map snd (ord (gm_entries (map_m m)))"
  by (simp add: map_Values_def foldl_values)

lemma NewMap_fresh: "map_inv NewMap" "map_abs NewMap = Map.empty"
  by (simp_all add: NewMap_def map_inv_def map_abs_def fun_eq_iff)

section \<open>Properties\<close>

text \<open>
  C37: On every sequence of operations a map made with \<open>NewMap\<close> answers like the partial
  function it stands for, and never panics.
\<close>

theorem map_refines_partial_function:
  "go_bind (run_ops (map_exec zero) ops NewMap) (\<lambda>(m, rs). Ret (map_abs m, rs)) =
     Ret (run_spec (map_spec zero) ops Map.empty)"
  using gxmap.run_refines [OF NewMap_fresh(1), of zero ops]
  by (auto simp: prod_eq_iff NewMap_fresh(2))

text \<open>
  Whatever order \<open>range\<close> picks, after any sequence of operations \<open>Keys\<close> lists
  exactly the present keys, each once, and \<open>Values\<close> the values in the matching order.
\<close>

theorem map_keys_values:
  assumes "range_order ord" and "run_ops (map_exec zero) ops NewMap = Ret (m, rs)"
  shows "distinct (map_Keys ord m) \<and> set (map_Keys ord m) = dom (map_abs m) \<and>
    map Some (map_Values ord m) = map (map_abs m) (map_Keys ord m)"
proof -
  from gxmap.run_keeps_inv [OF NewMap_fresh(1) assms(2)] have inv: "gm_inv (map_m m)"
    by (simp add: map_inv_def)
  have perm: "mset (ord (gm_entries (map_m m))) = mset (gm_entries (map_m m))"
    using assms(1) by (simp add: range_order_def)
  then have "mset (map_Keys ord m) = mset (map fst (gm_entries (map_m m)))"
    by (simp add: map_Keys_eq)
  from mset_eq_imp_distinct_iff [OF this] mset_eq_setD [OF this]
  have "distinct (map_Keys ord m)" "set (map_Keys ord m) = dom (map_abs m)"
    using inv by (simp_all add: gm_inv_def map_abs_def gm_dom)
  moreover have "map_abs m (fst e) = Some (snd e)" if "e \<in> set (ord (gm_entries (map_m m)))" for e
    using that inv mset_eq_setD [OF perm] by (simp add: map_abs_def gm_get_iff)
  ultimately show ?thesis
    by (simp add: map_Keys_eq map_Values_eq)
qed

lemma map_keys_values_witness:
  "range_order (rev :: (nat \<times> string) list \<Rightarrow> (nat \<times> string) list) \<and>
     map_Keys rev \<lparr>map_m = Some [(1 :: nat, ''a''), (2, ''b'')]\<rparr> = [2, 1] \<and>
     map_Values rev \<lparr>map_m = Some [(1 :: nat, ''a''), (2, ''b'')]\<rparr> = [''b'', ''a''] \<and>
     distinct (map_Keys rev \<lparr>map_m = Some [(1 :: nat, ''a''), (2, ''b'')]\<rparr>)"
proof -
  have r: "range_order (rev :: (nat \<times> string) list \<Rightarrow> _)"
    by (simp add: range_order_def)
  have run: "run_ops (map_exec []) [MSet 1 ''a'', MSet 2 ''b''] NewMap =
      Ret (\<lparr>map_m = Some [(1 :: nat, ''a''), (2, ''b'')]\<rparr>, [MBool True, MBool True])"
    by code_simp
  show ?thesis
    using map_keys_values [OF r run] r by (simp add: map_Keys_eq map_Values_eq gm_entries_def)
qed

end
