(* ===== verification/Gx_Set.thy ===== *)
theory Gx_Set imports Gx_GoMap begin

text \<open>
  \<open>set.go\<close>: the concurrency-safe set, a Go map with empty-struct values. The
  specification is a mathematical set.
\<close>

section \<open>Operations\<close>

record 't gxset =
  set_m :: "('t, unit) gomap"

fun add_all :: "'t list \<Rightarrow> ('t, unit) gomap \<Rightarrow> ('t, unit) gomap go" where
  "add_all [] m = Ret m"
| "add_all (v # vs) m = go_bind (gm_assign v () m) (add_all vs)"

definition NewSet :: "'t list \<Rightarrow> 't gxset go" where
  "NewSet values = go_bind (add_all values gm_make) (\<lambda>m. Ret \<lparr>set_m = m\<rparr>)"

definition set_Add :: "'t \<Rightarrow> 't gxset \<Rightarrow> ('t gxset \<times> bool) go" where
  "set_Add v s =
     (if gm_get (set_m s) v \<noteq> None then Ret (s, False)
      else go_bind (gm_assign v () (set_m s)) (\<lambda>m. Ret (s\<lparr>set_m := m\<rparr>, True)))"

definition set_Clear :: "'t gxset \<Rightarrow> 't gxset" where
  "set_Clear s = s\<lparr>set_m := gm_clear (set_m s)\<rparr>"

definition set_Clone :: "'t gxset \<Rightarrow> 't gxset" where
  "set_Clone s = \<lparr>set_m = gm_clone (set_m s)\<rparr>"

definition set_Has :: "'t \<Rightarrow> 't gxset \<Rightarrow> bool" where
  "set_Has v s = (gm_get (set_m s) v \<noteq> None)"

definition set_Len :: "'t gxset \<Rightarrow> int" where
  "set_Len s = gm_len (set_m s)"

definition set_Remove :: "'t \<Rightarrow> 't gxset \<Rightarrow> 't gxset \<times> bool" where
  "set_Remove v s =
     (if gm_get (set_m s) v = None then (s, False)
      else (s\<lparr>set_m := gm_delete v (set_m s)\<rparr>, True))"

definition set_Values :: "(('t \<times> unit) list \<Rightarrow> ('t \<times> unit) list) \<Rightarrow> 't gxset \<Rightarrow> 't list" where
  "set_Values ord s = foldl (\<lambda>values (v, u). values @ [v]) [] (ord (gm_entries (set_m s)))"

section \<open>Runs of operations and the specification\<close>

datatype 't set_op = SAdd 't | SClear | SClone | SHas 't | SLen | SRemove 't

datatype set_resp = SUnit | SBool bool | SInt int

fun set_exec :: "'t set_op \<Rightarrow> 't gxset \<Rightarrow> ('t gxset \<times> set_resp) go" where
  "set_exec (SAdd v) s = go_bind (set_Add v s) (\<lambda>(s', ok). Ret (s', SBool ok))"
| "set_exec SClear s = Ret (set_Clear s, SUnit)"
| "set_exec SClone s = Ret (set_Clone s, SUnit)"
| "set_exec (SHas v) s = Ret (s, SBool (set_Has v s))"
| "set_exec SLen s = Ret (s, SInt (set_Len s))"
| "set_exec (SRemove v) s = (let (s', ok) = set_Remove v s in Ret (s', SBool ok))"

fun set_spec :: "'t set_op \<Rightarrow> 't set \<Rightarrow> 't set \<times> set_resp" where
  "set_spec (SAdd v) A = (insert v A, SBool (v \<notin> A))"
| "set_spec SClear A = ({}, SUnit)"
| "set_spec SClone A = (A, SUnit)"
| "set_spec (SHas v) A = (A, SBool (v \<in> A))"
| "set_spec SLen A = (A, SInt (int (card A)))"
| "set_spec (SRemove v) A = (A - {v}, SBool (v \<in> A))"

definition set_abs :: "'t gxset \<Rightarrow> 't set" where
  "set_abs s = dom (gm_get (set_m s))"

definition set_inv :: "'t gxset \<Rightarrow> bool" where
  "set_inv s \<longleftrightarrow> gm_inv (set_m s)"

text \<open>\<open>Add\<close> is insert-if-absent of the keyed store.\<close>

lemma set_Add_put_new:
  "set_Add v s = go_bind (go_map.put_new v () (set_m s)) (\<lambda>(m, ok). Ret (s\<lparr>set_m := m\<rparr>, ok))"
  by (simp add: set_Add_def go_map.put_new_def) (simp add: go_bind_def split: go.split)

lemma set_Add_ok:
  assumes "set_inv s"
  shows "\<exists>s'. set_Add v s = Ret (s', v \<notin> set_abs s) \<and> set_inv s' \<and> set_abs s' = insert v (set_abs s)"
proof -
  have "gm_inv (set_m s)"
    using assms by (simp add: set_inv_def)
  then obtain m where "go_map.put_new v () (set_m s) = Ret (m, gm_get (set_m s) v = None)"
    "gm_inv m" "gm_get m = (if gm_get (set_m s) v = None then (gm_get (set_m s))(v \<mapsto> ())
                           else gm_get (set_m s))"
    by (rule go_map.put_new_ok)
  then show ?thesis
    by (auto simp: set_Add_put_new set_inv_def set_abs_def)
qed

lemma set_step_refines:
  assumes "set_inv s"
  shows "\<exists>s' r. set_exec x s = Ret (s', r) \<and> set_inv s' \<and> set_spec x (set_abs s) = (set_abs s', r)"
proof (cases x)
  case (SAdd v)
  with set_Add_ok [OF assms, of v] show ?thesis
    by auto
next
  case (SRemove v)
  with assms show ?thesis
    by (auto simp: set_Remove_def set_inv_def set_abs_def)
next
  case SClear
  with assms show ?thesis
    by (auto simp: set_Clear_def set_inv_def set_abs_def)
qed (use assms in \<open>auto simp: set_Clone_def set_Has_def set_Len_def gm_len_card set_inv_def
      set_abs_def\<close>)

interpretation gxset: refinement set_exec set_spec set_abs set_inv
  by unfold_locales (rule set_step_refines)

lemma add_all_ok:
  "gm_inv m \<Longrightarrow>
     \<exists>m'. add_all vs m = Ret m' \<and> gm_inv m' \<and> dom (gm_get m') = set vs \<union> dom (gm_get m)"
proof (induction vs arbitrary: m)
  case (Cons v vs)
  obtain m1 where "gm_assign v () m = Ret m1" "gm_inv m1" "gm_get m1 = (gm_get m)(v \<mapsto> ())"
    using gm_assign_ok [OF Cons.prems] .
  with Cons.IH [of m1] show ?case
    by auto
qed simp

lemma NewSet_ok: "\<exists>s. NewSet vs = Ret s \<and> set_inv s \<and> set_abs s = set vs"
  using add_all_ok [OF gm_inv_make, of vs] by (auto simp: NewSet_def set_inv_def set_abs_def)

lemma set_Values_eq: "set_Values ord s = map fst (ord (gm_entries (set_m s)))"
proof -
  have "foldl (\<lambda>values (v, u). values @ [v]) acc kvs = acc @ map fst kvs"
    for acc :: "'a list" and kvs :: "('a \<times> unit) list"
    by (induction kvs arbitrary: acc) auto
  then show ?thesis
    by (simp add: set_Values_def)
qed

section \<open>Properties\<close>

text \<open>
  C38: A set made from any initial values answers every sequence of operations like the
  mathematical set of those values, and its final \<open>Values\<close> lists the members once each in
  whatever order \<open>range\<close> visits them.
\<close>

theorem set_refines_set:
  assumes "range_order ord"
  shows "\<exists>s. go_bind (NewSet vs) (run_ops set_exec ops) =
      Ret (s, snd (run_spec set_spec ops (set vs))) \<and>
    set_abs s = fst (run_spec set_spec ops (set vs)) \<and>
    set (set_Values ord s) = set_abs s \<and> distinct (set_Values ord s)"
proof -
  obtain s0 where s0: "NewSet vs = Ret s0" "set_inv s0" "set_abs s0 = set vs"
    using NewSet_ok [of vs] by blast
  from gxset.run_refines [OF s0(2), of ops] obtain s where
    s: "run_ops set_exec ops s0 = Ret (s, snd (run_spec set_spec ops (set vs)))" "set_inv s"
      "set_abs s = fst (run_spec set_spec ops (set vs))"
    unfolding s0(3) by blast
  have "mset (set_Values ord s) = mset (map fst (gm_entries (set_m s)))"
    using assms by (simp add: set_Values_eq range_order_def)
  from mset_eq_imp_distinct_iff [OF this] mset_eq_setD [OF this]
  have "set (set_Values ord s) = set_abs s" "distinct (set_Values ord s)"
    using s(2) by (simp_all add: set_inv_def gm_inv_def set_abs_def gm_dom)
  with s0(1) s show ?thesis
    by auto
qed

lemma set_refines_set_witness:
  "\<exists>s. go_bind (NewSet [1 :: nat, 2, 1]) (run_ops set_exec [SAdd 3, SRemove 2, SAdd 1]) =
      Ret (s, [SBool True, SBool True, SBool False]) \<and> set (set_Values rev s) = {1, 3}"
proof -
  have "range_order (rev :: (nat \<times> unit) list \<Rightarrow> _)"
    by (simp add: range_order_def)
  from set_refines_set [OF this, of "[1, 2, 1]" "[SAdd 3, SRemove 2, SAdd 1]"] show ?thesis
    by auto
qed

end
