(* ===== verification/Gx_Chan.thy ===== *)
theory Gx_Chan imports Gx_Prelude begin

text \<open>
  Go's buffered channels: capacity, buffered values in order, and the closed flag. A
  communication that cannot proceed is \<open>None\<close> (the goroutine blocks, or a \<open>select\<close>
  skips the case); sending on or closing a closed channel panics; receiving from a closed
  channel drains it and then yields \<open>ok = false\<close>.
\<close>

record 'a chan =
  ch_cap :: nat
  ch_buf :: "'a list"
  ch_closed :: bool

definition chan_make :: "nat \<Rightarrow> 'a chan" where
  "chan_make n = \<lparr>ch_cap = n, ch_buf = [], ch_closed = False\<rparr>"

definition chan_send :: "'a \<Rightarrow> 'a chan \<Rightarrow> 'a chan option go" where
  "chan_send v c =
     (if ch_closed c then Panic ''send on closed channel''
      else if length (ch_buf c) < ch_cap c then Ret (Some (c\<lparr>ch_buf := ch_buf c @ [v]\<rparr>))
      else Ret None)"

definition chan_recv :: "'a chan \<Rightarrow> ('a option \<times> 'a chan) option" where
  "chan_recv c =
     (case ch_buf c of
        v # vs \<Rightarrow> Some (Some v, c\<lparr>ch_buf := vs\<rparr>)
      | [] \<Rightarrow> if ch_closed c then Some (None, c) else None)"

definition chan_close :: "'a chan \<Rightarrow> 'a chan go" where
  "chan_close c =
     (if ch_closed c then Panic ''close of closed channel'' else Ret (c\<lparr>ch_closed := True\<rparr>))"

definition chan_wf :: "'a chan \<Rightarrow> bool" where
  "chan_wf c \<longleftrightarrow> length (ch_buf c) \<le> ch_cap c"

lemma chan_send_cases:
  "chan_send v c = Ret (Some c') \<longleftrightarrow>
     \<not> ch_closed c \<and> length (ch_buf c) < ch_cap c \<and> c' = c\<lparr>ch_buf := ch_buf c @ [v]\<rparr>"
  "chan_send v c = Ret None \<longleftrightarrow> \<not> ch_closed c \<and> ch_cap c \<le> length (ch_buf c)"
  by (auto simp: chan_send_def)

lemma chan_recv_cases:
  "chan_recv c = Some (Some v, c') \<longleftrightarrow> (\<exists>vs. ch_buf c = v # vs \<and> c' = c\<lparr>ch_buf := vs\<rparr>)"
  "chan_recv c = Some (None, c') \<longleftrightarrow> ch_buf c = [] \<and> ch_closed c \<and> c' = c"
  "chan_recv c = None \<longleftrightarrow> ch_buf c = [] \<and> \<not> ch_closed c"
  by (auto simp: chan_recv_def split: list.splits)

lemma chan_wf_make [simp]: "chan_wf (chan_make n)"
  by (simp add: chan_wf_def chan_make_def)

lemma chan_wf_send: "chan_wf c \<Longrightarrow> chan_send v c = Ret (Some c') \<Longrightarrow> chan_wf c'"
  by (auto simp: chan_wf_def chan_send_cases)

lemma chan_wf_recv: "chan_wf c \<Longrightarrow> chan_recv c = Some (r, c') \<Longrightarrow> chan_wf c'"
  by (auto simp: chan_wf_def chan_recv_def split: list.splits if_splits)

end
