(* ===== verification/Gx_Context.thy ===== *)
theory Gx_Context imports Gx_Prelude begin

text \<open>
  Errors and contexts. An error is one of the sentinels the package and \<open>context\<close> export,
  a value of \<open>errors.New\<close> (its identity and text), or a \<open>fmt.Errorf\<close> with \<open>%w\<close>
  (prefix and wrapped error). A context is what its users observe: \<open>Err\<close> and
  \<open>Cause\<close>, both set by the first cancellation and never changed afterwards.
\<close>

section \<open>Errors\<close>

datatype error =
    Canceled
  | DeadlineExceeded
  | ErrQueueAlreadyRunning
  | ErrQueueClosed
  | ErrQueueFull
  | ErrQueueWorkerRequired
  | NewError nat string
  | Wrap string error

fun errors_Is :: "error \<Rightarrow> error \<Rightarrow> bool" where
  "errors_Is (Wrap s e) target = (Wrap s e = target \<or> errors_Is e target)"
| "errors_Is e target = (e = target)"

text \<open>\<open>errors.Is\<close> on a possibly nil error.\<close>

definition is_error :: "error option \<Rightarrow> error \<Rightarrow> bool" where
  "is_error e target = (case e of None \<Rightarrow> False | Some x \<Rightarrow> errors_Is x target)"

lemma errors_Is_refl [simp]: "errors_Is e e"
  by (cases e) simp_all

lemma is_error_simps [simp]:
  "\<not> is_error None target" "is_error (Some e) target = errors_Is e target"
  by (simp_all add: is_error_def)

section \<open>Contexts\<close>

record ctx =
  ctx_err :: "error option"
  ctx_cause :: "error option"

definition live_ctx :: ctx where
  "live_ctx = \<lparr>ctx_err = None, ctx_cause = None\<rparr>"

text \<open>\<open>CancelCauseFunc\<close>: the first call wins; a nil cause means \<open>context.Canceled\<close>.\<close>

definition cancel_cause :: "error option \<Rightarrow> ctx \<Rightarrow> ctx" where
  "cancel_cause e c =
     (if ctx_err c \<noteq> None then c
      else \<lparr>ctx_err = Some Canceled,
            ctx_cause = Some (case e of None \<Rightarrow> Canceled | Some x \<Rightarrow> x)\<rparr>)"

text \<open>A parent that ends takes a live child with it.\<close>

definition inherit :: "ctx \<Rightarrow> ctx \<Rightarrow> ctx" where
  "inherit parent c = (if ctx_err c \<noteq> None \<or> ctx_err parent = None then c else parent)"

definition ctx_wf :: "ctx \<Rightarrow> bool" where
  "ctx_wf c \<longleftrightarrow> (ctx_err c = None \<longleftrightarrow> ctx_cause c = None) \<and>
     ctx_err c \<in> {None, Some Canceled, Some DeadlineExceeded}"

lemma ctx_wf_live [simp]: "ctx_wf live_ctx"
  by (simp add: ctx_wf_def live_ctx_def)

lemma ctx_wf_cancel [simp]: "ctx_wf c \<Longrightarrow> ctx_wf (cancel_cause e c)"
  by (auto simp: ctx_wf_def cancel_cause_def)

lemma ctx_wf_inherit [simp]: "ctx_wf p \<Longrightarrow> ctx_wf c \<Longrightarrow> ctx_wf (inherit p c)"
  by (simp add: inherit_def)

lemma cancel_cause_done [simp]: "ctx_err (cancel_cause e c) \<noteq> None"
  by (simp add: cancel_cause_def)

lemma cancel_cause_first:
  "ctx_err c \<noteq> None \<Longrightarrow> cancel_cause e c = c"
  "ctx_err c = None \<Longrightarrow> ctx_cause (cancel_cause (Some x) c) = Some x"
  by (simp_all add: cancel_cause_def)

lemma inherit_done: "ctx_err c \<noteq> None \<Longrightarrow> inherit p c = c"
  by (simp add: inherit_def)

end
