(* ===== verification/Gx_Semaphore.thy ===== *)
theory Gx_Semaphore imports Gx_Chan Gx_Context begin

text \<open>
  \<open>semaphore.go\<close>: a channel of empty structs whose buffered elements are the slots in
  use. \<open>Acquire\<close> is a \<open>select\<close> with two cases; when both are ready the runtime picks
  either, so the operation is the list of its possible outcomes, empty when it blocks.
\<close>

section \<open>Operations\<close>

record semaphore =
  sem_ch :: "unit chan"

definition NewSemaphore :: "int \<Rightarrow> semaphore" where
  "NewSemaphore n = \<lparr>sem_ch = chan_make (nat (if n \<le> 0 then 1 else n))\<rparr>"

definition sem_Acquire :: "ctx \<Rightarrow> semaphore \<Rightarrow> (semaphore \<times> error option) list" where
  "sem_Acquire c s =
     (case chan_send () (sem_ch s) of Ret (Some ch) \<Rightarrow> [(s\<lparr>sem_ch := ch\<rparr>, None)] | _ \<Rightarrow> []) @
     (if ctx_err c \<noteq> None then [(s, ctx_err c)] else [])"

definition sem_Release :: "semaphore \<Rightarrow> semaphore option" where
  "sem_Release s = map_option (\<lambda>(v, ch). s\<lparr>sem_ch := ch\<rparr>) (chan_recv (sem_ch s))"

definition sem_TryAcquire :: "semaphore \<Rightarrow> (semaphore \<times> bool) go" where
  "sem_TryAcquire s =
     go_bind (chan_send () (sem_ch s)) (\<lambda>r.
       case r of Some ch \<Rightarrow> Ret (s\<lparr>sem_ch := ch\<rparr>, True) | None \<Rightarrow> Ret (s, False))"

section \<open>Goroutines sharing a semaphore\<close>

text \<open>
  \<open>ss_holders\<close> are the goroutines between a successful acquire and their release, the
  newest first. Every goroutine releases only what it holds; an \<open>Acquire\<close> may be called
  with a context in any state.
\<close>

record sem_sys =
  ss_sem :: semaphore
  ss_holders :: "nat list"

inductive sem_step :: "sem_sys \<Rightarrow> sem_sys \<Rightarrow> bool" where
  acquired:
    "(s', None) \<in> set (sem_Acquire c (ss_sem y)) \<Longrightarrow>
     sem_step y (y\<lparr>ss_sem := s', ss_holders := g # ss_holders y\<rparr>)"
| acquire_failed:
    "(s', Some e) \<in> set (sem_Acquire c (ss_sem y)) \<Longrightarrow> sem_step y (y\<lparr>ss_sem := s'\<rparr>)"
| tried:
    "sem_TryAcquire (ss_sem y) = Ret (s', ok) \<Longrightarrow>
     sem_step y (y\<lparr>ss_sem := s', ss_holders := (if ok then [g] else []) @ ss_holders y\<rparr>)"
| released:
    "g \<in> set (ss_holders y) \<Longrightarrow> sem_Release (ss_sem y) = Some s' \<Longrightarrow>
     sem_step y (y\<lparr>ss_sem := s', ss_holders := remove1 g (ss_holders y)\<rparr>)"

inductive_cases sem_stepE: "sem_step y z"

definition sem_start :: "int \<Rightarrow> sem_sys \<Rightarrow> bool" where
  "sem_start n y \<longleftrightarrow> y = \<lparr>ss_sem = NewSemaphore n, ss_holders = []\<rparr>"

definition sem_size :: "int \<Rightarrow> nat" where
  "sem_size n = nat (max 1 n)"

definition sem_inv :: "int \<Rightarrow> sem_sys \<Rightarrow> bool" where
  "sem_inv n y \<longleftrightarrow>
     (let ch = sem_ch (ss_sem y)
      in ch_cap ch = sem_size n \<and> \<not> ch_closed ch \<and> chan_wf ch \<and>
         length (ch_buf ch) = length (ss_holders y))"

lemma sem_step_inv: "sem_inv n y \<Longrightarrow> sem_step y z \<Longrightarrow> sem_inv n z"
proof (elim sem_stepE)
qed (auto simp: sem_inv_def sem_Acquire_def sem_TryAcquire_def sem_Release_def chan_send_def
    chan_recv_def chan_wf_def length_remove1 Let_def Suc_le_eq
    split: go.splits option.splits if_splits list.splits)

interpretation semaphore: inductive_invariant "sem_start n" sem_step "sem_inv n" for n
proof
  show "sem_inv n y" if "sem_start n y" for y
    using that
    by (auto simp: sem_start_def sem_inv_def NewSemaphore_def sem_size_def chan_make_def
        chan_wf_def max_def)
qed (rule sem_step_inv)

section \<open>Properties\<close>

text \<open>
  However goroutines acquire, try, fail and release, at most \<open>size\<close> of them (one for a
  non-positive size) hold the semaphore at once; an \<open>Acquire\<close> with a live context blocks
  exactly when that many hold it, \<open>TryAcquire\<close> succeeds exactly when a slot is free, a
  failed \<open>Acquire\<close> changes nothing, and a holder's \<open>Release\<close> never blocks.
\<close>

theorem semaphore_limits:
  assumes "reach (sem_start n) sem_step y"
  shows "length (ss_holders y) \<le> sem_size n \<and>
    (\<forall>c. ctx_err c = None \<longrightarrow>
       (sem_Acquire c (ss_sem y) = [] \<longleftrightarrow> length (ss_holders y) = sem_size n)) \<and>
    (\<exists>s'. sem_TryAcquire (ss_sem y) = Ret (s', length (ss_holders y) < sem_size n)) \<and>
    (\<forall>c s' e. (s', Some e) \<in> set (sem_Acquire c (ss_sem y)) \<longrightarrow>
       s' = ss_sem y \<and> ctx_err c = Some e) \<and>
    (ss_holders y \<noteq> [] \<longrightarrow> sem_Release (ss_sem y) \<noteq> None)"
proof -
  have "sem_inv n y"
    using semaphore.reach_inv [OF assms] .
  then have ch: "ch_cap (sem_ch (ss_sem y)) = sem_size n" "\<not> ch_closed (sem_ch (ss_sem y))"
    "length (ss_holders y) \<le> sem_size n"
    "length (ch_buf (sem_ch (ss_sem y))) = length (ss_holders y)"
    by (auto simp: sem_inv_def chan_wf_def Let_def)
  then have "sem_Release (ss_sem y) \<noteq> None" if "ss_holders y \<noteq> []"
    using that by (auto simp: sem_Release_def chan_recv_def split: list.splits)
  moreover have "\<exists>s'. sem_TryAcquire (ss_sem y) = Ret (s', length (ss_holders y) < sem_size n)"
    using ch by (simp add: sem_TryAcquire_def chan_send_def)
  moreover have "sem_Acquire c (ss_sem y) = [] \<longleftrightarrow> length (ss_holders y) = sem_size n"
    if "ctx_err c = None" for c
    using that ch by (auto simp: sem_Acquire_def chan_send_def)
  ultimately show ?thesis
    using ch(3) by (auto simp: sem_Acquire_def split: go.splits option.splits if_splits)
qed

lemma semaphore_limits_witness:
  "\<exists>y. reach (sem_start 0) sem_step y \<and> ss_holders y = [4] \<and> length (ss_holders y) \<le> sem_size 0 \<and>
     sem_Acquire live_ctx (ss_sem y) = []"
proof -
  let ?start = "\<lparr>ss_sem = NewSemaphore 0, ss_holders = []\<rparr>"
  let ?held = "?start\<lparr>ss_sem := \<lparr>sem_ch = \<lparr>ch_cap = 1, ch_buf = [()], ch_closed = False\<rparr>\<rparr>,
    ss_holders := 4 # ss_holders ?start\<rparr>"
  have "reach (sem_start 0) sem_step ?start"
    by (rule reach_start) (simp add: sem_start_def)
  moreover have "sem_step ?start ?held"
    by (rule acquired [where c = live_ctx])
      (simp add: sem_Acquire_def NewSemaphore_def chan_make_def chan_send_def)
  ultimately have held: "reach (sem_start 0) sem_step ?held"
    by (rule reach_step)
  have "ctx_err live_ctx = None" "length (ss_holders ?held) = sem_size 0"
    by (simp_all add: live_ctx_def sem_size_def)
  with held semaphore_limits [OF held] show ?thesis
    by (intro exI [of _ ?held] conjI) (blast | simp)+
qed

end
