(* ===== verification/Gx_Runner.thy ===== *)
theory Gx_Runner imports Gx_Context begin

text \<open>
  \<open>runner.go\<close>: a group of goroutines with a shared first error and a context that ends
  with it. \<open>rn_once\<close> is the \<open>sync.Once\<close> that guards the first error, \<open>rn_wg\<close> the
  goroutines the wait group counts, \<open>rn_ctx\<close> the derived context; \<open>rn_cancel\<close> is
  false for a zero \<open>Runner\<close>, whose cancel function is nil.
\<close>

section \<open>Operations\<close>

record runner =
  rn_cancel :: bool
  rn_ctx :: ctx
  rn_err :: "error option"
  rn_once :: bool
  rn_wg :: "nat list"

definition NewRunner :: "ctx \<Rightarrow> runner" where
  "NewRunner parent =
     \<lparr>rn_cancel = True, rn_ctx = inherit parent live_ctx, rn_err = None, rn_once = False, rn_wg = []\<rparr>"

definition runner_Cancel :: "error option \<Rightarrow> runner \<Rightarrow> runner go" where
  "runner_Cancel err r =
     (if err = None then Panic ''gx: Runner.Cancel requires a non-nil error''
      else if rn_once r then Ret r
      else if \<not> rn_cancel r then Panic ''invalid memory address or nil pointer dereference''
      else Ret (r\<lparr>rn_once := True, rn_err := err, rn_ctx := cancel_cause err (rn_ctx r)\<rparr>))"

text \<open>\<open>Run\<close> starts the goroutine; \<open>runner_finish\<close> is its end, with what \<open>fn\<close> returned.\<close>

definition runner_Run :: "nat \<Rightarrow> runner \<Rightarrow> runner" where
  "runner_Run g r = r\<lparr>rn_wg := g # rn_wg r\<rparr>"

definition runner_finish :: "nat \<Rightarrow> error option \<Rightarrow> runner \<Rightarrow> runner" where
  "runner_finish g err r =
     (let r' = (if err \<noteq> None \<and> \<not> rn_once r
                then r\<lparr>rn_once := True, rn_err := err,
                       rn_ctx := (if rn_cancel r then cancel_cause err (rn_ctx r) else rn_ctx r)\<rparr>
                else r)
      in r'\<lparr>rn_wg := remove1 g (rn_wg r')\<rparr>)"

text \<open>\<open>Wait\<close> blocks (\<open>None\<close>) while the wait group counts a goroutine.\<close>

definition runner_Wait :: "runner \<Rightarrow> (runner \<times> error option) option" where
  "runner_Wait r =
     (if rn_wg r \<noteq> [] then None
      else Some (if rn_cancel r then r\<lparr>rn_ctx := cancel_cause (rn_err r) (rn_ctx r)\<rparr> else r,
                 rn_err r))"

section \<open>A runner in use\<close>

text \<open>
  \<open>rs_reported\<close> logs the non-nil errors handed to the runner, by \<open>Cancel\<close> or by a
  goroutine, in the order they reach the once; \<open>rs_found\<close> is the context as the first of
  them found it.
\<close>

record runner_sys =
  rs_runner :: runner
  rs_reported :: "error list"
  rs_found :: "ctx option"

definition report :: "error option \<Rightarrow> runner_sys \<Rightarrow> runner_sys" where
  "report err y =
     (case err of None \<Rightarrow> y
      | Some e \<Rightarrow> y\<lparr>rs_reported := rs_reported y @ [e],
          rs_found := (if rs_reported y = [] then Some (rn_ctx (rs_runner y)) else rs_found y)\<rparr>)"

inductive runner_step :: "runner_sys \<Rightarrow> runner_sys \<Rightarrow> bool" where
  runs: "runner_step y (y\<lparr>rs_runner := runner_Run g (rs_runner y)\<rparr>)"
| finishes:
    "g \<in> set (rn_wg (rs_runner y)) \<Longrightarrow>
     runner_step y ((report err y)\<lparr>rs_runner := runner_finish g err (rs_runner y)\<rparr>)"
| cancels:
    "runner_Cancel err (rs_runner y) = Ret r \<Longrightarrow> runner_step y ((report err y)\<lparr>rs_runner := r\<rparr>)"
| parent_ends:
    "runner_step y
       (y\<lparr>rs_runner := (rs_runner y)\<lparr>rn_ctx := inherit parent (rn_ctx (rs_runner y))\<rparr>\<rparr>)"
| waits:
    "runner_Wait (rs_runner y) = Some (r, err) \<Longrightarrow> runner_step y (y\<lparr>rs_runner := r\<rparr>)"

inductive_cases runner_stepE: "runner_step y z"

definition runner_start :: "runner_sys \<Rightarrow> bool" where
  "runner_start y \<longleftrightarrow>
     (\<exists>parent. y = \<lparr>rs_runner = NewRunner parent, rs_reported = [], rs_found = None\<rparr>)"

definition first_error :: "error list \<Rightarrow> error option" where
  "first_error es = (case es of [] \<Rightarrow> None | e # _ \<Rightarrow> Some e)"

lemma first_error_Nil [simp]: "first_error [] = None"
  by (simp add: first_error_def)

lemma first_error_snoc: "first_error (es @ [e]) = (if es = [] then Some e else first_error es)"
  by (cases es) (simp_all add: first_error_def)

lemma first_error_None [simp]: "first_error es = None \<longleftrightarrow> es = []"
  by (simp add: first_error_def split: list.split)

text \<open>
  The context is what the first error found, ended by it: \<open>cancel_cause\<close> leaves a context
  alone that had ended before.
\<close>

definition runner_inv :: "runner_sys \<Rightarrow> bool" where
  "runner_inv y \<longleftrightarrow>
     (let r = rs_runner y
      in rn_cancel r \<and> rn_err r = first_error (rs_reported y) \<and>
         (rn_once r \<longleftrightarrow> rs_reported y \<noteq> []) \<and>
         (rs_reported y \<noteq> [] \<longrightarrow>
            (\<exists>c. rs_found y = Some c \<and> rn_ctx r = cancel_cause (rn_err r) c)))"

lemma inherit_keeps [simp]: "ctx_err c = Some e \<Longrightarrow> inherit p c = c"
  by (simp add: inherit_def)

lemma cancel_keeps [simp]: "ctx_err c = Some e \<Longrightarrow> cancel_cause x c = c"
  by (simp add: cancel_cause_def)

lemma cancelled_keeps [simp]:
  "inherit p (cancel_cause x c) = cancel_cause x c"
  "cancel_cause z (cancel_cause x c) = cancel_cause x c"
  by (simp_all add: inherit_done cancel_cause_first)

lemma runner_finish_inv:
  "runner_inv y \<Longrightarrow> runner_inv ((report err y)\<lparr>rs_runner := runner_finish g err (rs_runner y)\<rparr>)"
  by (cases err) (auto simp: runner_inv_def Let_def report_def runner_finish_def
      first_error_snoc cancel_cause_def)

lemma runner_Cancel_inv:
  "runner_inv y \<Longrightarrow> runner_Cancel err (rs_runner y) = Ret r \<Longrightarrow>
     runner_inv ((report err y)\<lparr>rs_runner := r\<rparr>)"
  by (cases err) (auto simp: runner_inv_def Let_def report_def runner_Cancel_def
      first_error_snoc cancel_cause_def split: if_splits)

lemma runner_step_inv: "runner_inv y \<Longrightarrow> runner_step y z \<Longrightarrow> runner_inv z"
  by (elim runner_stepE)
    (auto simp: runner_finish_inv runner_Cancel_inv,
     auto simp: runner_inv_def Let_def runner_Run_def runner_Wait_def split: if_splits)

interpretation runner: inductive_invariant runner_start runner_step runner_inv
proof
  show "runner_inv y" if "runner_start y" for y
    using that by (auto simp: runner_start_def runner_inv_def NewRunner_def first_error_def)
qed (rule runner_step_inv)

section \<open>Properties\<close>



end
