(* ===== verification/Gx_Queue.thy ===== *)
theory Gx_Queue imports Gx_Chan Gx_Context "HOL-Library.Multiset" begin

text \<open>
  \<open>queue.go\<close>: the worker queue, as goroutines interleaving on one \<open>Queue\<close>. A step is
  one critical section or one communication. \<open>q.mu\<close> is held across steps only by the
  readers in \<open>Push\<close> (\<open>qs_mu\<close>), \<open>q.pushWaitMu\<close> only by the readers in \<open>PushWait\<close>
  (\<open>qs_pwmu\<close>); a write-locked section is one step that needs the reader list empty.
  Contexts of callers end at any time. One relation per method; \<open>queue_step\<close> is their
  union. The logs of accepted, taken and handled items and of returns are history only.
\<close>

section \<open>State\<close>

datatype once = OnceFresh | OnceSignal nat | OnceSeal nat | OnceDone

record 'a queue =
  q_cancel :: "nat option"
  q_closeOnce :: once
  q_closed :: bool
  q_done :: "nat option"
  q_failOnFull :: bool
  q_failure :: "error option"
  q_pushWaitDone :: bool
  q_queue :: "'a chan"
  q_running :: bool
  q_worker :: bool
  q_workers :: nat

text \<open>
  \<open>NewQueue\<close>; whether a worker function is given is \<open>worker\<close>. The close-once starts
  fresh; its two running phases name the goroutine that executes it.
\<close>

definition NewQueue :: "bool \<Rightarrow> int \<Rightarrow> bool \<Rightarrow> int \<Rightarrow> 'a queue" where
  "NewQueue failOnFull sz worker workers =
     (let workers' = (if workers \<le> 0 then 1 else workers);
          sz' = (if sz \<le> 0 then workers' * 4 else sz)
      in \<lparr>q_cancel = None, q_closeOnce = OnceFresh, q_closed = False, q_done = None,
          q_failOnFull = failOnFull, q_failure = None, q_pushWaitDone = False, q_queue = chan_make (nat sz'),
          q_running = False, q_worker = worker, q_workers = nat workers'\<rparr>)"

datatype 'a qpc =
    Idle
  | PushLocked 'a
  | PushFull 'a
  | FailCancel 'a nat error
  | PWLocked 'a
  | PWSelect 'a
  | Closing bool
  | DrainRead
  | DrainWait "nat option" "nat option"

datatype 'a qworker = WSelect | WBusy 'a | WExit

text \<open>
  After the workers: the check of the parent, the result, then the deferred cleanup.
\<close>

datatype run_phase = RunWorking | RunChecked | RunResult "error option"

record 'a qrun =
  run_no :: nat
  run_untilClosed :: bool
  run_parent :: ctx
  run_ctx :: ctx
  run_workers :: "'a qworker list"
  run_phase :: run_phase

datatype 'a qevent =
    PushRet 'a bool
  | PushWaitRet 'a "error option"
  | CloseRet
  | DrainRet "error option"
  | RunRet "error option"

text \<open>
  \<open>q.done\<close> is a reference: the channel of that number, which \<open>run\<close> makes; \<open>qs_dones\<close> are
  the ones that have been closed. Nothing in the state says that only one run is active:
  \<open>qs_run\<close> is the active run that moves and \<open>qs_others\<close> are the other active ones, to which
  a step can turn. That there never are others is a consequence of \<open>q.running\<close>.
\<close>

record 'a queue_sys =
  qs_q :: "'a queue"
  qs_pc :: "nat \<Rightarrow> 'a qpc"
  qs_mu :: "nat list"
  qs_pwmu :: "nat list"
  qs_run :: "'a qrun option"
  qs_others :: "'a qrun list"
  qs_runs :: nat
  qs_dones :: "nat set"
  qs_panicked :: bool
  qs_accepted :: "'a list"
  qs_taken :: "'a list"
  qs_handled :: "'a list"
  qs_log :: "'a qevent list"

definition queue_start :: "'a queue \<Rightarrow> 'a queue_sys" where
  "queue_start q =
     \<lparr>qs_q = q, qs_pc = (\<lambda>_. Idle), qs_mu = [], qs_pwmu = [], qs_run = None, qs_others = [],
      qs_runs = 0, qs_dones = {}, qs_panicked = False, qs_accepted = [], qs_taken = [], qs_handled = [], qs_log = []\<rparr>"

definition goto :: "nat \<Rightarrow> 'a qpc \<Rightarrow> 'a queue_sys \<Rightarrow> 'a queue_sys" where
  "goto g p y = y\<lparr>qs_pc := (qs_pc y)(g := p)\<rparr>"

text \<open>A goroutine returns from its call.\<close>

definition returns :: "nat \<Rightarrow> 'a qevent \<Rightarrow> 'a queue_sys \<Rightarrow> 'a queue_sys" where
  "returns g e y = (goto g Idle y)\<lparr>qs_log := qs_log y @ [e]\<rparr>"

definition accept_item :: "'a \<Rightarrow> 'a chan \<Rightarrow> 'a queue_sys \<Rightarrow> 'a queue_sys" where
  "accept_item v ch y =
     y\<lparr>qs_q := (qs_q y)\<lparr>q_queue := ch\<rparr>, qs_accepted := qs_accepted y @ [v]\<rparr>"

text \<open>Calling the cancel function of run \<open>n\<close>: without effect unless that run is active.\<close>

definition cancelled :: "nat \<Rightarrow> error option \<Rightarrow> 'a qrun \<Rightarrow> 'a qrun" where
  "cancelled n e r =
     (if run_no r = n then r\<lparr>run_ctx := cancel_cause e (run_ctx r)\<rparr> else r)"

definition cancel_run :: "nat \<Rightarrow> error option \<Rightarrow> 'a queue_sys \<Rightarrow> 'a queue_sys" where
  "cancel_run n e y =
     y\<lparr>qs_run := map_option (cancelled n e) (qs_run y),
       qs_others := map (cancelled n e) (qs_others y)\<rparr>"

lemma cancelled_sel [simp]:
  "run_no (cancelled n e r) = run_no r" "run_untilClosed (cancelled n e r) = run_untilClosed r"
  "run_parent (cancelled n e r) = run_parent r" "run_workers (cancelled n e r) = run_workers r"
  "run_phase (cancelled n e r) = run_phase r"
  by (simp_all add: cancelled_def)

section \<open>Push and fail\<close>

definition queue_Closed :: "'a queue \<Rightarrow> bool" where
  "queue_Closed q = q_closed q"

definition queue_fail :: "error \<Rightarrow> 'a queue \<Rightarrow> 'a queue \<times> nat option" where
  "queue_fail e q =
     (if q_failure q \<noteq> None then (q, None) else (q\<lparr>q_failure := Some e\<rparr>, q_cancel q))"

inductive push_step :: "'a queue_sys \<Rightarrow> 'a queue_sys \<Rightarrow> bool" where
  push_closed:
    "qs_pc y g = Idle \<Longrightarrow> q_closed (qs_q y) \<Longrightarrow> push_step y (returns g (PushRet v False) y)"
| push_rlock:
    "qs_pc y g = Idle \<Longrightarrow> \<not> q_closed (qs_q y) \<Longrightarrow>
     push_step y (goto g (PushLocked v) (y\<lparr>qs_mu := g # qs_mu y\<rparr>))"
| push_sent:
    "qs_pc y g = PushLocked v \<Longrightarrow> chan_send v (q_queue (qs_q y)) = Ret (Some ch) \<Longrightarrow>
     push_step y (returns g (PushRet v True) (accept_item v ch (y\<lparr>qs_mu := remove1 g (qs_mu y)\<rparr>)))"
| push_full:
    "qs_pc y g = PushLocked v \<Longrightarrow> chan_send v (q_queue (qs_q y)) = Ret None \<Longrightarrow>
     push_step y
       (let y' = y\<lparr>qs_mu := remove1 g (qs_mu y)\<rparr>
        in if q_failOnFull (qs_q y) then goto g (PushFull v) y'
           else returns g (PushRet v False) y')"
| push_panics:
    "qs_pc y g = PushLocked v \<Longrightarrow> chan_send v (q_queue (qs_q y)) = Panic s \<Longrightarrow>
     push_step y (y\<lparr>qs_panicked := True\<rparr>)"
| push_fails:
    "qs_pc y g = PushFull v \<Longrightarrow> qs_mu y = [] \<Longrightarrow> queue_fail ErrQueueFull (qs_q y) = (q, c) \<Longrightarrow>
     push_step y
       (let y' = y\<lparr>qs_q := q\<rparr>
        in case c of None \<Rightarrow> returns g (PushRet v False) y'
           | Some n \<Rightarrow> goto g (FailCancel v n ErrQueueFull) y')"
| push_cancels:
    "qs_pc y g = FailCancel v n e \<Longrightarrow>
     push_step y (returns g (PushRet v False) (cancel_run n (Some e) y))"

section \<open>PushWait\<close>

text \<open>\<open>e\<close> is the error of the caller's context, which may have ended at any time.\<close>

inductive pushwait_step :: "'a queue_sys \<Rightarrow> 'a queue_sys \<Rightarrow> bool" where
  pw_ctx_first:
    "qs_pc y g = Idle \<Longrightarrow> pushwait_step y (returns g (PushWaitRet v (Some e)) y)"
| pw_rlock:
    "qs_pc y g = Idle \<Longrightarrow>
     pushwait_step y (goto g (PWLocked v) (y\<lparr>qs_pwmu := g # qs_pwmu y\<rparr>))"
| pw_closed:
    "qs_pc y g = PWLocked v \<Longrightarrow> q_closed (qs_q y) \<Longrightarrow>
     pushwait_step y
       (returns g (PushWaitRet v (Some ErrQueueClosed)) (y\<lparr>qs_pwmu := remove1 g (qs_pwmu y)\<rparr>))"
| pw_open:
    "qs_pc y g = PWLocked v \<Longrightarrow> \<not> q_closed (qs_q y) \<Longrightarrow> pushwait_step y (goto g (PWSelect v) y)"
| pw_sent:
    "qs_pc y g = PWSelect v \<Longrightarrow> chan_send v (q_queue (qs_q y)) = Ret (Some ch) \<Longrightarrow>
     pushwait_step y
       (returns g (PushWaitRet v None)
          (accept_item v ch (y\<lparr>qs_pwmu := remove1 g (qs_pwmu y)\<rparr>)))"
| pw_panics:
    "qs_pc y g = PWSelect v \<Longrightarrow> chan_send v (q_queue (qs_q y)) = Panic s \<Longrightarrow>
     pushwait_step y (y\<lparr>qs_panicked := True\<rparr>)"
| pw_ctx:
    "qs_pc y g = PWSelect v \<Longrightarrow>
     pushwait_step y
       (returns g (PushWaitRet v (Some e)) (y\<lparr>qs_pwmu := remove1 g (qs_pwmu y)\<rparr>))"
| pw_done:
    "qs_pc y g = PWSelect v \<Longrightarrow> q_pushWaitDone (qs_q y) \<Longrightarrow>
     pushwait_step y
       (returns g (PushWaitRet v (Some ErrQueueClosed)) (y\<lparr>qs_pwmu := remove1 g (qs_pwmu y)\<rparr>))"

section \<open>Close\<close>

text \<open>
  The flag says whether the caller is \<open>Drain\<close>, which goes on afterwards. A caller that
  finds the once running waits for it.
\<close>

definition close_next :: "nat \<Rightarrow> bool \<Rightarrow> 'a queue_sys \<Rightarrow> 'a queue_sys" where
  "close_next g drain y = (if drain then goto g DrainRead y else returns g CloseRet y)"

inductive close_step :: "'a queue_sys \<Rightarrow> 'a queue_sys \<Rightarrow> bool" where
  close_flag:
    "qs_pc y g = Idle \<Longrightarrow> q_closeOnce (qs_q y) = OnceFresh \<Longrightarrow> qs_mu y = [] \<Longrightarrow>
     close_step y
       (goto g (Closing drain)
          (y\<lparr>qs_q := (qs_q y)\<lparr>q_closeOnce := OnceSignal g, q_closed := True\<rparr>\<rparr>))"
| close_signal:
    "qs_pc y g = Closing drain \<Longrightarrow> q_closeOnce (qs_q y) = OnceSignal g \<Longrightarrow>
     close_step y
       (if q_pushWaitDone (qs_q y) then y\<lparr>qs_panicked := True\<rparr>
        else y\<lparr>qs_q := (qs_q y)\<lparr>q_closeOnce := OnceSeal g, q_pushWaitDone := True\<rparr>\<rparr>)"
| close_seal:
    "qs_pc y g = Closing drain \<Longrightarrow> q_closeOnce (qs_q y) = OnceSeal g \<Longrightarrow> qs_pwmu y = [] \<Longrightarrow>
     close_step y
       (case chan_close (q_queue (qs_q y)) of
          Panic s \<Rightarrow> y\<lparr>qs_panicked := True\<rparr>
        | Ret ch \<Rightarrow> close_next g drain
            (y\<lparr>qs_q := (qs_q y)\<lparr>q_closeOnce := OnceDone, q_queue := ch\<rparr>\<rparr>))"
| close_again:
    "qs_pc y g = Idle \<Longrightarrow> q_closeOnce (qs_q y) = OnceDone \<Longrightarrow> close_step y (close_next g drain y)"

section \<open>Drain\<close>

text \<open>
  \<open>Drain\<close> keeps the done channel and the cancel function it has read. A receive from a nil
  channel never proceeds; a call of a nil function panics.
\<close>

inductive drain_step :: "'a queue_sys \<Rightarrow> 'a queue_sys \<Rightarrow> bool" where
  drain_idle:
    "qs_pc y g = DrainRead \<Longrightarrow> qs_mu y = [] \<Longrightarrow> \<not> q_running (qs_q y) \<Longrightarrow>
     drain_step y (returns g (DrainRet None) y)"
| drain_waits:
    "qs_pc y g = DrainRead \<Longrightarrow> qs_mu y = [] \<Longrightarrow> q_running (qs_q y) \<Longrightarrow>
     drain_step y (goto g (DrainWait (q_done (qs_q y)) (q_cancel (qs_q y))) y)"
| drain_done:
    "qs_pc y g = DrainWait (Some d) c \<Longrightarrow> d \<in> qs_dones y \<Longrightarrow>
     drain_step y (returns g (DrainRet None) y)"
| drain_ctx:
    "qs_pc y g = DrainWait d c \<Longrightarrow>
     drain_step y
       (case c of
          None \<Rightarrow> y\<lparr>qs_panicked := True\<rparr>
        | Some n \<Rightarrow> returns g (DrainRet (Some e)) (cancel_run n (Some Canceled) y))"

section \<open>Run\<close>

text \<open>
  \<open>run\<close> under the mutex: refused while running, refused with the recorded failure, else
  the cancel function and a new done channel are stored, both with the number of this run.
\<close>

definition queue_run_begin :: "nat \<Rightarrow> 'a queue \<Rightarrow> error + 'a queue" where
  "queue_run_begin n q =
     (if \<not> q_worker q then Inl ErrQueueWorkerRequired
      else if q_running q then Inl ErrQueueAlreadyRunning
      else case q_failure q of
             Some e \<Rightarrow> Inl e
           | None \<Rightarrow> Inr (q\<lparr>q_running := True, q_cancel := Some n, q_done := Some n\<rparr>))"

text \<open>What \<open>run\<close> returns once the workers are done and the parent is not canceled.\<close>

definition queue_run_result :: "ctx \<Rightarrow> error option" where
  "queue_run_result c =
     (if ctx_cause c \<noteq> None \<and> \<not> is_error (ctx_cause c) Canceled then ctx_cause c else None)"

text \<open>
  The deferred cleanup, under the mutex. It closes the channel that \<open>q.done\<close> refers to by
  then, which panics when there is none or when it is closed already.
\<close>

definition queue_run_end :: "nat set \<Rightarrow> 'a queue \<Rightarrow> ('a queue \<times> nat set) go" where
  "queue_run_end closed q =
     (case q_done q of
        None \<Rightarrow> Panic ''close of nil channel''
      | Some d \<Rightarrow>
          if d \<in> closed then Panic ''close of closed channel''
          else Ret (q\<lparr>q_cancel := None, q_running := False\<rparr>, insert d closed))"

definition run_finish :: "error option \<Rightarrow> 'a queue_sys \<Rightarrow> 'a queue_sys" where
  "run_finish res y =
     (case queue_run_end (qs_dones y) (qs_q y) of
        Panic s \<Rightarrow> y\<lparr>qs_panicked := True\<rparr>
      | Ret (q, dones) \<Rightarrow>
          y\<lparr>qs_q := q, qs_dones := dones, qs_run := None, qs_log := qs_log y @ [RunRet res]\<rparr>)"

text \<open>\<open>RunUntilClosed\<close> hides the end of the caller's context from the run.\<close>

definition run_parent_ctx :: "bool \<Rightarrow> ctx \<Rightarrow> ctx" where
  "run_parent_ctx untilClosed c = (if untilClosed then live_ctx else c)"

definition set_worker :: "nat \<Rightarrow> 'a qworker \<Rightarrow> 'a qrun \<Rightarrow> 'a qrun" where
  "set_worker i w r = r\<lparr>run_workers := (run_workers r)[i := w]\<rparr>"

definition worker_is :: "'a qrun \<Rightarrow> nat \<Rightarrow> 'a qworker \<Rightarrow> bool" where
  "worker_is r i w \<longleftrightarrow> i < length (run_workers r) \<and> run_workers r ! i = w"

text \<open>All active runs. A run that begins leaves the others active.\<close>

definition active_runs :: "'a queue_sys \<Rightarrow> 'a qrun list" where
  "active_runs y = (case qs_run y of None \<Rightarrow> [] | Some r \<Rightarrow> [r]) @ qs_others y"

inductive run_step :: "'a queue_sys \<Rightarrow> 'a queue_sys \<Rightarrow> bool" where
  run_refused:
    "qs_mu y = [] \<or> \<not> q_worker (qs_q y) \<Longrightarrow> queue_run_begin (qs_runs y) (qs_q y) = Inl e \<Longrightarrow>
     run_step y (y\<lparr>qs_log := qs_log y @ [RunRet (Some e)]\<rparr>)"
| run_begins:
    "qs_mu y = [] \<Longrightarrow> queue_run_begin (qs_runs y) (qs_q y) = Inr q \<Longrightarrow>
     ctx_wf c \<Longrightarrow> parent = run_parent_ctx untilClosed c \<Longrightarrow>
     run_step y
       (y\<lparr>qs_q := q, qs_runs := Suc (qs_runs y), qs_others := active_runs y,
          qs_run := Some \<lparr>run_no = qs_runs y, run_untilClosed = untilClosed, run_parent = parent,
                          run_ctx = inherit parent live_ctx,
                          run_workers = replicate (q_workers q) WSelect, run_phase = RunWorking\<rparr>\<rparr>)"
| run_turns:
    "r \<in> set (qs_others y) \<Longrightarrow>
     run_step y (y\<lparr>qs_run := Some r, qs_others := remove1 r (active_runs y)\<rparr>)"
| parent_ends:
    "qs_run y = Some r \<Longrightarrow> ctx_err (run_parent r) = None \<Longrightarrow> ctx_wf c \<Longrightarrow>
     parent = run_parent_ctx (run_untilClosed r) c \<Longrightarrow>
     run_step y
       (y\<lparr>qs_run := Some (r\<lparr>run_parent := parent, run_ctx := inherit parent (run_ctx r)\<rparr>)\<rparr>)"
| worker_ctx_done:
    "qs_run y = Some r \<Longrightarrow> worker_is r i WSelect \<Longrightarrow> ctx_err (run_ctx r) \<noteq> None \<Longrightarrow>
     run_step y (y\<lparr>qs_run := Some (set_worker i WExit r)\<rparr>)"
| worker_takes:
    "qs_run y = Some r \<Longrightarrow> worker_is r i WSelect \<Longrightarrow>
     chan_recv (q_queue (qs_q y)) = Some (Some v, ch) \<Longrightarrow>
     run_step y
       (y\<lparr>qs_q := (qs_q y)\<lparr>q_queue := ch\<rparr>, qs_taken := qs_taken y @ [v],
          qs_run := Some (set_worker i (WBusy v) r)\<rparr>)"
| worker_drained:
    "qs_run y = Some r \<Longrightarrow> worker_is r i WSelect \<Longrightarrow>
     chan_recv (q_queue (qs_q y)) = Some (None, ch) \<Longrightarrow>
     run_step y (y\<lparr>qs_run := Some (set_worker i WExit r)\<rparr>)"
| worker_handles:
    "qs_run y = Some r \<Longrightarrow> worker_is r i (WBusy v) \<Longrightarrow>
     run_step y
       (y\<lparr>qs_handled := qs_handled y @ [v], qs_run := Some (set_worker i WSelect r)\<rparr>)"
| worker_fails:
    "qs_run y = Some r \<Longrightarrow> worker_is r i (WBusy v) \<Longrightarrow>
     run_step y
       (y\<lparr>qs_handled := qs_handled y @ [v],
          qs_run := Some (set_worker i WExit (r\<lparr>run_ctx := cancel_cause (Some e) (run_ctx r)\<rparr>))\<rparr>)"
| run_checks:
    "qs_run y = Some r \<Longrightarrow> set (run_workers r) \<subseteq> {WExit} \<Longrightarrow> run_phase r = RunWorking \<Longrightarrow>
     \<not> is_error (ctx_err (run_parent r)) Canceled \<Longrightarrow>
     run_step y (y\<lparr>qs_run := Some (r\<lparr>run_phase := RunChecked\<rparr>)\<rparr>)"
| run_computes:
    "qs_run y = Some r \<Longrightarrow> run_phase r = RunChecked \<Longrightarrow>
     run_step y (y\<lparr>qs_run := Some (r\<lparr>run_phase := RunResult (queue_run_result (run_ctx r))\<rparr>)\<rparr>)"
| run_ends_canceled:
    "qs_run y = Some r \<Longrightarrow> set (run_workers r) \<subseteq> {WExit} \<Longrightarrow> run_phase r = RunWorking \<Longrightarrow>
     is_error (ctx_err (run_parent r)) Canceled \<Longrightarrow> qs_mu y = [] \<Longrightarrow>
     run_step y (run_finish None y)"
| run_ends:
    "qs_run y = Some r \<Longrightarrow> run_phase r = RunResult res \<Longrightarrow> qs_mu y = [] \<Longrightarrow>
     run_step y (run_finish res y)"

inductive queue_step :: "'a queue_sys \<Rightarrow> 'a queue_sys \<Rightarrow> bool" where
  step_push: "push_step y z \<Longrightarrow> queue_step y z"
| step_pushwait: "pushwait_step y z \<Longrightarrow> queue_step y z"
| step_close: "close_step y z \<Longrightarrow> queue_step y z"
| step_drain: "drain_step y z \<Longrightarrow> queue_step y z"
| step_run: "run_step y z \<Longrightarrow> queue_step y z"

lemmas queue_sys_defs = goto_def returns_def accept_item_def cancel_run_def close_next_def

section \<open>Locks and the close-once\<close>

fun holds_mu :: "'a qpc \<Rightarrow> bool" where
  "holds_mu (PushLocked v) = True"
| "holds_mu p = False"

fun holds_pwmu :: "'a qpc \<Rightarrow> bool" where
  "holds_pwmu (PWLocked v) = True"
| "holds_pwmu (PWSelect v) = True"
| "holds_pwmu p = False"

fun is_closing :: "'a qpc \<Rightarrow> bool" where
  "is_closing (Closing drain) = True"
| "is_closing p = False"

fun in_select :: "'a qpc \<Rightarrow> bool" where
  "in_select (PWSelect v) = True"
| "in_select p = False"

fun once_inv :: "once \<Rightarrow> 'a queue_sys \<Rightarrow> bool" where
  "once_inv OnceFresh y \<longleftrightarrow>
     \<not> q_closed (qs_q y) \<and> \<not> q_pushWaitDone (qs_q y) \<and> \<not> ch_closed (q_queue (qs_q y)) \<and>
     (\<forall>h. \<not> is_closing (qs_pc y h))"
| "once_inv (OnceSignal g) y \<longleftrightarrow>
     q_closed (qs_q y) \<and> \<not> q_pushWaitDone (qs_q y) \<and> \<not> ch_closed (q_queue (qs_q y)) \<and>
     (\<forall>h. is_closing (qs_pc y h) \<longleftrightarrow> h = g)"
| "once_inv (OnceSeal g) y \<longleftrightarrow>
     q_closed (qs_q y) \<and> q_pushWaitDone (qs_q y) \<and> \<not> ch_closed (q_queue (qs_q y)) \<and>
     (\<forall>h. is_closing (qs_pc y h) \<longleftrightarrow> h = g)"
| "once_inv OnceDone y \<longleftrightarrow>
     q_closed (qs_q y) \<and> q_pushWaitDone (qs_q y) \<and> ch_closed (q_queue (qs_q y)) \<and>
     (\<forall>h. \<not> is_closing (qs_pc y h))"

lemma in_select_holds: "in_select p \<Longrightarrow> holds_pwmu p"
  by (cases p) simp_all

text \<open>
  The reader lists are exactly the goroutines inside; a reader of \<open>q.mu\<close> has seen an open
  queue and it still is; whoever selects a send still has an open channel.
\<close>

definition lock_inv :: "'a queue_sys \<Rightarrow> bool" where
  "lock_inv y \<longleftrightarrow>
     distinct (qs_mu y) \<and> (\<forall>g. g \<in> set (qs_mu y) \<longleftrightarrow> holds_mu (qs_pc y g)) \<and>
     distinct (qs_pwmu y) \<and> (\<forall>g. g \<in> set (qs_pwmu y) \<longleftrightarrow> holds_pwmu (qs_pc y g)) \<and>
     once_inv (q_closeOnce (qs_q y)) y \<and>
     (\<forall>g. holds_mu (qs_pc y g) \<longrightarrow> \<not> q_closed (qs_q y)) \<and>
     (\<forall>g. in_select (qs_pc y g) \<longrightarrow> \<not> ch_closed (q_queue (qs_q y))) \<and>
     \<not> qs_panicked y"

lemma once_inv_closed: "once_inv w y \<Longrightarrow> \<not> q_closed (qs_q y) \<Longrightarrow> \<not> ch_closed (q_queue (qs_q y))"
  by (cases w) auto

text \<open>Nobody who can reach a send can find the channel closed.\<close>

lemma lock_inv_send:
  assumes "lock_inv y" and "holds_mu (qs_pc y g) \<or> in_select (qs_pc y g)"
  shows "\<not> ch_closed (q_queue (qs_q y))"
  using assms once_inv_closed by (auto simp: lock_inv_def)

lemma lock_inv_start: "lock_inv (queue_start (NewQueue fof sz w n))"
  by (simp add: lock_inv_def queue_start_def NewQueue_def chan_make_def Let_def)

text \<open>
  Most steps leave the once and the flags alone. Either no goroutine moves, or one moves
  between program points outside \<open>Close\<close> and the reader lists follow it.
\<close>

definition same_flags :: "'a queue_sys \<Rightarrow> 'a queue_sys \<Rightarrow> bool" where
  "same_flags y z \<longleftrightarrow>
     q_closeOnce (qs_q z) = q_closeOnce (qs_q y) \<and> q_closed (qs_q z) = q_closed (qs_q y) \<and>
     q_pushWaitDone (qs_q z) = q_pushWaitDone (qs_q y) \<and>
     ch_closed (q_queue (qs_q z)) = ch_closed (q_queue (qs_q y)) \<and>
     qs_panicked z = qs_panicked y"

definition follow :: "nat \<Rightarrow> bool \<Rightarrow> nat list \<Rightarrow> nat list" where
  "follow g held gs = (if held then (if g \<in> set gs then gs else g # gs) else remove1 g gs)"

lemma distinct_follow [simp]: "distinct gs \<Longrightarrow> distinct (follow g held gs)"
  by (simp add: follow_def)

lemma set_follow: "distinct gs \<Longrightarrow> h \<in> set (follow g held gs) \<longleftrightarrow> (if h = g then held else h \<in> set gs)"
  by (simp add: follow_def)

lemma once_inv_cong:
  "same_flags y z \<Longrightarrow> (\<And>h. is_closing (qs_pc z h) = is_closing (qs_pc y h)) \<Longrightarrow>
     once_inv w z = once_inv w y"
  by (cases w) (auto simp: same_flags_def)

lemma lock_inv_move:
  assumes "lock_inv y" and "same_flags y z" and "qs_pc z = (qs_pc y)(g := p)"
    and "\<not> is_closing p" and "\<not> is_closing (qs_pc y g)"
    and "qs_mu z = follow g (holds_mu p) (qs_mu y)"
    and "qs_pwmu z = follow g (holds_pwmu p) (qs_pwmu y)"
    and "holds_mu p \<Longrightarrow> \<not> q_closed (qs_q y)"
    and "in_select p \<Longrightarrow> \<not> ch_closed (q_queue (qs_q y))"
  shows "lock_inv z"
proof -
  have "once_inv (q_closeOnce (qs_q y)) z = once_inv (q_closeOnce (qs_q y)) y"
    using assms(2-5) by (intro once_inv_cong) auto
  then show ?thesis
    using assms by (auto simp: lock_inv_def same_flags_def set_follow)
qed

lemma lock_inv_frame:
  assumes "lock_inv y" and "same_flags y z" and "qs_pc z = qs_pc y"
    and "qs_mu z = qs_mu y" and "qs_pwmu z = qs_pwmu y"
  shows "lock_inv z"
proof -
  have "once_inv (q_closeOnce (qs_q y)) z = once_inv (q_closeOnce (qs_q y)) y"
    using assms(2,3) by (intro once_inv_cong) auto
  then show ?thesis
    using assms by (auto simp: lock_inv_def same_flags_def)
qed

lemma lock_inv_lists:
  assumes "lock_inv y"
  shows "g \<in> set (qs_mu y) \<longleftrightarrow> holds_mu (qs_pc y g)" "g \<in> set (qs_pwmu y) \<longleftrightarrow> holds_pwmu (qs_pc y g)"
  using assms by (auto simp: lock_inv_def)

lemmas move_simps = queue_sys_defs same_flags_def follow_def chan_send_cases queue_fail_def Let_def

lemma push_step_lock:
  assumes "push_step y z" and inv: "lock_inv y"
  shows "lock_inv z"
  using assms(1)
proof cases
  case (push_panics g v s)
  then show ?thesis
    using lock_inv_send [OF inv, of g] by (simp add: chan_send_def split: if_splits)
next
  case (push_closed g v)
  then show ?thesis
    by (intro lock_inv_move [OF inv, where g = g and p = Idle])
      (auto simp: move_simps lock_inv_lists [OF inv] remove1_idem)
next
  case (push_rlock g v)
  then show ?thesis
    by (intro lock_inv_move [OF inv, where g = g and p = "PushLocked v"])
      (auto simp: move_simps lock_inv_lists [OF inv] remove1_idem)
next
  case (push_sent g v ch)
  then show ?thesis
    by (intro lock_inv_move [OF inv, where g = g and p = Idle])
      (auto simp: move_simps lock_inv_lists [OF inv] remove1_idem)
next
  case (push_full g v)
  then show ?thesis
    by (intro lock_inv_move [OF inv, where g = g and
          p = "if q_failOnFull (qs_q y) then PushFull v else Idle"])
      (auto simp: move_simps lock_inv_lists [OF inv] remove1_idem split: if_splits)
next
  case (push_fails g v q c)
  then show ?thesis
    by (intro lock_inv_move [OF inv, where g = g and
          p = "case c of None \<Rightarrow> Idle | Some n \<Rightarrow> FailCancel v n ErrQueueFull"])
      (auto simp: move_simps lock_inv_lists [OF inv] remove1_idem split: option.splits if_splits)
next
  case (push_cancels g v n e)
  then show ?thesis
    by (intro lock_inv_move [OF inv, where g = g and p = Idle])
      (auto simp: move_simps lock_inv_lists [OF inv] remove1_idem)
qed

lemma pushwait_step_lock:
  assumes "pushwait_step y z" and inv: "lock_inv y"
  shows "lock_inv z"
  using assms(1)
proof cases
  case (pw_panics g v s)
  then show ?thesis
    using lock_inv_send [OF inv, of g] by (simp add: chan_send_def split: if_splits)
next
  case (pw_rlock g v)
  then show ?thesis
    by (intro lock_inv_move [OF inv, where g = g and p = "PWLocked v"])
      (auto simp: move_simps lock_inv_lists [OF inv] remove1_idem)
next
  case (pw_open g v)
  have "\<not> ch_closed (q_queue (qs_q y))"
    using inv pw_open(3) once_inv_closed by (auto simp: lock_inv_def)
  with pw_open show ?thesis
    by (intro lock_inv_move [OF inv, where g = g and p = "PWSelect v"])
      (auto simp: move_simps lock_inv_lists [OF inv] remove1_idem)
next
  case (pw_ctx_first g v e)
  then show ?thesis
    by (intro lock_inv_move [OF inv, where g = g and p = Idle])
      (auto simp: move_simps lock_inv_lists [OF inv] remove1_idem)
next
  case (pw_closed g v)
  then show ?thesis
    by (intro lock_inv_move [OF inv, where g = g and p = Idle])
      (auto simp: move_simps lock_inv_lists [OF inv] remove1_idem)
next
  case (pw_sent g v ch)
  then show ?thesis
    by (intro lock_inv_move [OF inv, where g = g and p = Idle])
      (auto simp: move_simps lock_inv_lists [OF inv] remove1_idem)
next
  case (pw_ctx g v e)
  then show ?thesis
    by (intro lock_inv_move [OF inv, where g = g and p = Idle])
      (auto simp: move_simps lock_inv_lists [OF inv] remove1_idem)
next
  case (pw_done g v)
  then show ?thesis
    by (intro lock_inv_move [OF inv, where g = g and p = Idle])
      (auto simp: move_simps lock_inv_lists [OF inv] remove1_idem)
qed

lemma close_step_lock:
  assumes "close_step y z" and inv: "lock_inv y"
  shows "lock_inv z"
  using assms(1)
proof cases
  case (close_again g drain)
  then show ?thesis
    by (intro lock_inv_move [OF inv, where g = g and p = "if drain then DrainRead else Idle"])
      (auto simp: move_simps lock_inv_lists [OF inv] remove1_idem split: if_splits)
qed (use inv in \<open>auto simp: lock_inv_def queue_sys_defs chan_close_def
    dest: in_select_holds split: go.splits if_splits\<close>)

text \<open>A queue starts as \<open>NewQueue\<close> makes it.\<close>

definition queue_new :: "'a queue_sys \<Rightarrow> bool" where
  "queue_new y \<longleftrightarrow> (\<exists>fof sz w n. y = queue_start (NewQueue fof sz w n))"

section \<open>Items and runs\<close>

fun busy_with :: "'a qworker \<Rightarrow> 'a list" where
  "busy_with (WBusy v) = [v]"
| "busy_with w = []"

definition in_flight :: "'a queue_sys \<Rightarrow> 'a list" where
  "in_flight y = concat (map (\<lambda>r. concat (map busy_with (run_workers r))) (active_runs y))"

definition item_inv :: "'a queue_sys \<Rightarrow> bool" where
  "item_inv y \<longleftrightarrow>
     qs_accepted y = qs_taken y @ ch_buf (q_queue (qs_q y)) \<and> chan_wf (q_queue (qs_q y)) \<and>
     mset (qs_taken y) = mset (qs_handled y) + mset (in_flight y)"

text \<open>
  A worker of a run whose context is live has left only a drained, closed queue. There is
  at most one run, \<open>q.done\<close> is its channel, and that channel is open.
\<close>

definition run_ok :: "'a queue_sys \<Rightarrow> 'a qrun \<Rightarrow> bool" where
  "run_ok y r \<longleftrightarrow>
     length (run_workers r) = q_workers (qs_q y) \<and> run_no r < qs_runs y \<and>
     ctx_wf (run_ctx r) \<and> (run_untilClosed r \<longrightarrow> run_parent r = live_ctx) \<and>
     (ctx_err (run_ctx r) = None \<and> WExit \<in> set (run_workers r) \<longrightarrow>
        ch_closed (q_queue (qs_q y)) \<and> ch_buf (q_queue (qs_q y)) = []) \<and>
     (run_phase r \<noteq> RunWorking \<longrightarrow> set (run_workers r) \<subseteq> {WExit}) \<and>
     (ctx_err (run_ctx r) = None \<longrightarrow> run_phase r \<in> {RunWorking, RunChecked, RunResult None})"

definition run_inv :: "'a queue_sys \<Rightarrow> bool" where
  "run_inv y \<longleftrightarrow>
     1 \<le> q_workers (qs_q y) \<and> (q_running (qs_q y) \<longleftrightarrow> qs_run y \<noteq> None) \<and> qs_others y = [] \<and>
     q_cancel (qs_q y) = map_option run_no (qs_run y) \<and>
     (\<forall>d\<in>qs_dones y. d < qs_runs y) \<and> (\<forall>g d. qs_pc y g \<noteq> DrainWait d None) \<and>
     (\<forall>r. qs_run y = Some r \<longrightarrow>
        run_ok y r \<and> q_done (qs_q y) = Some (run_no r) \<and> run_no r \<notin> qs_dones y)"

lemma drain_step_lock:
  assumes "drain_step y z" and inv: "lock_inv y" and run: "run_inv y"
  shows "lock_inv z"
  using assms(1)
proof cases
  case (drain_idle g)
  then show ?thesis
    by (intro lock_inv_move [OF inv, where g = g and p = Idle])
      (auto simp: move_simps lock_inv_lists [OF inv] remove1_idem)
next
  case (drain_waits g)
  then show ?thesis
    by (intro lock_inv_move [OF inv, where g = g and
          p = "DrainWait (q_done (qs_q y)) (q_cancel (qs_q y))"])
      (auto simp: move_simps lock_inv_lists [OF inv] remove1_idem)
next
  case (drain_done g d c)
  then show ?thesis
    by (intro lock_inv_move [OF inv, where g = g and p = Idle])
      (auto simp: move_simps lock_inv_lists [OF inv] remove1_idem)
next
  case (drain_ctx g d c e)
  then obtain n where "c = Some n"
    using run by (cases c) (auto simp: run_inv_def)
  with drain_ctx show ?thesis
    by (intro lock_inv_move [OF inv, where g = g and p = Idle])
      (auto simp: move_simps lock_inv_lists [OF inv] remove1_idem)
qed

text \<open>An active run is the only one, and the channel it closes at its end is still open.\<close>

lemma run_finish_ok:
  assumes "run_inv y" and "qs_run y = Some r"
  shows "run_finish res y =
    y\<lparr>qs_q := (qs_q y)\<lparr>q_cancel := None, q_running := False\<rparr>,
      qs_dones := insert (run_no r) (qs_dones y), qs_run := None, qs_log := qs_log y @ [RunRet res]\<rparr>"
  using assms by (simp add: run_finish_def queue_run_end_def run_inv_def)

lemma run_alone: "run_inv y \<Longrightarrow> qs_others y = []"
  by (simp add: run_inv_def)

lemma in_flight_alone:
  "run_inv y \<Longrightarrow>
     in_flight y = (case qs_run y of None \<Rightarrow> [] | Some r \<Rightarrow> concat (map busy_with (run_workers r)))"
  by (simp add: in_flight_def active_runs_def run_inv_def split: option.split)

lemma run_step_lock: "run_step y z \<Longrightarrow> lock_inv y \<Longrightarrow> run_inv y \<Longrightarrow> lock_inv z"
  by (erule run_step.cases; rule lock_inv_frame)
    (auto simp: same_flags_def queue_run_begin_def run_finish_ok run_alone chan_recv_cases
      split: if_splits option.splits)

lemma mset_concat_update:
  assumes "i < length ws"
  shows "mset (concat (map f (ws[i := w]))) + mset (f (ws ! i)) = mset (concat (map f ws)) + mset (f w)"
proof -
  have "mset (concat (map f ws)) =
    mset (concat (map f (take i ws @ ws ! i # drop (Suc i) ws)))"
    by (simp only: id_take_nth_drop [OF assms, symmetric])
  then show ?thesis
    using assms by (simp add: upd_conv_take_nth_drop)
qed

lemma in_flight_set_worker:
  assumes "worker_is r i w"
  shows "mset (concat (map busy_with (run_workers (set_worker i w' r)))) + mset (busy_with w) =
    mset (concat (map busy_with (run_workers r))) + mset (busy_with w')"
  using assms mset_concat_update [of i "run_workers r" busy_with w']
  by (simp add: worker_is_def set_worker_def)

lemma busy_exited: "set ws \<subseteq> {WExit} \<Longrightarrow> concat (map busy_with ws) = []"
  by auto

lemma busy_length: "length (concat (map busy_with ws)) \<le> length ws"
proof (induction ws)
  case (Cons w ws)
  then show ?case by (cases w) auto
qed simp

lemma push_step_item: "push_step y z \<Longrightarrow> item_inv y \<Longrightarrow> item_inv z"
  by (erule push_step.cases)
    (auto simp: item_inv_def queue_sys_defs in_flight_def active_runs_def comp_def chan_send_cases chan_wf_def queue_fail_def
      Let_def split: option.splits if_splits)

lemma pushwait_step_item: "pushwait_step y z \<Longrightarrow> item_inv y \<Longrightarrow> item_inv z"
  by (erule pushwait_step.cases)
    (auto simp: item_inv_def queue_sys_defs in_flight_def active_runs_def comp_def chan_send_cases chan_wf_def)

lemma close_step_item: "close_step y z \<Longrightarrow> item_inv y \<Longrightarrow> item_inv z"
  by (erule close_step.cases)
    (auto simp: item_inv_def queue_sys_defs in_flight_def active_runs_def comp_def chan_close_def chan_wf_def
      split: if_splits)

lemma drain_step_item: "drain_step y z \<Longrightarrow> item_inv y \<Longrightarrow> item_inv z"
  by (erule drain_step.cases)
    (auto simp: item_inv_def queue_sys_defs in_flight_def active_runs_def comp_def split: option.splits if_splits)

lemma run_step_item:
  assumes "run_step y z" and inv: "item_inv y" "run_inv y"
  shows "item_inv z"
  using assms(1)
proof cases
  case (run_begins q c parent untilClosed)
  then show ?thesis
    using inv(1) by (auto simp: item_inv_def in_flight_def active_runs_def queue_run_begin_def
        split: if_splits option.splits)
next
  case (run_turns r)
  then show ?thesis
    using run_alone [OF inv(2)] by simp
next
  case (worker_ctx_done r i)
  then show ?thesis
    using inv(1) in_flight_set_worker [of r i WSelect WExit] by (simp add: item_inv_def in_flight_def active_runs_def)
next
  case (worker_takes r i v ch)
  then show ?thesis
    using inv(1) in_flight_set_worker [of r i WSelect "WBusy v"]
    by (auto simp: item_inv_def in_flight_def active_runs_def chan_recv_cases chan_wf_def)
next
  case (worker_drained r i ch)
  then show ?thesis
    using inv(1) in_flight_set_worker [of r i WSelect WExit] by (simp add: item_inv_def in_flight_def active_runs_def)
next
  case (worker_handles r i v)
  then show ?thesis
    using inv(1) in_flight_set_worker [of r i "WBusy v" WSelect]
    by (simp add: item_inv_def in_flight_def active_runs_def)
next
  case (worker_fails r i v e)
  then show ?thesis
    using inv(1) in_flight_set_worker [of r i "WBusy v" WExit]
    by (simp add: item_inv_def in_flight_def active_runs_def set_worker_def)
next
  case (run_ends_canceled r)
  then show ?thesis
    using inv(1) by (auto simp: item_inv_def in_flight_def active_runs_def run_finish_ok [OF inv(2)] busy_exited)
next
  case (run_ends r res)
  then have "set (run_workers r) \<subseteq> {WExit}"
    using inv(2) by (auto simp: run_inv_def run_ok_def)
  with run_ends show ?thesis
    using inv(1) by (auto simp: item_inv_def in_flight_def active_runs_def run_finish_ok [OF inv(2)] busy_exited)
qed (use inv(1) in \<open>auto simp: item_inv_def in_flight_def active_runs_def\<close>)

lemma push_step_run: "push_step y z \<Longrightarrow> run_inv y \<Longrightarrow> run_inv z"
  by (erule push_step.cases)
    (auto simp: run_inv_def run_ok_def queue_sys_defs cancelled_def chan_send_cases queue_fail_def
      Let_def split: option.splits if_splits)

lemma pushwait_step_run: "pushwait_step y z \<Longrightarrow> run_inv y \<Longrightarrow> run_inv z"
  by (erule pushwait_step.cases)
    (auto simp: run_inv_def run_ok_def queue_sys_defs cancelled_def chan_send_cases)

lemma close_step_run: "close_step y z \<Longrightarrow> run_inv y \<Longrightarrow> run_inv z"
  by (erule close_step.cases)
    (auto simp: run_inv_def run_ok_def queue_sys_defs cancelled_def chan_close_def split: if_splits)

lemma drain_step_run: "drain_step y z \<Longrightarrow> run_inv y \<Longrightarrow> run_inv z"
  by (erule drain_step.cases)
    (auto simp: run_inv_def run_ok_def queue_sys_defs cancelled_def split: option.splits if_splits)

lemma exit_in_update:
  "WExit \<in> set (ws[i := w]) \<Longrightarrow> w \<noteq> WExit \<Longrightarrow> WExit \<in> set ws"
  using set_update_subset_insert [of ws i w] by auto

text \<open>While a worker is at work the run has not been checked.\<close>

lemma working_phase:
  assumes "run_inv y" and "qs_run y = Some r" and "worker_is r i w" and "w \<noteq> WExit"
  shows "run_phase r = RunWorking"
proof -
  have "run_workers r ! i \<in> set (run_workers r)" "run_workers r ! i \<noteq> WExit"
    using assms(3,4) by (auto simp: worker_is_def)
  then show ?thesis
    using assms(1,2) by (auto simp: run_inv_def run_ok_def)
qed

lemma run_step_run:
  assumes "run_step y z" and inv: "run_inv y"
  shows "run_inv z"
  using assms(1)
proof cases
  case (run_turns r)
  then show ?thesis
    using run_alone [OF inv] by simp
next
  case (run_begins q c parent untilClosed)
  then show ?thesis
    using inv by (auto simp: run_inv_def run_ok_def queue_run_begin_def run_parent_ctx_def active_runs_def
        split: if_splits option.splits)
next
  case (parent_ends r c parent)
  then show ?thesis
    using inv by (auto simp: run_inv_def run_ok_def run_parent_ctx_def inherit_def)
next
  case (worker_takes r i v ch)
  then show ?thesis
    using inv working_phase [OF inv worker_takes(2,3)]
    by (auto simp: run_inv_def run_ok_def set_worker_def chan_recv_cases dest: exit_in_update)
next
  case (worker_ctx_done r i)
  then show ?thesis
    using inv working_phase [OF inv worker_ctx_done(2,3)] by (auto simp: run_inv_def run_ok_def set_worker_def)
next
  case (worker_drained r i ch)
  then show ?thesis
    using inv working_phase [OF inv worker_drained(2,3)]
    by (auto simp: run_inv_def run_ok_def set_worker_def chan_recv_cases)
next
  case (worker_handles r i v)
  then show ?thesis
    using inv working_phase [OF inv worker_handles(2,3)]
    by (auto simp: run_inv_def run_ok_def set_worker_def dest: exit_in_update)
next
  case (worker_fails r i v e)
  then show ?thesis
    using inv working_phase [OF inv worker_fails(2,3)] by (auto simp: run_inv_def run_ok_def set_worker_def)
next
  case (run_computes r)
  then have "ctx_err (run_ctx r) = None \<Longrightarrow> queue_run_result (run_ctx r) = None"
    using inv by (auto simp: run_inv_def run_ok_def ctx_wf_def queue_run_result_def)
  with run_computes show ?thesis
    using inv by (auto simp: run_inv_def run_ok_def)
next
  case (run_ends_canceled r)
  then show ?thesis
    using inv by (auto simp: run_finish_ok [OF inv] run_inv_def run_ok_def)
next
  case (run_ends r res)
  then show ?thesis
    using inv by (auto simp: run_finish_ok [OF inv] run_inv_def run_ok_def)
qed (use inv in \<open>auto simp: run_inv_def run_ok_def\<close>)

text \<open>One worker handles the items one after the other.\<close>

definition serial_inv :: "'a queue_sys \<Rightarrow> bool" where
  "serial_inv y \<longleftrightarrow> (q_workers (qs_q y) = 1 \<longrightarrow> qs_taken y = qs_handled y @ in_flight y)"

lemma one_worker:
  "run_inv y \<Longrightarrow> qs_run y = Some r \<Longrightarrow> q_workers (qs_q y) = 1 \<Longrightarrow> worker_is r i w \<Longrightarrow>
     i = 0 \<and> run_workers r = [w]"
  by (auto simp: run_inv_def run_ok_def worker_is_def length_Suc_conv)

lemma caller_step_serial:
  "push_step y z \<or> pushwait_step y z \<or> close_step y z \<or> drain_step y z \<Longrightarrow> serial_inv y \<Longrightarrow> serial_inv z"
  by (elim disjE push_step.cases pushwait_step.cases close_step.cases drain_step.cases)
    (auto simp: serial_inv_def queue_sys_defs in_flight_def active_runs_def comp_def queue_fail_def Let_def
      split: option.splits if_splits go.splits)

lemma run_step_serial:
  assumes "run_step y z" and inv: "serial_inv y" "run_inv y"
  shows "serial_inv z"
  using assms(1)
proof cases
  case (run_begins q c parent untilClosed)
  then have "qs_run y = None"
    using inv(2) by (auto simp: run_inv_def queue_run_begin_def split: if_splits)
  with run_begins show ?thesis
    using inv(1) by (auto simp: serial_inv_def in_flight_def active_runs_def run_alone [OF inv(2)] queue_run_begin_def split: if_splits option.splits)
next
  case (run_turns r)
  then show ?thesis
    using run_alone [OF inv(2)] by simp
next
  case (worker_ctx_done r i)
  then show ?thesis
    using inv(1) one_worker [OF inv(2) worker_ctx_done(2) _ worker_ctx_done(3)]
    by (auto simp: serial_inv_def in_flight_def active_runs_def run_alone [OF inv(2)] set_worker_def)
next
  case (worker_takes r i v ch)
  then show ?thesis
    using inv(1) one_worker [OF inv(2) worker_takes(2) _ worker_takes(3)]
    by (auto simp: serial_inv_def in_flight_def active_runs_def run_alone [OF inv(2)] set_worker_def)
next
  case (worker_drained r i ch)
  then show ?thesis
    using inv(1) one_worker [OF inv(2) worker_drained(2) _ worker_drained(3)]
    by (auto simp: serial_inv_def in_flight_def active_runs_def run_alone [OF inv(2)] set_worker_def)
next
  case (worker_handles r i v)
  then show ?thesis
    using inv(1) one_worker [OF inv(2) worker_handles(2) _ worker_handles(3)]
    by (auto simp: serial_inv_def in_flight_def active_runs_def run_alone [OF inv(2)] set_worker_def)
next
  case (worker_fails r i v e)
  then show ?thesis
    using inv(1) one_worker [OF inv(2) worker_fails(2) _ worker_fails(3)]
    by (auto simp: serial_inv_def in_flight_def active_runs_def run_alone [OF inv(2)] set_worker_def)
next
  case (run_ends_canceled r)
  then show ?thesis
    using inv(1) by (auto simp: serial_inv_def in_flight_def active_runs_def run_alone [OF inv(2)]
        run_finish_ok [OF inv(2)] busy_exited)
next
  case (run_ends r res)
  then have "set (run_workers r) \<subseteq> {WExit}"
    using inv(2) by (auto simp: run_inv_def run_ok_def)
  with run_ends show ?thesis
    using inv(1) by (auto simp: serial_inv_def in_flight_def active_runs_def run_alone [OF inv(2)]
        run_finish_ok [OF inv(2)] busy_exited)
qed (use inv(1) in \<open>auto simp: serial_inv_def in_flight_def active_runs_def run_alone [OF inv(2)]\<close>)

definition queue_inv :: "'a queue_sys \<Rightarrow> bool" where
  "queue_inv y \<longleftrightarrow> lock_inv y \<and> item_inv y \<and> run_inv y \<and> serial_inv y"

lemma queue_inv_alone:
  "queue_inv y \<Longrightarrow> qs_others y = []"
  "queue_inv y \<Longrightarrow> qs_run y = Some r \<Longrightarrow> run_finish res y =
    y\<lparr>qs_q := (qs_q y)\<lparr>q_cancel := None, q_running := False\<rparr>,
      qs_dones := insert (run_no r) (qs_dones y), qs_run := None, qs_log := qs_log y @ [RunRet res]\<rparr>"
  "queue_inv y \<Longrightarrow>
     in_flight y = (case qs_run y of None \<Rightarrow> [] | Some r \<Rightarrow> concat (map busy_with (run_workers r)))"
  by (simp_all add: queue_inv_def run_alone run_finish_ok in_flight_alone)

lemma queue_step_inv: "queue_inv y \<Longrightarrow> queue_step y z \<Longrightarrow> queue_inv z"
  unfolding queue_inv_def
  by (auto elim!: queue_step.cases
      intro: push_step_lock pushwait_step_lock close_step_lock drain_step_lock run_step_lock
        push_step_item pushwait_step_item close_step_item drain_step_item run_step_item
        push_step_run pushwait_step_run close_step_run drain_step_run run_step_run
        caller_step_serial run_step_serial)

lemma queue_start_inv: "queue_new y \<Longrightarrow> queue_inv y"
  by (auto simp: queue_new_def queue_inv_def lock_inv_start, auto simp: item_inv_def run_inv_def serial_inv_def
      in_flight_def active_runs_def queue_start_def NewQueue_def Let_def chan_wf_def chan_make_def)

interpretation queue: inductive_invariant queue_new queue_step queue_inv
  by unfold_locales (auto intro: queue_start_inv queue_step_inv)

section \<open>Closing can always finish\<close>









section \<open>Steps and what they keep\<close>

lemma closed_stays: "queue_step y z \<Longrightarrow> q_closed (qs_q y) \<Longrightarrow> q_closed (qs_q z)"
  by (elim queue_step.cases push_step.cases pushwait_step.cases close_step.cases drain_step.cases
      run_step.cases)
    (auto simp: queue_sys_defs queue_fail_def queue_run_begin_def run_finish_def queue_run_end_def Let_def
      split: option.splits if_splits go.splits)

lemma failure_stays: "queue_step y z \<Longrightarrow> q_failure (qs_q y) = Some e \<Longrightarrow> q_failure (qs_q z) = Some e"
  by (elim queue_step.cases push_step.cases pushwait_step.cases close_step.cases drain_step.cases
      run_step.cases)
    (auto simp: queue_sys_defs queue_fail_def queue_run_begin_def run_finish_def queue_run_end_def Let_def
      split: option.splits if_splits go.splits)

lemma done_stays:
  "lock_inv y \<Longrightarrow> queue_step y z \<Longrightarrow> q_closeOnce (qs_q y) = OnceDone \<Longrightarrow>
     q_closeOnce (qs_q z) = OnceDone"
  by (elim queue_step.cases push_step.cases pushwait_step.cases close_step.cases drain_step.cases
      run_step.cases)
    (auto simp: queue_sys_defs queue_fail_def queue_run_begin_def run_finish_def queue_run_end_def Let_def
      split: option.splits if_splits go.splits)

text \<open>An item enters only by a send whose sender is past the closed check.\<close>

lemma accepts_cases:
  "queue_step y z \<Longrightarrow> qs_accepted z \<noteq> qs_accepted y \<Longrightarrow>
     \<exists>g v. qs_accepted z = qs_accepted y @ [v] \<and> \<not> ch_closed (q_queue (qs_q y)) \<and>
       (qs_pc y g = PushLocked v \<or> qs_pc y g = PWSelect v)"
  by (elim queue_step.cases push_step.cases pushwait_step.cases close_step.cases drain_step.cases
      run_step.cases)
    (auto simp: queue_sys_defs chan_send_cases run_finish_def queue_run_end_def Let_def split: option.splits if_splits go.splits)

section \<open>A queue that is used, closed and drained\<close>

text \<open>One worker; goroutine 1 pushes 7, goroutine 2 closes.\<close>

definition pushed_sys :: "nat queue_sys" where
  "pushed_sys =
     (let y = queue_start (NewQueue False 2 True 1)
      in returns 1 (PushRet 7 True) (accept_item 7 ((q_queue (qs_q y))\<lparr>ch_buf := [7]\<rparr>) y))"

definition run_of :: "nat qworker \<Rightarrow> nat qrun" where
  "run_of w = \<lparr>run_no = 0, run_untilClosed = False, run_parent = live_ctx, run_ctx = live_ctx,
               run_workers = [w], run_phase = RunWorking\<rparr>"

definition closed_sys :: "once \<Rightarrow> bool \<Rightarrow> nat queue_sys" where
  "closed_sys w closed =
     (let y = pushed_sys
      in y\<lparr>qs_q := (qs_q y)\<lparr>q_running := True, q_cancel := Some 0, q_done := Some 0,
             q_closeOnce := w, q_closed := (w \<noteq> OnceFresh),
             q_pushWaitDone := (w = OnceSeal 2 \<or> closed), q_queue := \<lparr>ch_cap = 2, ch_buf = [], ch_closed = closed\<rparr>\<rparr>,
           qs_pc := (\<lambda>_. Idle)(2 := if w = OnceFresh \<or> closed then Idle else Closing False),
           qs_run := Some (run_of WSelect), qs_runs := 1, qs_taken := [7], qs_handled := [7],
           qs_log := PushRet 7 True # (if closed then [CloseRet] else [])\<rparr>)"

lemmas demo_defs = pushed_sys_def closed_sys_def run_of_def Let_def NewQueue_def queue_start_def
  queue_sys_defs chan_make_def

lemma pushed_reach: "reach queue_new queue_step pushed_sys"
proof -
  let ?start = "queue_start (NewQueue False 2 True 1) :: nat queue_sys"
  let ?locked = "goto 1 (PushLocked 7) (?start\<lparr>qs_mu := 1 # qs_mu ?start\<rparr>)"
  have "reach queue_new queue_step ?start"
    by (rule reach_start) (auto simp: queue_new_def)
  moreover have "queue_step ?start ?locked"
    by (intro step_push push_rlock) (simp_all add: demo_defs)
  moreover have "push_step ?locked (returns 1 (PushRet 7 True)
      (accept_item 7 ((q_queue (qs_q ?locked))\<lparr>ch_buf := [7]\<rparr>)
        (?locked\<lparr>qs_mu := remove1 1 (qs_mu ?locked)\<rparr>)))"
    by (rule push_sent) (simp_all add: demo_defs chan_send_def)
  then have "queue_step ?locked pushed_sys"
    by (intro step_push) (simp add: demo_defs)
  ultimately show ?thesis
    by (blast intro: reach_step)
qed

lemma handled_reach: "reach queue_new queue_step (closed_sys OnceFresh False)"
proof -
  let ?q = "(qs_q pushed_sys)\<lparr>q_running := True, q_cancel := Some 0, q_done := Some 0\<rparr>"
  let ?run = "pushed_sys\<lparr>qs_q := ?q, qs_runs := 1, qs_run := Some (run_of WSelect)\<rparr>"
  let ?busy = "?run\<lparr>qs_q := ?q\<lparr>q_queue := (q_queue ?q)\<lparr>ch_buf := []\<rparr>\<rparr>, qs_taken := [7],
    qs_run := Some (set_worker 0 (WBusy 7) (run_of WSelect))\<rparr>"
  have "run_step pushed_sys (pushed_sys\<lparr>qs_q := ?q, qs_runs := Suc (qs_runs pushed_sys), qs_others := active_runs pushed_sys,
    qs_run := Some \<lparr>run_no = qs_runs pushed_sys, run_untilClosed = False, run_parent = live_ctx,
      run_ctx = inherit live_ctx live_ctx, run_workers = replicate (q_workers ?q) WSelect,
      run_phase = RunWorking\<rparr>\<rparr>)"
    by (rule run_begins [of _ _ live_ctx])
      (simp_all add: demo_defs queue_run_begin_def run_parent_ctx_def)
  then have begin': "queue_step pushed_sys ?run"
    by (intro step_run) (simp add: demo_defs inherit_def active_runs_def)
  have "run_step ?run (?run\<lparr>qs_q := (qs_q ?run)\<lparr>q_queue := (q_queue ?q)\<lparr>ch_buf := []\<rparr>\<rparr>,
      qs_taken := qs_taken ?run @ [7], qs_run := Some (set_worker 0 (WBusy 7) (run_of WSelect))\<rparr>)"
    by (rule worker_takes) (simp_all add: demo_defs worker_is_def chan_recv_def)
  then have take': "queue_step ?run ?busy"
    by (intro step_run) (simp add: demo_defs)
  have "run_step ?busy (?busy\<lparr>qs_handled := qs_handled ?busy @ [7],
      qs_run := Some (set_worker 0 WSelect (set_worker 0 (WBusy 7) (run_of WSelect)))\<rparr>)"
    by (rule worker_handles) (simp_all add: demo_defs worker_is_def set_worker_def)
  then have "queue_step ?busy (closed_sys OnceFresh False)"
    by (intro step_run) (simp add: demo_defs set_worker_def fun_upd_idem)
  then show ?thesis
    using pushed_reach begin' take' by (blast intro: reach_step)
qed

lemma closed_reach: "reach queue_new queue_step (closed_sys (OnceSeal 2) False)"
  "reach queue_new queue_step (closed_sys OnceDone True)"
proof -
  have "close_step (closed_sys OnceFresh False) (closed_sys (OnceSignal 2) False)"
    using close_flag [of "closed_sys OnceFresh False" 2 False] by (simp add: demo_defs)
  moreover have "close_step (closed_sys (OnceSignal 2) False) (closed_sys (OnceSeal 2) False)"
    using close_signal [of "closed_sys (OnceSignal 2) False" 2 False] by (simp add: demo_defs)
  ultimately show seal: "reach queue_new queue_step (closed_sys (OnceSeal 2) False)"
    using handled_reach by (blast intro: reach_step step_close)
  have "close_step (closed_sys (OnceSeal 2) False) (closed_sys OnceDone True)"
    using close_seal [of "closed_sys (OnceSeal 2) False" 2 False]
    by (simp add: demo_defs chan_close_def)
  with seal show "reach queue_new queue_step (closed_sys OnceDone True)"
    by (blast intro: reach_step step_close)
qed

section \<open>Properties\<close>

text \<open>
  C3: In every reachable state, the accepted items in order are the ones taken by workers
  followed by the channel buffer, which never exceeds its capacity; every taken item has
  been handled by a worker function exactly once or is in the hands of exactly one worker.
  Nothing is lost, duplicated or reordered, whatever the interleaving. A single worker
  handles the items one after the other in the order in which they were accepted.
\<close>

theorem queue_items_conserved:
  assumes "reach queue_new queue_step y"
  shows "qs_accepted y = qs_taken y @ ch_buf (q_queue (qs_q y)) \<and>
    length (ch_buf (q_queue (qs_q y))) \<le> ch_cap (q_queue (qs_q y)) \<and>
    mset (qs_taken y) = mset (qs_handled y) + mset (in_flight y) \<and>
    (q_workers (qs_q y) = 1 \<longrightarrow>
       qs_accepted y = qs_handled y @ in_flight y @ ch_buf (q_queue (qs_q y)))"
  using queue.reach_inv [OF assms] by (auto simp: queue_inv_def item_inv_def chan_wf_def serial_inv_def)

lemma queue_items_conserved_witness:
  "\<exists>y :: nat queue_sys. reach queue_new queue_step y \<and> qs_accepted y = [7] \<and>
     qs_accepted y = qs_taken y @ ch_buf (q_queue (qs_q y))"
proof -
  have "qs_accepted (closed_sys OnceDone True) = [7]"
    by (simp add: demo_defs)
  then show ?thesis
    using queue_items_conserved [OF closed_reach(2)] closed_reach(2) by blast
qed

text \<open>
  C4: Queue methods never panic, in any interleaving of \<open>Push\<close>, \<open>PushWait\<close>, \<open>Close\<close>,
  \<open>Drain\<close> and \<open>Run\<close>: nobody sends on a closed channel, closes a channel twice or calls a
  nil cancel function. A goroutine past the closed check of \<open>Push\<close>, or selecting in
  \<open>PushWait\<close>, still has an open channel; whoever seals the queue finds \<open>q.queue\<close> open and
  \<open>q.pushWaitDone\<close> was open when it was closed; a run can close \<open>q.done\<close> whenever it ends,
  because no other run has replaced or closed the channel it made.
\<close>

theorem queue_never_panics:
  assumes "reach queue_new queue_step y"
  shows "\<not> qs_panicked y \<and>
    (\<forall>g v. qs_pc y g = PushLocked v \<or> qs_pc y g = PWSelect v \<longrightarrow>
       chan_send v (q_queue (qs_q y)) \<noteq> Panic s) \<and>
    (\<forall>g. q_closeOnce (qs_q y) = OnceSeal g \<longrightarrow>
       (\<exists>ch. chan_close (q_queue (qs_q y)) = Ret ch)) \<and>
    (\<forall>g. q_closeOnce (qs_q y) = OnceSignal g \<longrightarrow> \<not> q_pushWaitDone (qs_q y)) \<and>
    (\<forall>r\<in>set (active_runs y). \<exists>q dones. queue_run_end (qs_dones y) (qs_q y) = Ret (q, dones)) \<and>
    (\<forall>g d. qs_pc y g \<noteq> DrainWait d None)"
proof -
  have inv: "lock_inv y" "run_inv y"
    using queue.reach_inv [OF assms] by (simp_all add: queue_inv_def)
  have "chan_send v (q_queue (qs_q y)) \<noteq> Panic s"
    if "qs_pc y g = PushLocked v \<or> qs_pc y g = PWSelect v" for g v
    using lock_inv_send [OF inv(1), of g] that by (auto simp: chan_send_def)
  moreover have "\<exists>q dones. queue_run_end (qs_dones y) (qs_q y) = Ret (q, dones)"
    if "r \<in> set (active_runs y)" for r
    using inv(2) that
    by (auto simp: active_runs_def run_inv_def queue_run_end_def split: option.splits)
  moreover have "\<forall>g d. qs_pc y g \<noteq> DrainWait d None"
    using inv(2) by (simp add: run_inv_def)
  ultimately show ?thesis
    using inv(1) by (auto simp: lock_inv_def chan_close_def)
qed

lemma queue_never_panics_witness:
  "\<exists>y :: nat queue_sys. reach queue_new queue_step y \<and> q_closeOnce (qs_q y) = OnceSeal 2 \<and>
     \<not> qs_panicked y \<and> qs_run y \<noteq> None \<and>
     (\<exists>q. queue_run_end (qs_dones y) (qs_q y) = Ret (q, {0}))"
  using queue_never_panics [OF closed_reach(1)]
  by (intro exI [of _ "closed_sys (OnceSeal 2) False"]) (auto simp: closed_reach, simp_all add: demo_defs queue_run_end_def)

text \<open>
  C19: Closing is final. Once the closed flag is set no \<open>Push\<close> is accepted any more; only a
  \<open>PushWait\<close> that was already selecting may still get its item in. Once a \<open>Close\<close> has
  returned nothing is ever accepted again.
\<close>

theorem queue_close_final:
  assumes "reach queue_new queue_step y" and "queue_step y z" and "queue_Closed (qs_q y)"
  shows "queue_Closed (qs_q z) \<and>
    (qs_accepted z \<noteq> qs_accepted y \<longrightarrow>
       (\<exists>g v. qs_pc y g = PWSelect v \<and> qs_accepted z = qs_accepted y @ [v])) \<and>
    (q_closeOnce (qs_q y) = OnceDone \<longrightarrow>
       qs_accepted z = qs_accepted y \<and> q_closeOnce (qs_q z) = OnceDone)"
proof -
  have inv: "lock_inv y"
    using queue.reach_inv [OF assms(1)] by (simp add: queue_inv_def)
  have "\<not> holds_mu (qs_pc y g)" for g
    using inv assms(3) by (simp add: lock_inv_def queue_Closed_def)
  then have no_push: "qs_pc y g \<noteq> PushLocked v" for g v
    by (metis holds_mu.simps(1))
  have done': "ch_closed (q_queue (qs_q y))" if "q_closeOnce (qs_q y) = OnceDone"
    using inv that by (simp add: lock_inv_def)
  have accepts: "\<exists>g v. qs_pc y g = PWSelect v \<and> qs_accepted z = qs_accepted y @ [v]"
    if "qs_accepted z \<noteq> qs_accepted y"
    using accepts_cases [OF assms(2) that] no_push by auto
  have final: "qs_accepted z = qs_accepted y" if "q_closeOnce (qs_q y) = OnceDone"
    using accepts_cases [OF assms(2)] done' [OF that] by auto
  have "queue_Closed (qs_q z)"
    using assms(3) closed_stays [OF assms(2)] by (simp add: queue_Closed_def)
  then show ?thesis
    using accepts final done_stays [OF inv assms(2)] by simp
qed

lemma queue_close_final_witness:
  "\<exists>y z :: nat queue_sys. reach queue_new queue_step y \<and> q_closeOnce (qs_q y) = OnceDone \<and>
     queue_step y z \<and> qs_accepted z = qs_accepted y"
proof -
  let ?y = "closed_sys OnceDone True"
  have once: "q_closeOnce (qs_q ?y) = OnceDone" "queue_Closed (qs_q ?y)"
    by (simp_all add: demo_defs queue_Closed_def)
  have step: "queue_step ?y (returns 5 (PushRet 9 False) ?y)"
    by (intro step_push push_closed) (simp_all add: demo_defs)
  show ?thesis
    using queue_close_final [OF closed_reach(2) step once(2)] once(1) step closed_reach(2) by blast
qed



text \<open>
  C17: When \<open>Run\<close> ends while its context is live, the queue is closed, its buffer is empty
  and every item ever accepted has been handled; \<open>Run\<close> returns nil.
\<close>

theorem queue_run_drains:
  assumes "reach queue_new queue_step y" and "run_step y z"
    and "qs_run y = Some r" and "qs_run z = None" and "ctx_err (run_ctx r) = None"
  shows "ch_closed (q_queue (qs_q z)) \<and> ch_buf (q_queue (qs_q z)) = [] \<and>
    mset (qs_handled z) = mset (qs_accepted z) \<and> qs_log z = qs_log y @ [RunRet None]"
proof -
  have inv: "queue_inv y"
    by (rule queue.reach_inv [OF assms(1)])
  have phases: "run_phase r = RunWorking \<or> set (run_workers r) \<subseteq> {WExit}"
    "run_phase r \<in> {RunWorking, RunChecked, RunResult None}"
    using inv assms(3,5) by (auto simp: queue_inv_def run_inv_def run_ok_def)
  have end': "set (run_workers r) \<subseteq> {WExit}" "qs_handled z = qs_handled y"
    "qs_accepted z = qs_accepted y" "q_queue (qs_q z) = q_queue (qs_q y)"
    and log: "qs_log z = qs_log y @ [RunRet None]"
    using assms(2-4) phases inv by (auto elim!: run_step.cases simp: queue_inv_def run_finish_ok)
  have "run_workers r \<noteq> []"
    using inv assms(3) by (auto simp: queue_inv_def run_inv_def run_ok_def)
  with end'(1) have "WExit \<in> set (run_workers r)"
    by (cases "run_workers r") auto
  then have drained: "ch_closed (q_queue (qs_q y))" "ch_buf (q_queue (qs_q y)) = []"
    using inv assms(3,5) by (auto simp: queue_inv_def run_inv_def run_ok_def)
  have "in_flight y = []"
    using assms(3) inv busy_exited [OF end'(1)] by (simp add: queue_inv_def in_flight_alone)
  then show ?thesis
    using inv drained end'(2-4) log by (simp add: queue_inv_def item_inv_def)
qed

lemma queue_run_drains_witness:
  "\<exists>y z :: nat queue_sys. reach queue_new queue_step y \<and> run_step y z \<and> qs_run z = None \<and>
     qs_accepted z = [7] \<and> mset (qs_handled z) = mset (qs_accepted z)"
proof -
  let ?y = "closed_sys OnceDone True"
  let ?exit = "?y\<lparr>qs_run := Some (set_worker 0 WExit (run_of WSelect))\<rparr>"
  let ?c = "(set_worker 0 WExit (run_of WSelect))\<lparr>run_phase := RunChecked\<rparr>"
  let ?r = "?c\<lparr>run_phase := RunResult None\<rparr>"
  let ?checked = "?exit\<lparr>qs_run := Some ?r\<rparr>"
  let ?z = "run_finish None ?checked"
  have "queue_step ?y ?exit"
    by (intro step_run worker_drained)
      (auto simp: demo_defs worker_is_def chan_recv_cases)
  moreover have "queue_step ?exit (?exit\<lparr>qs_run := Some ?c\<rparr>)"
    by (intro step_run run_checks) (simp_all add: demo_defs set_worker_def live_ctx_def)
  moreover have "queue_step (?exit\<lparr>qs_run := Some ?c\<rparr>) ?checked"
    using run_computes [of "?exit\<lparr>qs_run := Some ?c\<rparr>" ?c]
    by (intro step_run) (simp add: demo_defs set_worker_def live_ctx_def queue_run_result_def)
  ultimately have checked: "reach queue_new queue_step ?checked"
    using closed_reach(2) by (blast intro: reach_step)
  have run: "qs_run ?checked = Some ?r"
    by simp
  have "run_step ?checked ?z"
    by (rule run_ends [where r = ?r]) (simp_all add: demo_defs set_worker_def)
  moreover have "ctx_err (run_ctx ?r) = None"
    by (simp add: set_worker_def run_of_def live_ctx_def)
  moreover have "qs_run ?z = None"
    by (simp add: demo_defs run_finish_def queue_run_end_def)
  ultimately have "mset (qs_handled ?z) = mset (qs_accepted ?z)" "run_step ?checked ?z"
    using queue_run_drains [OF checked _ run, of ?z] by simp_all
  then show ?thesis
    using checked by (intro exI [of _ ?checked] exI [of _ ?z])
      (simp add: demo_defs run_finish_def queue_run_end_def)
qed

text \<open>
  C20: At most one run is active: while one is, every other \<open>Run\<close> is refused with
  \<open>ErrQueueAlreadyRunning\<close>, and no more than \<open>Workers\<close> items are being handled at a time.
  A failure recorded by \<open>FailOnFull\<close> is never cleared, and every later \<open>Run\<close> returns it.
  \<open>RunUntilClosed\<close> never sees the end of its caller's context.
\<close>

theorem queue_single_run:
  assumes "reach queue_new queue_step y"
  shows "length (active_runs y) \<le> 1 \<and> (\<forall>r n. qs_run y = Some r \<and> q_worker (qs_q y) \<longrightarrow>
       queue_run_begin n (qs_q y) = Inl ErrQueueAlreadyRunning \<and>
       length (in_flight y) \<le> q_workers (qs_q y) \<and>
       (run_untilClosed r \<longrightarrow> ctx_err (run_parent r) = None)) \<and>
    (\<forall>z e n. queue_step y z \<and> q_failure (qs_q y) = Some e \<longrightarrow>
       q_failure (qs_q z) = Some e \<and>
       (qs_run z = None \<and> q_worker (qs_q z) \<longrightarrow> queue_run_begin n (qs_q z) = Inl e))"
proof -
  have inv: "queue_inv y"
    by (rule queue.reach_inv [OF assms])
  have busy: "length (in_flight y) \<le> q_workers (qs_q y)" if "qs_run y = Some r" for r
    using inv that busy_length [of "run_workers r"]
    by (simp add: queue_inv_def in_flight_alone run_inv_def run_ok_def)
  have after: "queue_run_begin n (qs_q z) = Inl e"
    if "queue_step y z" "q_failure (qs_q z) = Some e" "qs_run z = None" "q_worker (qs_q z)" for z e n
    using queue_step_inv [OF inv that(1)] that(2-4)
    by (simp add: queue_inv_def run_inv_def queue_run_begin_def)
  have "queue_run_begin n (qs_q y) = Inl ErrQueueAlreadyRunning"
    if "qs_run y = Some r" "q_worker (qs_q y)" for r n
    using inv that by (simp add: queue_inv_def run_inv_def queue_run_begin_def)
  moreover have "ctx_err (run_parent r) = None" if "qs_run y = Some r" "run_untilClosed r" for r
    using inv that by (simp add: queue_inv_def run_inv_def run_ok_def live_ctx_def)
  moreover have "length (active_runs y) \<le> 1"
    using inv by (auto simp: queue_inv_def active_runs_def run_alone split: option.split)
  ultimately show ?thesis
    using busy after failure_stays [of y] by auto
qed

lemma queue_single_run_witness:
  "\<exists>y :: nat queue_sys. reach queue_new queue_step y \<and> qs_run y \<noteq> None \<and>
     queue_run_begin 1 (qs_q y) = Inl ErrQueueAlreadyRunning"
proof -
  let ?y = "closed_sys OnceDone True"
  have "qs_run ?y = Some (run_of WSelect)" "q_worker (qs_q ?y)"
    by (simp_all add: demo_defs)
  then show ?thesis
    using queue_single_run [OF closed_reach(2)] closed_reach(2) by (metis option.distinct(1))
qed

end
