(* ===== verification/Gx_Accumulator.thy ===== *)
theory Gx_Accumulator imports Gx_Context "HOL-Library.Multiset" begin

text \<open>
  \<open>accumulator.go\<close>: a total that is handed to a callback on a threshold, on a timer and on
  close. \<open>int\<close> is 64 bits wide and wraps; comparisons are signed. Every method is one
  critical section; the goroutine \<open>run\<close> is its program counter. The timer is armed, has a
  value to receive, or neither; \<open>Stop\<close> and \<open>Reset\<close> leave no stale value behind. The
  callback is the log of its arguments.
\<close>

unbundle bit_operations_syntax

section \<open>Operations\<close>

datatype timer_state = TimerOff | TimerArmed | TimerFired

record accumulator =
  acc_ctx :: ctx
  acc_closed :: bool
  acc_delay :: int
  acc_max :: "64 word"
  acc_timer :: timer_state
  acc_total :: "64 word"

definition NewAccumulator :: "ctx \<Rightarrow> int \<Rightarrow> 64 word \<Rightarrow> bool \<Rightarrow> string + accumulator" where
  "NewAccumulator parent delay mx flush_given =
     (if delay \<le> 0 then Inl ''delay must be greater than zero''
      else if mx <s 0 then Inl ''max must not be negative''
      else if \<not> flush_given then Inl ''fn must not be nil''
      else Inr \<lparr>acc_ctx = inherit parent live_ctx, acc_closed = False, acc_delay = delay,
                acc_max = mx, acc_timer = TimerArmed, acc_total = 0\<rparr>)"

text \<open>Each operation returns the arguments of the callback calls it made.\<close>

definition accumulator_flushLocked :: "accumulator \<Rightarrow> accumulator \<times> 64 word list" where
  "accumulator_flushLocked a =
     (if acc_total a = 0 then (a, []) else (a\<lparr>acc_total := 0\<rparr>, [acc_total a]))"

definition accumulator_Add :: "64 word \<Rightarrow> accumulator \<Rightarrow> accumulator \<times> 64 word list" where
  "accumulator_Add n a =
     (if acc_closed a then (a, [])
      else let a' = a\<lparr>acc_total := acc_total a + n\<rparr>
           in if 0 <s acc_max a' \<and> acc_max a' \<le>s acc_total a' then accumulator_flushLocked a'
              else (a', []))"

definition accumulator_Close :: "accumulator \<Rightarrow> accumulator \<times> 64 word list" where
  "accumulator_Close a =
     (if acc_closed a then (a, [])
      else let a' = a\<lparr>acc_closed := True, acc_ctx := cancel_cause None (acc_ctx a),
                      acc_timer := TimerOff\<rparr>
           in if 0 <s acc_total a' then (a'\<lparr>acc_total := 0\<rparr>, [acc_total a']) else (a', []))"

text \<open>The critical section of a tick.\<close>

definition accumulator_tick :: "accumulator \<Rightarrow> accumulator \<times> 64 word list" where
  "accumulator_tick a =
     (let (a', out) = (if 0 <s acc_total a then accumulator_flushLocked a else (a, []))
      in (a'\<lparr>acc_timer := TimerArmed\<rparr>, out))"

section \<open>Callers, the timer and the goroutine\<close>

datatype acc_pc = RunSelect | RunTick | RunExited

record acc_sys =
  as_acc :: accumulator
  as_pc :: acc_pc
  as_added :: "64 word list"
  as_flushed :: "64 word list"

definition acc_emit :: "accumulator \<times> 64 word list \<Rightarrow> acc_sys \<Rightarrow> acc_sys" where
  "acc_emit r y = y\<lparr>as_acc := fst r, as_flushed := as_flushed y @ snd r\<rparr>"

inductive acc_step :: "acc_sys \<Rightarrow> acc_sys \<Rightarrow> bool" where
  adds:
    "acc_step y ((acc_emit (accumulator_Add n (as_acc y)) y)
       \<lparr>as_added := as_added y @ (if acc_closed (as_acc y) then [] else [n])\<rparr>)"
| closes: "acc_step y (acc_emit (accumulator_Close (as_acc y)) y)"
| parent_ends:
    "acc_step y (y\<lparr>as_acc := (as_acc y)\<lparr>acc_ctx := inherit parent (acc_ctx (as_acc y))\<rparr>\<rparr>)"
| timer_fires:
    "acc_timer (as_acc y) = TimerArmed \<Longrightarrow>
     acc_step y (y\<lparr>as_acc := (as_acc y)\<lparr>acc_timer := TimerFired\<rparr>\<rparr>)"
| run_exits:
    "as_pc y = RunSelect \<Longrightarrow> ctx_err (acc_ctx (as_acc y)) \<noteq> None \<Longrightarrow>
     acc_step y (y\<lparr>as_pc := RunExited, as_acc := (as_acc y)\<lparr>acc_timer := TimerOff\<rparr>\<rparr>)"
| run_receives:
    "as_pc y = RunSelect \<Longrightarrow> acc_timer (as_acc y) = TimerFired \<Longrightarrow>
     acc_step y (y\<lparr>as_pc := RunTick, as_acc := (as_acc y)\<lparr>acc_timer := TimerOff\<rparr>\<rparr>)"
| run_ticks:
    "as_pc y = RunTick \<Longrightarrow>
     acc_step y ((acc_emit (accumulator_tick (as_acc y)) y)\<lparr>as_pc := RunSelect\<rparr>)"

inductive_cases acc_stepE: "acc_step y z"

definition acc_start :: "64 word \<Rightarrow> acc_sys \<Rightarrow> bool" where
  "acc_start mx y \<longleftrightarrow>
     (\<exists>parent delay a. NewAccumulator parent delay mx True = Inr a \<and>
        y = \<lparr>as_acc = a, as_pc = RunSelect, as_added = [], as_flushed = []\<rparr>)"

definition acc_inv :: "64 word \<Rightarrow> acc_sys \<Rightarrow> bool" where
  "acc_inv mx y \<longleftrightarrow>
     (let a = as_acc y
      in acc_max a = mx \<and> sum_list (as_added y) = sum_list (as_flushed y) + acc_total a \<and>
         (\<forall>v \<in> set (as_flushed y). 0 <s v) \<and> (0 <s mx \<longrightarrow> acc_total a <s mx) \<and>
         (acc_closed a \<longrightarrow> ctx_err (acc_ctx a) \<noteq> None \<and> \<not> 0 <s acc_total a) \<and>
         (ctx_err (acc_ctx a) = None \<longrightarrow>
            (case as_pc y of RunSelect \<Rightarrow> acc_timer a \<noteq> TimerOff
             | RunTick \<Rightarrow> acc_timer a = TimerOff | RunExited \<Rightarrow> False)))"

lemmas acc_op_defs = accumulator_Add_def accumulator_Close_def accumulator_tick_def
  accumulator_flushLocked_def acc_emit_def Let_def

lemma acc_step_inv: "acc_inv mx y \<Longrightarrow> acc_step y z \<Longrightarrow> acc_inv mx z"
  by (elim acc_stepE; cases "as_pc y")
    (auto simp: acc_inv_def acc_op_defs inherit_def cancel_cause_def signed.not_le add.assoc
      intro: signed.less_le_trans split: if_splits option.splits)

interpretation accumulator: inductive_invariant "acc_start mx" acc_step "acc_inv mx" for mx
proof
  show "acc_inv mx y" if "acc_start mx y" for y
    using that by (auto simp: acc_start_def NewAccumulator_def acc_inv_def Let_def split: if_splits)
qed (rule acc_step_inv)

section \<open>Properties\<close>

text \<open>
  C33: In every history of adds, closes, ticks and context ends, the accepted additions sum
  up, modulo \<open>2 ^ 64\<close>, to what was flushed plus the current total; every flushed value is
  positive; with a positive maximum the total between operations is below it.
\<close>

theorem accumulator_conserves:
  assumes "reach (acc_start mx) acc_step y"
  shows "sum_list (as_added y) = sum_list (as_flushed y) + acc_total (as_acc y) \<and>
    (\<forall>v \<in> set (as_flushed y). 0 <s v) \<and> (0 <s mx \<longrightarrow> acc_total (as_acc y) <s mx)"
  using accumulator.reach_inv [OF assms] by (simp add: acc_inv_def Let_def)

definition acc_demo :: "64 word \<Rightarrow> acc_sys" where
  "acc_demo n =
     \<lparr>as_acc = \<lparr>acc_ctx = live_ctx, acc_closed = False, acc_delay = 5, acc_max = 10,
                acc_timer = TimerArmed, acc_total = n\<rparr>,
      as_pc = RunSelect, as_added = [n], as_flushed = []\<rparr>"

lemma acc_demo_reach: "n <s 10 \<Longrightarrow> reach (acc_start 10) acc_step (acc_demo n)"
proof -
  assume small: "n <s 10"
  let ?s = "acc_demo n\<lparr>as_acc := (as_acc (acc_demo n))\<lparr>acc_total := 0\<rparr>, as_added := []\<rparr>"
  have "NewAccumulator live_ctx 5 10 True = Inr (as_acc ?s)"
    by (simp add: NewAccumulator_def acc_demo_def inherit_def live_ctx_def word_sless_alt)
  then have "reach (acc_start 10) acc_step ?s"
    by (intro reach_start) (auto simp: acc_start_def acc_demo_def)
  moreover have "acc_step ?s (acc_demo n)"
    using adds [of ?s n] small
    by (simp add: acc_op_defs acc_demo_def signed.not_le split: if_splits)
  ultimately show ?thesis
    by (rule reach_step)
qed

lemma accumulator_conserves_witness:
  "\<exists>y. reach (acc_start 10) acc_step y \<and> as_added y = [7] \<and>
     sum_list (as_added y) = sum_list (as_flushed y) + acc_total (as_acc y)"
proof -
  have "reach (acc_start 10) acc_step (acc_demo 7)"
    by (rule acc_demo_reach) (simp add: word_sless_alt)
  then show ?thesis
    using accumulator_conserves [of 10 "acc_demo 7"]
    by (intro exI [of _ "acc_demo 7"]) (simp add: acc_demo_def)
qed

text \<open>
  After \<open>Close\<close> the accumulator is silent: no step of any caller, of the timer or of the
  goroutine, even one that received a tick before, calls the callback or changes the total.
\<close>

theorem accumulator_silent_after_close:
  assumes "reach (acc_start mx) acc_step y" and "acc_closed (as_acc y)" and "acc_step y z"
  shows "acc_closed (as_acc z) \<and> as_flushed z = as_flushed y \<and> as_added z = as_added y \<and>
    acc_total (as_acc z) = acc_total (as_acc y)"
  using accumulator.reach_inv [OF assms(1)] assms(2,3)
  by (auto elim!: acc_stepE simp: acc_inv_def acc_op_defs)

lemma accumulator_silent_after_close_witness:
  "\<exists>y z. reach (acc_start 10) acc_step y \<and> acc_closed (as_acc y) \<and> acc_step y z \<and>
     as_flushed z = as_flushed y \<and> as_flushed y = [7]"
proof -
  let ?y = "acc_emit (accumulator_Close (as_acc (acc_demo 7))) (acc_demo 7)"
  let ?z = "(acc_emit (accumulator_Add 4 (as_acc ?y)) ?y)
    \<lparr>as_added := as_added ?y @ (if acc_closed (as_acc ?y) then [] else [4])\<rparr>"
  have y: "reach (acc_start 10) acc_step ?y"
    by (rule reach_step [OF acc_demo_reach closes]) (simp add: word_sless_alt)
  have closed: "acc_closed (as_acc ?y)" and out: "as_flushed ?y = [7]"
    by (simp_all add: acc_op_defs acc_demo_def word_sless_alt)
  show ?thesis
    using accumulator_silent_after_close [OF y closed adds [of ?y 4]] y closed out adds [of ?y 4]
    by blast
qed

text \<open>
  While the context is live the timer keeps working: from every reachable state with a
  positive total, the timer and the goroutine can go on to flush exactly that total.
\<close>

theorem accumulator_delay_flushes:
  assumes "reach (acc_start mx) acc_step y" and "ctx_err (acc_ctx (as_acc y)) = None"
    and "0 <s acc_total (as_acc y)"
  shows "\<exists>z. acc_step\<^sup>*\<^sup>* y z \<and> as_flushed z = as_flushed y @ [acc_total (as_acc y)] \<and>
    acc_total (as_acc z) = 0"
proof -
  have tick: "\<exists>z. acc_step\<^sup>*\<^sup>* u z \<and> as_flushed z = as_flushed u @ [acc_total (as_acc u)] \<and>
      acc_total (as_acc z) = 0" if "as_pc u = RunTick" "0 <s acc_total (as_acc u)" for u
    using run_ticks [OF that(1)] that(2) by (auto simp: acc_op_defs split: if_splits
        intro!: exI r_into_rtranclp)
  have receive: "\<exists>z. acc_step\<^sup>*\<^sup>* u z \<and> as_flushed z = as_flushed u @ [acc_total (as_acc u)] \<and>
      acc_total (as_acc z) = 0"
    if "as_pc u = RunSelect" "acc_timer (as_acc u) = TimerFired" "0 <s acc_total (as_acc u)" for u
    using run_receives [OF that(1,2)] that(3)
      tick [of "u\<lparr>as_pc := RunTick, as_acc := (as_acc u)\<lparr>acc_timer := TimerOff\<rparr>\<rparr>"]
    by (auto intro: converse_rtranclp_into_rtranclp)
  have inv: "acc_inv mx y"
    by (rule accumulator.reach_inv [OF assms(1)])
  show ?thesis
  proof (cases "as_pc y = RunTick")
    case True
    then show ?thesis using tick assms(3) by blast
  next
    case False
    then have pc: "as_pc y = RunSelect" "acc_timer (as_acc y) \<noteq> TimerOff"
      using inv assms(2) by (cases "as_pc y"; simp add: acc_inv_def Let_def)+
    show ?thesis
    proof (cases "acc_timer (as_acc y)")
      case TimerArmed
      from timer_fires [OF this] pc assms(3)
        receive [of "y\<lparr>as_acc := (as_acc y)\<lparr>acc_timer := TimerFired\<rparr>\<rparr>"]
      show ?thesis by (auto intro: converse_rtranclp_into_rtranclp)
    qed (use pc receive assms(3) in auto)
  qed
qed

lemma accumulator_delay_flushes_witness:
  "\<exists>z. acc_step\<^sup>*\<^sup>* (acc_demo 7) z \<and> as_flushed z = [7] \<and> acc_total (as_acc z) = 0"
proof -
  have "reach (acc_start 10) acc_step (acc_demo 7)"
    by (rule acc_demo_reach) (simp add: word_sless_alt)
  moreover have "ctx_err (acc_ctx (as_acc (acc_demo 7))) = None" "0 <s acc_total (as_acc (acc_demo 7))"
    by (simp_all add: acc_demo_def live_ctx_def word_sless_alt)
  ultimately show ?thesis
    using accumulator_delay_flushes [of 10 "acc_demo 7"] by (simp add: acc_demo_def)
qed

text \<open>A negative remainder is dropped by \<open>Close\<close> without a callback.\<close>

lemma accumulator_Close_drops_negative:
  "snd (accumulator_Close (fst (accumulator_Add (- 5) (as_acc (acc_demo 0))))) = []"
  by (simp add: acc_op_defs acc_demo_def word_sless_alt word_sle_eq)

end
