(* ===== verification/Gx_Dispatcher.thy ===== *)
theory Gx_Dispatcher imports Gx_GoMap Gx_Context begin

text \<open>
  \<open>dispatcher.go\<close>: handlers by type. A \<open>reflect.Type\<close> is a key, a handler is named; what
  calling it does is the parameter \<open>run\<close>, which changes the world and may return an error,
  and \<open>type_name\<close> is what \<open>%T\<close> prints. A nil handler is \<open>None\<close>.
\<close>

section \<open>Operations\<close>

record ('t, 'h) dispatcher =
  dp_m :: "('t, 'h list) gomap"

definition NewDispatcher :: "('t, 'h) dispatcher" where
  "NewDispatcher = \<lparr>dp_m = gm_make\<rparr>"

fun dispatch_handlers :: "('h \<Rightarrow> 'v \<Rightarrow> 'w \<Rightarrow> 'w \<times> error option) \<Rightarrow> 'h list \<Rightarrow> 'v \<Rightarrow> 'w \<Rightarrow>
    'w \<times> error option" where
  "dispatch_handlers run [] v w = (w, None)"
| "dispatch_handlers run (h # hs) v w =
     (case run h v w of
        (w', Some e) \<Rightarrow> (w', Some e)
      | (w', None) \<Rightarrow> dispatch_handlers run hs v w')"

definition dispatcher_Dispatch :: "('v \<Rightarrow> string) \<Rightarrow> ('h \<Rightarrow> 'v \<Rightarrow> 'w \<Rightarrow> 'w \<times> error option) \<Rightarrow> 't \<Rightarrow> 'v \<Rightarrow>
    ('t, 'h) dispatcher \<Rightarrow> 'w \<Rightarrow> 'w \<times> error option" where
  "dispatcher_Dispatch type_name run t v d w =
     (let handlers = gm_slice (dp_m d) t
      in if handlers = []
         then (w, Some (NewError 0 (''dispatcher: no handler registered for type '' @ type_name v)))
         else dispatch_handlers run handlers v w)"

definition dispatcher_Register :: "'t \<Rightarrow> 'h option \<Rightarrow> ('t, 'h) dispatcher \<Rightarrow> ('t, 'h) dispatcher go" where
  "dispatcher_Register t handler d =
     (case handler of
        None \<Rightarrow> Panic ''dispatcher: handler must not be nil''
      | Some h \<Rightarrow> go_bind (gm_assign t (gm_slice (dp_m d) t @ [h]) (dp_m d)) (\<lambda>m.
          Ret (d\<lparr>dp_m := m\<rparr>)))"

definition dispatcher_Unregister :: "'t \<Rightarrow> ('t, 'h) dispatcher \<Rightarrow> ('t, 'h) dispatcher" where
  "dispatcher_Unregister t d = d\<lparr>dp_m := gm_delete t (dp_m d)\<rparr>"

section \<open>Sequences of operations and their specification\<close>

datatype ('t, 'h, 'v) dispatch_op = DRegister 't 'h | DUnregister 't | DDispatch 't 'v

fun dispatcher_exec :: "('v \<Rightarrow> string) \<Rightarrow> ('h \<Rightarrow> 'v \<Rightarrow> 'w \<Rightarrow> 'w \<times> error option) \<Rightarrow>
    ('t, 'h, 'v) dispatch_op \<Rightarrow> ('t, 'h) dispatcher \<times> 'w \<Rightarrow>
    ((('t, 'h) dispatcher \<times> 'w) \<times> error option) go" where
  "dispatcher_exec tn run (DRegister t h) (d, w) =
     go_bind (dispatcher_Register t (Some h) d) (\<lambda>d'. Ret ((d', w), None))"
| "dispatcher_exec tn run (DUnregister t) (d, w) = Ret ((dispatcher_Unregister t d, w), None)"
| "dispatcher_exec tn run (DDispatch t v) (d, w) =
     (case dispatcher_Dispatch tn run t v d w of (w', r) \<Rightarrow> Ret ((d, w'), r))"

text \<open>
  The specification keeps a list of handlers per type. Dispatching runs the handlers before
  the first that fails, that one too, and nothing after it.
\<close>

definition handlers_run :: "('h \<Rightarrow> 'v \<Rightarrow> 'w \<Rightarrow> 'w \<times> error option) \<Rightarrow> 'h list \<Rightarrow> 'v \<Rightarrow> 'w \<Rightarrow> nat \<Rightarrow> 'w" where
  "handlers_run run hs v w n = fold (\<lambda>h w. fst (run h v w)) (take n hs) w"

definition handler_error :: "('h \<Rightarrow> 'v \<Rightarrow> 'w \<Rightarrow> 'w \<times> error option) \<Rightarrow> 'h list \<Rightarrow> 'v \<Rightarrow> 'w \<Rightarrow> nat \<Rightarrow>
    error option" where
  "handler_error run hs v w i = snd (run (hs ! i) v (handlers_run run hs v w i))"

fun dispatcher_spec :: "('v \<Rightarrow> string) \<Rightarrow> ('h \<Rightarrow> 'v \<Rightarrow> 'w \<Rightarrow> 'w \<times> error option) \<Rightarrow>
    ('t, 'h, 'v) dispatch_op \<Rightarrow> ('t \<Rightarrow> 'h list) \<times> 'w \<Rightarrow> (('t \<Rightarrow> 'h list) \<times> 'w) \<times> error option" where
  "dispatcher_spec tn run (DRegister t h) (r, w) = ((r(t := r t @ [h]), w), None)"
| "dispatcher_spec tn run (DUnregister t) (r, w) = ((r(t := []), w), None)"
| "dispatcher_spec tn run (DDispatch t v) (r, w) =
     (if r t = [] then ((r, w), Some (NewError 0 (''dispatcher: no handler registered for type '' @ tn v)))
      else case filter (\<lambda>i. handler_error run (r t) v w i \<noteq> None) [0..<length (r t)] of
             [] \<Rightarrow> ((r, handlers_run run (r t) v w (length (r t))), None)
           | i # _ \<Rightarrow> ((r, handlers_run run (r t) v w (Suc i)), handler_error run (r t) v w i))"

lemma handlers_run_simps [simp]:
  "handlers_run run hs v w 0 = w"
  "handlers_run run (h # hs) v w (Suc n) = handlers_run run hs v (fst (run h v w)) n"
  by (simp_all add: handlers_run_def)

lemma handler_error_simps [simp]:
  "handler_error run (h # hs) v w 0 = snd (run h v w)"
  "handler_error run (h # hs) v w (Suc i) = handler_error run hs v (fst (run h v w)) i"
  by (simp_all add: handler_error_def)

text \<open>The loop is the run up to the first failure.\<close>

lemma dispatch_handlers_eq:
  "dispatch_handlers run hs v w =
     (case filter (\<lambda>i. handler_error run hs v w i \<noteq> None) [0..<length hs] of
        [] \<Rightarrow> (handlers_run run hs v w (length hs), None)
      | i # _ \<Rightarrow> (handlers_run run hs v w (Suc i), handler_error run hs v w i))"
proof (induction hs arbitrary: w)
  case (Cons h hs)
  have upt: "[0..<length (h # hs)] = 0 # map Suc [0..<length hs]"
    by (simp add: map_Suc_upt upt_conv_Cons del: upt_Suc)
  obtain w' r where run: "run h v w = (w', r)"
    by (cases "run h v w")
  show ?case
    unfolding upt using Cons.IH [of w']
    by (cases r) (simp_all add: run filter_map comp_def split: list.split)
qed simp

lemma dispatcher_step_refines:
  assumes inv: "gm_inv (dp_m d)"
  shows "\<exists>d' w' r. dispatcher_exec tn run x (d, w) = Ret ((d', w'), r) \<and> gm_inv (dp_m d') \<and>
    dispatcher_spec tn run x (gm_slice (dp_m d), w) = ((gm_slice (dp_m d'), w'), r)"
proof (cases x)
  case (DRegister t h)
  then show ?thesis
    using gm_append_ok [OF inv, of t h] by (force simp: dispatcher_Register_def)
next
  case (DUnregister t)
  then show ?thesis using inv by (simp add: dispatcher_Unregister_def)
next
  case (DDispatch t v)
  then show ?thesis
    using inv dispatch_handlers_eq [of run "gm_slice (dp_m d) t" v w]
    by (auto simp: dispatcher_Dispatch_def Let_def split: list.split)
qed

interpretation dispatcher: refinement "dispatcher_exec tn run" "dispatcher_spec tn run"
  "\<lambda>(d, w). (gm_slice (dp_m d), w)" "\<lambda>(d, w). gm_inv (dp_m d)" for tn run
proof (unfold_locales, goal_cases)
  case (1 dw x)
  then show ?case
    using dispatcher_step_refines [of "fst dw" tn run x "snd dw"] by (auto split: prod.splits)
qed

section \<open>Properties\<close>

text \<open>
  C34: On every sequence of registrations, unregistrations and dispatches a dispatcher behaves
  like a list of handlers per type: a dispatch runs the registered handlers of that type in
  registration order on the world the previous one left, stops after the first that returns
  an error and returns that error, or nil; without handlers it returns an error and runs
  nothing. No operation panics.
\<close>

theorem dispatcher_refines_handler_lists:
  "\<exists>d w. run_ops (dispatcher_exec tn run) ops (NewDispatcher, w0) =
       Ret ((d, w), snd (run_spec (dispatcher_spec tn run) ops (\<lambda>t. [], w0))) \<and>
     fst (run_spec (dispatcher_spec tn run) ops (\<lambda>t. [], w0)) = (gm_slice (dp_m d), w)"
  using dispatcher.run_refines [of "(NewDispatcher, w0)" tn run ops]
  by (auto simp: NewDispatcher_def split: prod.splits)

end
