(* ===== verification/Gx_Bus.thy ===== *)
theory Gx_Bus imports Gx_GoMap Gx_Semaphore "HOL-Library.Sublist" begin

text \<open>
  \<open>bus.go\<close>: asynchronous publishing to subscribers by type. A \<open>Publish\<close> reads the
  subscribers under the lock, waits for a slot of the semaphore, and starts a goroutine that
  calls them in order and then releases the slot. Publishes are named; a nil subscriber is
  \<open>None\<close>; \<open>by_log\<close> records which publish called which subscriber, \<open>by_events\<close> the
  subscriptions and unsubscriptions so far, and \<open>by_read\<close> what each publish started from.
\<close>

section \<open>Operations\<close>

record ('t, 's) bus =
  bus_m :: "('t, 's list) gomap"
  bus_sem :: semaphore

definition NewBus :: "int \<Rightarrow> ('t, 's) bus" where
  "NewBus maxConcurrency = \<lparr>bus_m = gm_make, bus_sem = NewSemaphore maxConcurrency\<rparr>"

definition bus_Subscribe :: "'t \<Rightarrow> 's option \<Rightarrow> ('t, 's) bus \<Rightarrow> ('t, 's) bus go" where
  "bus_Subscribe t subscriber b =
     (case subscriber of
        None \<Rightarrow> Panic ''bus: subscriber must not be nil''
      | Some s \<Rightarrow> go_bind (gm_assign t (gm_slice (bus_m b) t @ [s]) (bus_m b)) (\<lambda>m.
          Ret (b\<lparr>bus_m := m\<rparr>)))"

definition bus_Unsubscribe :: "'t \<Rightarrow> ('t, 's) bus \<Rightarrow> ('t, 's) bus" where
  "bus_Unsubscribe t b = b\<lparr>bus_m := gm_delete t (bus_m b)\<rparr>"

text \<open>What \<open>Publish\<close> does before it waits; \<open>name\<close> is what \<open>%T\<close> prints.\<close>

definition bus_subscribers :: "string \<Rightarrow> 't \<Rightarrow> ('t, 's) bus \<Rightarrow> 's list go" where
  "bus_subscribers name t b =
     (let subscribers = gm_slice (bus_m b) t
      in if subscribers = [] then Panic (''bus: no subscribers registered for type '' @ name)
         else Ret subscribers)"

section \<open>Publishers and their goroutines\<close>

datatype 's publish =
    NotCalled
  | Panicked
  | Waiting "'s list"
  | GaveUp error
  | Calling "'s list" "'s list"
  | Finished "'s list"

datatype ('t, 's) registration = Subscribed 't 's | Unsubscribed 't

text \<open>
  What a history of subscriptions promises for a type: the subscribers that were registered
  for it since it was last unsubscribed, in their order.
\<close>

fun after_event :: "'t \<Rightarrow> 's list \<Rightarrow> ('t, 's) registration \<Rightarrow> 's list" where
  "after_event t ss (Subscribed u s) = (if u = t then ss @ [s] else ss)"
| "after_event t ss (Unsubscribed u) = (if u = t then [] else ss)"

definition registered :: "'t \<Rightarrow> ('t, 's) registration list \<Rightarrow> 's list" where
  "registered t es = foldl (after_event t) [] es"

lemma registered_simps [simp]:
  "registered t [] = []"
  "registered t (es @ [e]) = after_event t (registered t es) e"
  by (simp_all add: registered_def)

text \<open>\<open>by_read y p\<close> is the type publish \<open>p\<close> is about and the history when it read the map.\<close>

record ('t, 's) bus_sys =
  by_bus :: "('t, 's) bus"
  by_pub :: "nat \<Rightarrow> 's publish"
  by_slots :: "nat list"
  by_log :: "(nat \<times> 's) list"
  by_events :: "('t, 's) registration list"
  by_read :: "nat \<Rightarrow> ('t \<times> ('t, 's) registration list) option"

inductive bus_step :: "('t, 's) bus_sys \<Rightarrow> ('t, 's) bus_sys \<Rightarrow> bool" where
  subscribes:
    "bus_Subscribe t (Some s) (by_bus y) = Ret b \<Longrightarrow>
     bus_step y (y\<lparr>by_bus := b, by_events := by_events y @ [Subscribed t s]\<rparr>)"
| unsubscribes:
    "bus_step y
       (y\<lparr>by_bus := bus_Unsubscribe t (by_bus y), by_events := by_events y @ [Unsubscribed t]\<rparr>)"
| publish_reads:
    "by_pub y p = NotCalled \<Longrightarrow> bus_subscribers name t (by_bus y) = Ret subs \<Longrightarrow>
     bus_step y
       (y\<lparr>by_pub := (by_pub y)(p := Waiting subs), by_read := (by_read y)(p \<mapsto> (t, by_events y))\<rparr>)"
| publish_panics:
    "by_pub y p = NotCalled \<Longrightarrow> bus_subscribers name t (by_bus y) = Panic m \<Longrightarrow>
     bus_step y
       (y\<lparr>by_pub := (by_pub y)(p := Panicked), by_read := (by_read y)(p \<mapsto> (t, by_events y))\<rparr>)"
| publish_acquires:
    "by_pub y p = Waiting subs \<Longrightarrow> (s', None) \<in> set (sem_Acquire c (bus_sem (by_bus y))) \<Longrightarrow>
     bus_step y
       (y\<lparr>by_bus := (by_bus y)\<lparr>bus_sem := s'\<rparr>, by_pub := (by_pub y)(p := Calling subs subs),
          by_slots := p # by_slots y\<rparr>)"
| publish_gives_up:
    "by_pub y p = Waiting subs \<Longrightarrow> (s', Some e) \<in> set (sem_Acquire c (bus_sem (by_bus y))) \<Longrightarrow>
     bus_step y (y\<lparr>by_bus := (by_bus y)\<lparr>bus_sem := s'\<rparr>, by_pub := (by_pub y)(p := GaveUp e)\<rparr>)"
| calls:
    "by_pub y p = Calling subs (s # rest) \<Longrightarrow>
     bus_step y
       (y\<lparr>by_pub := (by_pub y)(p := Calling subs rest), by_log := by_log y @ [(p, s)]\<rparr>)"
| releases:
    "by_pub y p = Calling subs [] \<Longrightarrow> sem_Release (bus_sem (by_bus y)) = Some s' \<Longrightarrow>
     bus_step y
       (y\<lparr>by_bus := (by_bus y)\<lparr>bus_sem := s'\<rparr>, by_pub := (by_pub y)(p := Finished subs),
          by_slots := remove1 p (by_slots y)\<rparr>)"

definition bus_start :: "int \<Rightarrow> ('t, 's) bus_sys \<Rightarrow> bool" where
  "bus_start n y \<longleftrightarrow>
     y = \<lparr>by_bus = NewBus n, by_pub = (\<lambda>_. NotCalled), by_slots = [], by_log = [],
          by_events = [], by_read = Map.empty\<rparr>"

text \<open>The slots of a bus in use are a semaphore in use.\<close>

definition sem_view :: "('t, 's) bus_sys \<Rightarrow> sem_sys" where
  "sem_view y = \<lparr>ss_sem = bus_sem (by_bus y), ss_holders = by_slots y\<rparr>"

definition called :: "nat \<Rightarrow> ('t, 's) bus_sys \<Rightarrow> 's list" where
  "called p y = map snd (filter (\<lambda>e. fst e = p) (by_log y))"

fun publish_ok :: "'s publish \<Rightarrow> 's list \<Rightarrow> bool \<Rightarrow> bool" where
  "publish_ok (Calling subs rest) cs slot \<longleftrightarrow> cs @ rest = subs \<and> slot"
| "publish_ok (Finished subs) cs slot \<longleftrightarrow> cs = subs \<and> \<not> slot"
| "publish_ok p cs slot \<longleftrightarrow> cs = [] \<and> \<not> slot"

text \<open>The snapshot a publish works on, and what it is to be.\<close>

fun snapshot_ok :: "('t \<times> ('t, 's) registration list) option \<Rightarrow> 's publish \<Rightarrow> bool" where
  "snapshot_ok None st \<longleftrightarrow> st = NotCalled"
| "snapshot_ok (Some (t, es)) st \<longleftrightarrow>
     (case st of
        NotCalled \<Rightarrow> False
      | Panicked \<Rightarrow> registered t es = []
      | GaveUp e \<Rightarrow> registered t es \<noteq> []
      | Waiting subs \<Rightarrow> subs = registered t es \<and> subs \<noteq> []
      | Calling subs rest \<Rightarrow> subs = registered t es \<and> subs \<noteq> []
      | Finished subs \<Rightarrow> subs = registered t es \<and> subs \<noteq> [])"

definition registry_ok :: "('t, 's) bus_sys \<Rightarrow> bool" where
  "registry_ok y \<longleftrightarrow>
     gm_inv (bus_m (by_bus y)) \<and>
     (\<forall>t. gm_slice (bus_m (by_bus y)) t = registered t (by_events y)) \<and>
     (\<forall>p. snapshot_ok (by_read y p) (by_pub y p)) \<and>
     (\<forall>p t es. by_read y p = Some (t, es) \<longrightarrow> prefix es (by_events y))"

definition bus_inv :: "int \<Rightarrow> ('t, 's) bus_sys \<Rightarrow> bool" where
  "bus_inv n y \<longleftrightarrow>
     sem_inv n (sem_view y) \<and> distinct (by_slots y) \<and> registry_ok y \<and>
     (\<forall>p. publish_ok (by_pub y p) (called p y) (p \<in> set (by_slots y)))"

lemma subscribe_sem: "bus_Subscribe t s b = Ret b' \<Longrightarrow> bus_sem b' = bus_sem b"
  by (auto simp: bus_Subscribe_def go_bind_eq_Ret split: option.splits)

lemma bus_step_sem:
  assumes "bus_inv n y" and "bus_step y z"
  shows "sem_view z = sem_view y \<or> sem_step (sem_view y) (sem_view z)"
  using assms(2)
proof cases
  case (publish_acquires p subs s' c)
  then show ?thesis using acquired [of s' c "sem_view y" p] by (simp add: sem_view_def)
next
  case (publish_gives_up p subs s' e c)
  then show ?thesis using acquire_failed [of s' e c "sem_view y"] by (simp add: sem_view_def)
next
  case (releases p subs s')
  have "publish_ok (by_pub y p) (called p y) (p \<in> set (by_slots y))"
    using assms(1) by (simp add: bus_inv_def)
  then show ?thesis
    using releases released [of p "sem_view y" s'] by (simp add: sem_view_def)
qed (auto simp: sem_view_def subscribe_sem bus_Unsubscribe_def)

lemma called_other: "p \<noteq> q \<Longrightarrow> called q (y\<lparr>by_pub := f, by_log := by_log y @ [(p, s)]\<rparr>) = called q y"
  by (simp add: called_def)

lemma bus_step_publishes:
  assumes "bus_inv n y" and "bus_step y z"
  shows "distinct (by_slots z) \<and>
    (\<forall>p. publish_ok (by_pub z p) (called p z) (p \<in> set (by_slots z)))"
proof -
  have ok: "publish_ok (by_pub y p) (called p y) (p \<in> set (by_slots y))" for p
    using assms(1) by (simp add: bus_inv_def)
  have distinct: "distinct (by_slots y)"
    using assms(1) by (simp add: bus_inv_def)
  show ?thesis
    using assms(2)
  proof cases
    case (publish_acquires p subs s' c)
    then show ?thesis using ok ok [of p] distinct by (auto simp: called_def)
  next
    case (publish_gives_up p subs s' e c)
    then show ?thesis using ok ok [of p] distinct by (auto simp: called_def)
  next
    case (publish_reads p name t subs)
    then show ?thesis using ok ok [of p] distinct by (auto simp: called_def)
  next
    case (publish_panics p name t m)
    then show ?thesis using ok ok [of p] distinct by (auto simp: called_def)
  next
    case (calls p subs s rest)
    then show ?thesis using ok ok [of p] distinct by (auto simp: called_def)
  next
    case (releases p subs s')
    then show ?thesis using ok ok [of p] distinct by (auto simp: called_def)
  qed (use ok distinct in \<open>auto simp: called_def\<close>)
qed

lemma subscribe_registry:
  assumes "gm_inv (bus_m b)" and "bus_Subscribe t (Some s) b = Ret b'"
  shows "gm_inv (bus_m b') \<and> gm_slice (bus_m b') = (gm_slice (bus_m b))(t := gm_slice (bus_m b) t @ [s])"
proof -
  obtain m where m: "gm_assign t (gm_slice (bus_m b) t @ [s]) (bus_m b) = Ret m" "gm_inv m"
      "gm_slice m = (gm_slice (bus_m b))(t := gm_slice (bus_m b) t @ [s])"
    by (rule gm_append_ok [OF assms(1)])
  then have "b' = b\<lparr>bus_m := m\<rparr>"
    using assms(2) by (simp add: bus_Subscribe_def)
  then show ?thesis
    using m by simp
qed

lemma subscribers_read:
  "bus_subscribers name t b = Ret subs \<Longrightarrow> subs = gm_slice (bus_m b) t \<and> subs \<noteq> []"
  "bus_subscribers name t b = Panic m \<Longrightarrow> gm_slice (bus_m b) t = []"
  by (auto simp: bus_subscribers_def Let_def split: if_splits)

lemma bus_step_registry:
  assumes "bus_inv n y" and "bus_step y z"
  shows "registry_ok z"
proof -
  have ok: "registry_ok y"
    using assms(1) by (simp add: bus_inv_def)
  then have read: "snapshot_ok (by_read y p) (by_pub y p)" for p
    by (simp add: registry_ok_def)
  show ?thesis
    using assms(2)
  proof cases
    case (subscribes t s b)
    then show ?thesis
      using ok subscribe_registry [of "by_bus y" t s b]
      by (auto simp: registry_ok_def intro: prefix_order.trans)
  next
    case (unsubscribes t)
    then show ?thesis
      using ok by (auto simp: registry_ok_def bus_Unsubscribe_def)
  next
    case (publish_reads p name t subs)
    then show ?thesis
      using ok subscribers_read(1) [of name t "by_bus y" subs] by (auto simp: registry_ok_def)
  next
    case (publish_panics p name t m)
    then show ?thesis
      using ok subscribers_read(2) [of name t "by_bus y" m] by (auto simp: registry_ok_def)
  next
    case (publish_acquires p subs s' c)
    then show ?thesis
      using ok read [of p] by (cases "by_read y p") (auto simp: registry_ok_def)
  next
    case (publish_gives_up p subs s' e c)
    then show ?thesis
      using ok read [of p] by (cases "by_read y p") (auto simp: registry_ok_def)
  next
    case (calls p subs s rest)
    then show ?thesis
      using ok read [of p] by (cases "by_read y p") (auto simp: registry_ok_def)
  next
    case (releases p subs s')
    then show ?thesis
      using ok read [of p] by (cases "by_read y p") (auto simp: registry_ok_def)
  qed
qed

lemma bus_step_inv: "bus_inv n y \<Longrightarrow> bus_step y z \<Longrightarrow> bus_inv n z"
  using bus_step_sem [of n y z] bus_step_publishes [of n y z]
    bus_step_registry [of n y z] sem_step_inv [of n "sem_view y"]
  by (auto simp: bus_inv_def)

interpretation bus: inductive_invariant "bus_start n" bus_step "bus_inv n" for n
proof
  show "bus_inv n y" if "bus_start n y" for y :: "('t, 's) bus_sys"
  proof -
    have "sem_inv n (sem_view y)"
      using that by (intro semaphore.inv_start)
        (simp add: bus_start_def sem_start_def sem_view_def NewBus_def)
    then show ?thesis
      using that by (auto simp: bus_start_def bus_inv_def called_def registry_ok_def NewBus_def)
  qed
qed (rule bus_step_inv)

section \<open>Properties\<close>

text \<open>
  C31: However publishes, subscriptions and unsubscriptions interleave, the bus holds for each
  type the subscribers registered for it since it was last unsubscribed, in their order, and
  \<open>Subscribe\<close> with a non-nil subscriber never panics. A publish works on what was
  registered for its type when it started, whatever was registered or removed since: it
  panicked if that was nothing, and otherwise calls exactly those subscribers, in their order
  and each once. What it has called followed by what is left is that snapshot, a finished one
  has called all of it, one that gave up or panicked has called none. At most the maximum
  concurrency of publishes call subscribers at a time; each of these holds a slot, which it
  can always release, and a finished one holds none.
\<close>

theorem bus_delivers_snapshot:
  assumes "reach (bus_start n) bus_step y"
  shows "(\<forall>t. gm_slice (bus_m (by_bus y)) t = registered t (by_events y)) \<and>
    (\<forall>t s. \<exists>b. bus_Subscribe t (Some s) (by_bus y) = Ret b) \<and>
    length (by_slots y) \<le> sem_size n \<and>
    (\<forall>p. by_read y p = None \<longrightarrow> by_pub y p = NotCalled \<and> called p y = []) \<and>
    (\<forall>p t es. by_read y p = Some (t, es) \<longrightarrow> prefix es (by_events y) \<and>
       (case by_pub y p of
          NotCalled \<Rightarrow> False
        | Panicked \<Rightarrow> registered t es = [] \<and> called p y = []
        | Waiting subs \<Rightarrow> registered t es = subs \<and> subs \<noteq> [] \<and> called p y = []
        | GaveUp e \<Rightarrow> registered t es \<noteq> [] \<and> called p y = []
        | Calling subs rest \<Rightarrow>
            registered t es = called p y @ rest \<and> p \<in> set (by_slots y) \<and>
            sem_Release (bus_sem (by_bus y)) \<noteq> None
        | Finished subs \<Rightarrow> registered t es = called p y \<and> called p y \<noteq> [] \<and> p \<notin> set (by_slots y)))"
proof -
  have inv: "bus_inv n y"
    by (rule bus.reach_inv [OF assms])
  then have ok: "publish_ok (by_pub y p) (called p y) (p \<in> set (by_slots y))" for p
    by (simp add: bus_inv_def)
  have registry: "registry_ok y"
    using inv by (simp add: bus_inv_def)
  then have read: "snapshot_ok (by_read y p) (by_pub y p)" for p
    by (simp add: registry_ok_def)
  have sem: "length (by_slots y) \<le> sem_size n"
    "length (ch_buf (sem_ch (bus_sem (by_bus y)))) = length (by_slots y)"
    using inv by (auto simp: bus_inv_def sem_inv_def sem_view_def chan_wf_def Let_def)
  have release: "sem_Release (bus_sem (by_bus y)) \<noteq> None" if "p \<in> set (by_slots y)" for p
    using that sem(2) by (auto simp: sem_Release_def chan_recv_def split: list.splits)
  have subscribe: "\<exists>b. bus_Subscribe t (Some s) (by_bus y) = Ret b" for t s
    using registry gm_append_ok [of "bus_m (by_bus y)" t s]
    by (fastforce simp: registry_ok_def bus_Subscribe_def)
  have idle: "by_pub y p = NotCalled \<and> called p y = []" if "by_read y p = None" for p
    using ok [of p] read [of p] that by simp
  have "prefix es (by_events y)" if "by_read y p = Some (t, es)" for p t es
    using registry that by (auto simp: registry_ok_def)
  moreover have "case by_pub y p of
          NotCalled \<Rightarrow> False
        | Panicked \<Rightarrow> registered t es = [] \<and> called p y = []
        | Waiting subs \<Rightarrow> registered t es = subs \<and> subs \<noteq> [] \<and> called p y = []
        | GaveUp e \<Rightarrow> registered t es \<noteq> [] \<and> called p y = []
        | Calling subs rest \<Rightarrow>
            registered t es = called p y @ rest \<and> p \<in> set (by_slots y) \<and>
            sem_Release (bus_sem (by_bus y)) \<noteq> None
        | Finished subs \<Rightarrow> registered t es = called p y \<and> called p y \<noteq> [] \<and> p \<notin> set (by_slots y)"
    if "by_read y p = Some (t, es)" for p t es
    using ok [of p] read [of p] release [of p] that by (cases "by_pub y p") simp_all
  moreover have "\<forall>t. gm_slice (bus_m (by_bus y)) t = registered t (by_events y)"
    using registry by (simp add: registry_ok_def)
  ultimately show ?thesis
    using sem(1) subscribe idle by simp
qed

text \<open>
  The publish keeps its snapshot when its type is unsubscribed before it has called anyone.
\<close>

lemma bus_delivers_snapshot_witness:
  "\<exists>y :: (nat, string) bus_sys. reach (bus_start 1) bus_step y \<and>
     by_events y = [Subscribed 3 ''s'', Unsubscribed 3] \<and>
     by_pub y 5 = Calling [''s''] [''s''] \<and> called 5 y @ [''s''] = [''s''] \<and>
     gm_slice (bus_m (by_bus y)) 3 = []"
proof -
  define a :: "(nat, string) bus_sys" where
    "a = \<lparr>by_bus = NewBus 1, by_pub = (\<lambda>_. NotCalled), by_slots = [], by_log = [],
       by_events = [], by_read = Map.empty\<rparr>"
  define b where "b = a\<lparr>by_bus := (by_bus a)\<lparr>bus_m := Some [(3, [''s''])]\<rparr>,
    by_events := by_events a @ [Subscribed 3 ''s'']\<rparr>"
  define c where "c = b\<lparr>by_pub := (by_pub b)(5 := Waiting [''s'']),
    by_read := (by_read b)(5 \<mapsto> (3, by_events b))\<rparr>"
  define d where "d = c\<lparr>by_bus := (by_bus c)
      \<lparr>bus_sem := \<lparr>sem_ch = \<lparr>ch_cap = 1, ch_buf = [()], ch_closed = False\<rparr>\<rparr>\<rparr>,
    by_pub := (by_pub c)(5 := Calling [''s''] [''s'']), by_slots := 5 # by_slots c\<rparr>"
  define y where "y = d\<lparr>by_bus := bus_Unsubscribe 3 (by_bus d),
    by_events := by_events d @ [Unsubscribed 3]\<rparr>"
  note defs = a_def b_def c_def d_def y_def
  have a: "reach (bus_start 1) bus_step a"
    by (rule reach_start) (simp add: a_def bus_start_def)
  have ab: "bus_step a b"
    unfolding b_def by (rule subscribes [of 3 "''s''"])
      (simp add: a_def bus_Subscribe_def NewBus_def gm_assign_def gm_make_def gm_slice_def gm_get_def
        gm_entries_def)
  have bc: "bus_step b c"
    unfolding c_def by (rule publish_reads [of _ _ "''int''" 3])
      (simp_all add: defs bus_subscribers_def gm_slice_def gm_get_def gm_entries_def Let_def)
  have cd: "bus_step c d"
    unfolding d_def by (rule publish_acquires [of _ _ _ _ live_ctx])
      (simp_all add: defs sem_Acquire_def NewBus_def NewSemaphore_def chan_make_def chan_send_def)
  have dy: "bus_step d y"
    unfolding y_def by (rule unsubscribes)
  have y: "reach (bus_start 1) bus_step y"
    by (rule reach_step [OF reach_step [OF reach_step [OF reach_step [OF a ab] bc] cd] dy])
  have facts: "by_events y = [Subscribed 3 ''s'', Unsubscribed 3]"
    "by_pub y 5 = Calling [''s''] [''s'']" "by_read y 5 = Some (3, [Subscribed 3 ''s''])"
    by (simp_all add: defs)
  have registered: "registered (3 :: nat) [Subscribed 3 ''s''] = [''s'']"
    "registered (3 :: nat) [Subscribed 3 ''s'', Unsubscribed 3] = []"
    by (simp_all add: registered_def)
  note now = bus_delivers_snapshot [OF y]
  have slice: "gm_slice (bus_m (by_bus y)) 3 = []"
    using spec [OF now [THEN conjunct1], of 3] unfolding facts(1) registered(2) .
  have "registered (3 :: nat) [Subscribed 3 ''s''] = called 5 y @ [''s'']"
    using now [THEN conjunct2, THEN conjunct2, THEN conjunct2, THEN conjunct2, THEN spec,
        THEN spec, THEN spec, THEN mp, OF facts(3), THEN conjunct2]
    unfolding facts(2) publish.case by (rule conjunct1)
  then have called: "called 5 y @ [''s''] = [''s'']"
    unfolding registered(1) by (rule sym)
  show ?thesis
    by (intro exI conjI) (rule y facts(1,2) called slice)+
qed

end
