(* ===== verification/Gx_Throttler.thy ===== *)
theory Gx_Throttler imports Gx_Prelude begin

text \<open>
  \<open>throttler.go\<close>: at most one run per interval. Times are nanoseconds, the zero
  \<open>time.Time\<close> is 0. \<open>now\<close> is read before the mutex is taken, so concurrent callers may
  enter the critical section with times out of order; a history is the list of those
  times in the order of the critical sections.
\<close>

section \<open>Operations\<close>

text \<open>\<open>Time.Sub\<close> saturates at the bounds of a \<open>Duration\<close>.\<close>

definition time_Sub :: "int \<Rightarrow> int \<Rightarrow> int" where
  "time_Sub t u = max (- (2 ^ 63)) (min (2 ^ 63 - 1) (t - u))"

record throttler =
  th_interval :: int
  th_lastRun :: int

definition NewThrottler :: "int \<Rightarrow> throttler" where
  "NewThrottler interval = \<lparr>th_interval = interval, th_lastRun = 0\<rparr>"

definition throttler_Allow :: "int \<Rightarrow> throttler \<Rightarrow> throttler \<times> bool" where
  "throttler_Allow now t =
     (if th_lastRun t \<noteq> 0 \<and> time_Sub now (th_lastRun t) < th_interval t then (t, False)
      else (t\<lparr>th_lastRun := now\<rparr>, True))"

text \<open>\<open>Do\<close>, with the function as a change of the world \<open>w\<close>.\<close>

definition throttler_Do :: "int \<Rightarrow> ('w \<Rightarrow> 'w) \<Rightarrow> throttler \<times> 'w \<Rightarrow> (throttler \<times> 'w) \<times> bool" where
  "throttler_Do now fn tw =
     (case throttler_Allow now (fst tw) of
        (t, ok) \<Rightarrow> if ok then ((t, fn (snd tw)), True) else ((t, snd tw), False))"

section \<open>Histories\<close>

text \<open>The times at which the function ran; it records its own time.\<close>

fun throttled :: "int list \<Rightarrow> throttler \<times> int list \<Rightarrow> throttler \<times> int list" where
  "throttled [] tw = tw"
| "throttled (now # ts) tw = throttled ts (fst (throttler_Do now (\<lambda>runs. runs @ [now]) tw))"

lemma time_Sub_small: "0 < t \<Longrightarrow> t < 2 ^ 63 \<Longrightarrow> 0 < u \<Longrightarrow> u < 2 ^ 63 \<Longrightarrow> time_Sub t u = t - u"
  by (simp add: time_Sub_def)

definition spaced :: "int \<Rightarrow> int list \<Rightarrow> bool" where
  "spaced d runs \<longleftrightarrow> (\<forall>i. Suc i < length runs \<longrightarrow> d \<le> runs ! Suc i - runs ! i)"

lemma spaced_Nil [simp]: "spaced d []"
  by (simp add: spaced_def)

lemma spaced_snoc:
  "spaced d (runs @ [t]) \<longleftrightarrow> spaced d runs \<and> (runs = [] \<or> d \<le> t - last runs)"
proof (cases runs rule: rev_cases)
  case (snoc ys y)
  then show ?thesis
    by (auto simp: spaced_def nth_append less_Suc_eq split: if_splits)
qed (simp add: spaced_def)

text \<open>The last run is the recorded one, and the runs are spaced.\<close>

definition throttler_inv :: "int \<Rightarrow> throttler \<times> int list \<Rightarrow> bool" where
  "throttler_inv d tw \<longleftrightarrow>
     (case tw of (t, runs) \<Rightarrow>
        th_interval t = d \<and> spaced d runs \<and> set runs \<subseteq> {0 <..< 2 ^ 63} \<and>
        th_lastRun t = (if runs = [] then 0 else last runs))"

lemma throttler_Do_inv:
  assumes "throttler_inv d tw" and "0 < now" "now < 2 ^ 63"
  shows "throttler_inv d (fst (throttler_Do now (\<lambda>runs. runs @ [now]) tw))"
proof -
  obtain t runs where tw: "tw = (t, runs)" by (cases tw)
  have "last runs \<in> {0 <..< 2 ^ 63}" if "runs \<noteq> []"
    by (rule last_in_subset [OF _ that]) (use assms(1) in \<open>simp add: throttler_inv_def tw\<close>)
  then show ?thesis
    using assms by (auto simp: throttler_inv_def tw throttler_Do_def throttler_Allow_def
        spaced_snoc time_Sub_small split: if_splits)
qed

lemma throttled_inv:
  "throttler_inv d tw \<Longrightarrow> set ts \<subseteq> {0 <..< 2 ^ 63} \<Longrightarrow> throttler_inv d (throttled ts tw)"
  by (induction ts arbitrary: tw) (simp_all add: throttler_Do_inv)

lemma throttled_snoc:
  "throttled (ts @ [t]) tw = fst (throttler_Do t (\<lambda>runs. runs @ [t]) (throttled ts tw))"
  by (induction ts arbitrary: tw) simp_all

lemma throttled_runs: "set (snd (throttled ts (NewThrottler d, []))) \<subseteq> set ts"
  by (induction ts rule: rev_induct)
    (auto simp: throttled_snoc throttler_Do_def split: prod.splits if_splits)

section \<open>Properties\<close>

text \<open>
  In every history, consecutive runs are at least the interval apart, whatever the order
  in which concurrent callers get the mutex; the next call at \<open>now\<close> is refused exactly when
  something ran before and less than the interval has passed since the last run.
\<close>

theorem throttler_spacing:
  assumes "set ts \<subseteq> {0 <..< 2 ^ 63}" and "0 < now" and "now < 2 ^ 63"
    and "throttled ts (NewThrottler d, []) = (t, runs)"
  shows "(\<forall>i. Suc i < length runs \<longrightarrow> d \<le> runs ! Suc i - runs ! i) \<and>
    set runs \<subseteq> set ts \<and>
    throttler_Do now fn (t, w) =
      (if runs \<noteq> [] \<and> now - last runs < d then ((t, w), False)
       else ((t\<lparr>th_lastRun := now\<rparr>, fn w), True))"
proof -
  have inv: "throttler_inv d (t, runs)"
    using throttled_inv [of d "(NewThrottler d, [])" ts] assms(1,4)
    by (simp add: throttler_inv_def NewThrottler_def spaced_def)
  then have "last runs \<in> {0 <..< 2 ^ 63}" if "runs \<noteq> []"
    by (intro last_in_subset [OF _ that]) (simp add: throttler_inv_def)
  then show ?thesis
    using inv assms(2,3) throttled_runs [of ts d] assms(4)
    by (auto simp: throttler_inv_def spaced_def throttler_Do_def throttler_Allow_def time_Sub_small)
qed

lemma throttler_spacing_witness:
  "\<exists>t runs. throttled [5, 9, 12, 15, 30] (NewThrottler 10, []) = (t, runs) \<and> runs = [5, 15, 30] \<and>
     throttler_Do 35 (\<lambda>w. w + 1) (t, 0 :: nat) = ((t, 0), False)"
proof -
  have run: "throttled [5, 9, 12, 15, 30] (NewThrottler 10, []) = (\<lparr>th_interval = 10, th_lastRun = 30\<rparr>, [5, 15, 30])"
    by (simp add: throttler_Do_def throttler_Allow_def NewThrottler_def time_Sub_def)
  show ?thesis
    using throttler_spacing [OF _ _ _ run, of 35 "\<lambda>w. w + 1" "0 :: nat"] run by simp
qed

text \<open>
  A non-positive interval disables throttling as long as the times are read in the order
  in which callers enter the critical section: then every call runs.
\<close>

theorem throttler_disabled:
  assumes "d \<le> 0" and "sorted ts" and "set ts \<subseteq> {0 <..< 2 ^ 63}"
  shows "snd (throttled ts (NewThrottler d, [])) = ts"
  using assms(2,3)
proof (induction ts rule: rev_induct)
  case (snoc t ts)
  obtain th runs where eq: "throttled ts (NewThrottler d, []) = (th, runs)"
    by (cases "throttled ts (NewThrottler d, [])")
  have runs: "runs = ts"
    using snoc eq by (simp add: sorted_append)
  have inv: "throttler_inv d (th, ts)"
    using throttled_inv [of d "(NewThrottler d, [])" ts] snoc.prems eq runs
    by (simp add: throttler_inv_def NewThrottler_def spaced_def)
  have "last ts \<in> {0 <..< 2 ^ 63} \<inter> {..t}" if "ts \<noteq> []"
    by (rule last_in_subset [OF _ that]) (use snoc.prems in \<open>auto simp: sorted_append\<close>)
  then show ?case
    using inv snoc.prems assms(1)
    by (auto simp: throttled_snoc eq runs throttler_inv_def throttler_Do_def throttler_Allow_def
        time_Sub_small)
qed simp

lemma throttler_disabled_witness:
  "snd (throttled [3, 3, 4] (NewThrottler 0, [])) = [3, 3, 4]"
  by (rule throttler_disabled) simp_all

text \<open>Out of order it does not: a caller whose time is older than the last run is refused.\<close>

lemma throttler_zero_interval_refuses:
  "snd (throttler_Allow 9 (fst (throttler_Allow 10 (NewThrottler 0)))) = False"
  by (simp add: throttler_Allow_def NewThrottler_def time_Sub_def)

end
