(* ===== verification/Gx_Debouncer.thy ===== *)
theory Gx_Debouncer imports Gx_Prelude begin

text \<open>
  \<open>debouncer.go\<close>: a function runs when no new call arrives for the delay. The timers of
  \<open>time.AfterFunc\<close> live in \<open>ds_timers\<close>: each has an identity, the earliest time it may fire
  and its function; a stopped or fired timer leaves the list. The history \<open>ds_log\<close> is for
  the statements only. Functions are named, they run in goroutines of their own.
\<close>

section \<open>Operations\<close>

record debouncer =
  db_delay :: int
  db_timer :: "nat option"

definition NewDebouncer :: "int \<Rightarrow> debouncer" where
  "NewDebouncer delay = \<lparr>db_delay = (if delay \<le> 0 then 10 * 1000000 else delay), db_timer = None\<rparr>"

datatype 'f db_event = DoCalled 'f int | CancelCalled | Fired 'f int

record 'f timer =
  tm_id :: nat
  tm_due :: int
  tm_fn :: 'f

record 'f db_sys =
  ds_db :: debouncer
  ds_now :: int
  ds_timers :: "'f timer list"
  ds_next :: nat
  ds_log :: "'f db_event list"

definition timer_Stop :: "nat \<Rightarrow> 'f timer list \<Rightarrow> 'f timer list" where
  "timer_Stop i ts = filter (\<lambda>t. tm_id t \<noteq> i) ts"

definition debouncer_Cancel :: "'f db_sys \<Rightarrow> 'f db_sys" where
  "debouncer_Cancel y =
     (case db_timer (ds_db y) of
        None \<Rightarrow> y
      | Some i \<Rightarrow> y\<lparr>ds_timers := timer_Stop i (ds_timers y), ds_db := (ds_db y)\<lparr>db_timer := None\<rparr>\<rparr>)"

definition debouncer_Do :: "'f \<Rightarrow> 'f db_sys \<Rightarrow> 'f db_sys" where
  "debouncer_Do fn y =
     (let ts = (case db_timer (ds_db y) of None \<Rightarrow> ds_timers y | Some i \<Rightarrow> timer_Stop i (ds_timers y));
          t = \<lparr>tm_id = ds_next y, tm_due = ds_now y + db_delay (ds_db y), tm_fn = fn\<rparr>
      in y\<lparr>ds_timers := t # ts, ds_next := Suc (ds_next y),
           ds_db := (ds_db y)\<lparr>db_timer := Some (ds_next y)\<rparr>\<rparr>)"

section \<open>Callers, the clock and the timers\<close>

definition logged :: "'f db_event \<Rightarrow> 'f db_sys \<Rightarrow> 'f db_sys" where
  "logged e y = y\<lparr>ds_log := ds_log y @ [e]\<rparr>"

inductive db_step :: "'f db_sys \<Rightarrow> 'f db_sys \<Rightarrow> bool" where
  does: "db_step y (logged (DoCalled fn (ds_now y)) (debouncer_Do fn y))"
| cancels: "db_step y (logged CancelCalled (debouncer_Cancel y))"
| time_passes: "0 \<le> dt \<Longrightarrow> db_step y (y\<lparr>ds_now := ds_now y + dt\<rparr>)"
| fires:
    "t \<in> set (ds_timers y) \<Longrightarrow> tm_due t \<le> ds_now y \<Longrightarrow>
     db_step y (logged (Fired (tm_fn t) (ds_now y))
       (y\<lparr>ds_timers := timer_Stop (tm_id t) (ds_timers y)\<rparr>))"

inductive_cases db_stepE: "db_step y z"

definition db_start :: "int \<Rightarrow> 'f db_sys \<Rightarrow> bool" where
  "db_start delay y \<longleftrightarrow>
     ds_db y = NewDebouncer delay \<and> ds_timers y = [] \<and> ds_next y = 0 \<and> ds_log y = []"

definition real_delay :: "int \<Rightarrow> int" where
  "real_delay delay = (if delay \<le> 0 then 10000000 else delay)"

text \<open>
  The only timer that can be pending is the debouncer's, and it is the last event's. Every
  firing in the log comes right after its call, at least the delay later.
\<close>

definition fired_ok :: "int \<Rightarrow> 'f db_event list \<Rightarrow> bool" where
  "fired_ok delay evs \<longleftrightarrow>
     (\<forall>pre f t post. evs = pre @ Fired f t # post \<longrightarrow>
        (\<exists>pre' s. pre = pre' @ [DoCalled f s] \<and> s + real_delay delay \<le> t))"

definition db_inv :: "int \<Rightarrow> 'f db_sys \<Rightarrow> bool" where
  "db_inv delay y \<longleftrightarrow>
     db_delay (ds_db y) = real_delay delay \<and> fired_ok delay (ds_log y) \<and>
     (case ds_timers y of
        [] \<Rightarrow> (\<forall>pre f s. ds_log y \<noteq> pre @ [DoCalled f s])
      | t # ts \<Rightarrow> ts = [] \<and> db_timer (ds_db y) = Some (tm_id t) \<and>
          (\<exists>pre s. ds_log y = pre @ [DoCalled (tm_fn t) s] \<and> tm_due t = s + real_delay delay))"

lemma fired_ok_snoc:
  "fired_ok delay (evs @ [e]) \<longleftrightarrow>
     fired_ok delay evs \<and>
     (\<forall>f t. e = Fired f t \<longrightarrow> (\<exists>pre s. evs = pre @ [DoCalled f s] \<and> s + real_delay delay \<le> t))"
proof -
  have "(evs @ [e] = pre @ Fired f t # post) =
    ((post = [] \<and> evs = pre \<and> e = Fired f t) \<or>
     (\<exists>post'. post = post' @ [e] \<and> evs = pre @ Fired f t # post'))" for pre f t post
    by (cases post rule: rev_cases) auto
  then show ?thesis
    unfolding fired_ok_def by simp blast
qed

lemma db_step_inv: "db_inv delay y \<Longrightarrow> db_step y z \<Longrightarrow> db_inv delay z"
  by (elim db_stepE)
    (auto simp: db_inv_def logged_def fired_ok_snoc debouncer_Do_def debouncer_Cancel_def
      timer_Stop_def Let_def split: list.splits option.splits)

interpretation debouncer: inductive_invariant "db_start delay" db_step "db_inv delay" for delay
proof
  show "db_inv delay y" if "db_start delay y" for y :: "'f db_sys"
    using that by (auto simp: db_start_def db_inv_def NewDebouncer_def real_delay_def fired_ok_def)
qed (rule db_step_inv)

section \<open>Properties\<close>

text \<open>
  C32: In every history of calls, cancels, passing time and timers, a function runs only when
  its call is the latest event, at least the delay after that call (10 ms for a non-positive
  delay), and so at most once per call; a call that is superseded or canceled before its
  timer fires never runs; the latest call stays scheduled until then.
\<close>

theorem debouncer_fires_last_call:
  assumes "reach (db_start delay) db_step y"
  shows "(\<forall>pre f t post. ds_log y = pre @ Fired f t # post \<longrightarrow>
       (\<exists>pre' s. pre = pre' @ [DoCalled f s] \<and> s + real_delay delay \<le> t)) \<and>
    length (ds_timers y) \<le> 1 \<and>
    (\<forall>pre f s. ds_log y = pre @ [DoCalled f s] \<longrightarrow>
       (\<exists>t. ds_timers y = [t] \<and> tm_fn t = f \<and> tm_due t = s + real_delay delay))"
proof -
  have inv: "db_inv delay y"
    by (rule debouncer.reach_inv [OF assms])
  then have "\<exists>t. ds_timers y = [t] \<and> tm_fn t = f \<and> tm_due t = s + real_delay delay"
    if "ds_log y = pre @ [DoCalled f s]" for pre f s
    using that by (auto simp: db_inv_def split: list.splits)
  then show ?thesis
    using inv unfolding db_inv_def fired_ok_def by (auto split: list.splits)
qed

lemma debouncer_fires_last_call_witness:
  "\<exists>y. reach (db_start 5) db_step y \<and> ds_log y = [DoCalled ''a'' 0, DoCalled ''b'' 3] \<and>
     (\<exists>t. ds_timers y = [t] \<and> tm_fn t = ''b'' \<and> tm_due t = 8)"
proof -
  let ?s = "\<lparr>ds_db = NewDebouncer 5, ds_now = 0, ds_timers = [], ds_next = 0, ds_log = []\<rparr>
    :: string db_sys"
  let ?a = "logged (DoCalled ''a'' (ds_now ?s)) (debouncer_Do ''a'' ?s)"
  let ?b = "?a\<lparr>ds_now := ds_now ?a + 3\<rparr>"
  let ?c = "logged (DoCalled ''b'' (ds_now ?b)) (debouncer_Do ''b'' ?b)"
  have "reach (db_start 5) db_step ?s"
    by (rule reach_start) (simp add: db_start_def)
  moreover have "db_step ?s ?a" by (rule does)
  moreover have "db_step ?a ?b" by (rule time_passes) simp
  moreover have "db_step ?b ?c" by (rule does)
  ultimately have reach: "reach (db_start 5) db_step ?c"
    by (blast intro: reach_step)
  have log: "ds_log ?c = [DoCalled ''a'' 0] @ [DoCalled ''b'' 3]"
    by (simp add: logged_def debouncer_Do_def Let_def NewDebouncer_def)
  show ?thesis
    using debouncer_fires_last_call [OF reach] log reach
    by (intro exI [of _ ?c]) (auto simp: real_delay_def)
qed

end
