(* ===== verification/Gx_Store.thy ===== *)
theory Gx_Store imports Gx_GoMap begin

text \<open>
  The type-keyed store of \<open>runtime.go\<close>, which backs the dependencies of a \<open>Runtime\<close> and
  of its containers. A key is a \<open>reflect.Type\<close>; a stored \<open>any\<close> is nil (\<open>None\<close>) or a
  value, and \<open>asserts t v\<close> says whether the type assertion of \<open>v\<close> to \<open>t\<close> succeeds.
\<close>

section \<open>Operations\<close>

record ('t, 'v) store =
  st_m :: "('t, 'v option) gomap"

definition newStore :: "('t, 'v) store" where
  "newStore = \<lparr>st_m = gm_make\<rparr>"

definition store_get :: "'t \<Rightarrow> ('t, 'v) store \<Rightarrow> 'v option option" where
  "store_get t s = gm_get (st_m s) t"

definition store_set :: "'t \<Rightarrow> 'v option \<Rightarrow> ('t, 'v) store \<Rightarrow> (('t, 'v) store \<times> bool) go" where
  "store_set t v s =
     (let m = (if st_m s = None then gm_make else st_m s)
      in if gm_get m t \<noteq> None then Ret (s\<lparr>st_m := m\<rparr>, False)
         else go_bind (gm_assign t v m) (\<lambda>m'. Ret (s\<lparr>st_m := m'\<rparr>, True)))"

definition getValue :: "('t \<Rightarrow> 'v \<Rightarrow> bool) \<Rightarrow> 'v \<Rightarrow> 't \<Rightarrow> 'v option \<Rightarrow> 'v go" where
  "getValue asserts zero t value =
     (case value of
        None \<Rightarrow> Ret zero
      | Some v \<Rightarrow> if asserts t v then Ret v
                  else Panic ''gx: internal dependency type mismatch'')"

section \<open>Values are never replaced\<close>

text \<open>What \<open>Set[T]\<close> can pass: a value of the static type, nil if that is an interface.\<close>

definition well_typed :: "('t \<Rightarrow> 'v \<Rightarrow> bool) \<Rightarrow> 't \<Rightarrow> 'v option \<Rightarrow> bool" where
  "well_typed asserts t v \<longleftrightarrow> (\<forall>x. v = Some x \<longrightarrow> asserts t x)"

definition store_inv :: "('t \<Rightarrow> 'v \<Rightarrow> bool) \<Rightarrow> ('t, 'v) store \<Rightarrow> bool" where
  "store_inv asserts s \<longleftrightarrow>
     gm_inv (st_m s) \<and> (\<forall>t v. store_get t s = Some v \<longrightarrow> well_typed asserts t v)"

lemma store_inv_new [simp]: "store_inv asserts newStore" "store_get t newStore = None"
  by (simp_all add: store_inv_def newStore_def store_get_def)

text \<open>On a store made with \<open>newStore\<close>, \<open>set\<close> is the insert-if-absent of the map.\<close>

lemma store_set_put_new:
  "gm_inv (st_m s) \<Longrightarrow>
     store_set t v s =
       go_bind (go_map.put_new t v (st_m s)) (\<lambda>(m, ok). Ret (s\<lparr>st_m := m\<rparr>, ok))"
  by (cases "gm_assign t v (st_m s)")
    (auto simp: store_set_def go_map.put_new_def gm_inv_def Let_def split: option.splits)

lemma store_set_ok:
  assumes "store_inv asserts s" and "well_typed asserts t v"
  obtains s' where "store_set t v s = Ret (s', store_get t s = None)" "store_inv asserts s'"
    "(\<lambda>u. store_get u s') = (if store_get t s = None then (\<lambda>u. store_get u s)(t \<mapsto> v) else (\<lambda>u. store_get u s))"
proof -
  have inv: "gm_inv (st_m s)"
    using assms(1) by (simp add: store_inv_def)
  obtain m where m: "go_map.put_new t v (st_m s) = Ret (m, gm_get (st_m s) t = None)" "gm_inv m"
    "gm_get m = (if gm_get (st_m s) t = None then (gm_get (st_m s))(t \<mapsto> v) else gm_get (st_m s))"
    by (rule go_map.put_new_ok [OF inv])
  show ?thesis
    using m inv assms by (intro that [of "s\<lparr>st_m := m\<rparr>"])
      (auto simp: store_set_put_new store_get_def store_inv_def split: if_splits)
qed

text \<open>A lookup of a registered type gives a value of it, never a mismatch.\<close>

lemma getValue_ok:
  "store_inv asserts s \<Longrightarrow> store_get t s = Some v \<Longrightarrow>
     getValue asserts zero t v = Ret (case v of None \<Rightarrow> zero | Some x \<Rightarrow> x)"
  by (auto simp: store_inv_def well_typed_def getValue_def split: option.splits)

section \<open>Properties\<close>

text \<open>
  A dependency is registered once and for all. On a store with its invariant, which
  \<open>newStore\<close> has, \<open>set\<close> of a new type stores the value and reports success, \<open>set\<close> of a
  registered type changes nothing and reports failure; other types are untouched, and
  retrieving a registered type never panics on its type assertion.
\<close>

theorem store_set_once:
  assumes "store_inv asserts s" and "well_typed asserts t v"
  shows "\<exists>s'. store_set t v s = Ret (s', store_get t s = None) \<and> store_inv asserts s' \<and>
    store_get t s' = Some (case store_get t s of None \<Rightarrow> v | Some w \<Rightarrow> w) \<and>
    (\<forall>u. u \<noteq> t \<longrightarrow> store_get u s' = store_get u s) \<and>
    (\<forall>u w m. store_get u s' = Some w \<longrightarrow> getValue asserts zero u w \<noteq> Panic m)"
proof -
  obtain s' where s': "store_set t v s = Ret (s', store_get t s = None)" "store_inv asserts s'"
    "(\<lambda>u. store_get u s') = (if store_get t s = None then (\<lambda>u. store_get u s)(t \<mapsto> v) else (\<lambda>u. store_get u s))"
    by (rule store_set_ok [OF assms])
  have "store_get u s' = (if store_get t s = None \<and> u = t then Some v else store_get u s)" for u
    using fun_cong [OF s'(3), of u] by auto
  then show ?thesis
    using s'(1,2) getValue_ok [OF s'(2)] by (intro exI [of _ s']) (auto split: option.splits)
qed

lemma store_set_once_witness:
  "\<exists>s' :: (nat, int) store. store_set 3 (Some 5) newStore = Ret (s', True) \<and>
     store_get 3 s' = Some (Some 5)"
  using store_set_once [of "\<lambda>(t :: nat) (v :: int). 0 \<le> v" newStore 3 "Some 5" 0] by (auto simp: well_typed_def)

end
