(* ===== verification/Gx_Runtime_Data.thy ===== *)
theory Gx_Runtime_Data imports Gx_Store Gx_Runner begin

text \<open>
  The data of \<open>runtime.go\<close>: a \<open>Runtime\<close>, its containers and what can be called on them.
  Functions given to hooks and tasks are names, nil is \<open>None\<close>; a container pointer is its
  index in the attachment order. Each method is one critical section. The lifecycle methods
  that call hooks are split where they release the mutex; \<open>Gx_Runtime\<close> runs them. Logging
  has no effect on the state and is left out.
\<close>

section \<open>Options\<close>

datatype rt_state = RuntimeSetup | RuntimeInitializing | RuntimeRunning | RuntimeStopped

record run_options =
  ro_NoSignals :: bool
  ro_Signals :: "string list"
  ro_ShutdownTimeout :: int

definition runtimeDefaultShutdownTimeout :: int where
  "runtimeDefaultShutdownTimeout = 30 * 1000000000"

definition runOptions :: "run_options list \<Rightarrow> run_options" where
  "runOptions opts =
     (let options = \<lparr>ro_NoSignals = False, ro_Signals = [],
                     ro_ShutdownTimeout = runtimeDefaultShutdownTimeout\<rparr>
      in case opts of
           [] \<Rightarrow> options
         | o1 # _ \<Rightarrow> options\<lparr>ro_NoSignals := ro_NoSignals o1, ro_Signals := ro_Signals o1,
             ro_ShutdownTimeout := (if 0 < ro_ShutdownTimeout o1 then ro_ShutdownTimeout o1
                                    else ro_ShutdownTimeout options)\<rparr>)"

text \<open>The signals that end the context of a run.\<close>

definition runtime_signals :: "run_options \<Rightarrow> string list" where
  "runtime_signals opts =
     (if ro_NoSignals opts then []
      else if ro_Signals opts = [] then [''interrupt'', ''terminated'']
      else ro_Signals opts)"

section \<open>Containers\<close>

datatype ct_state =
    ContainerSetup
  | ContainerInitializing
  | ContainerInitialized
  | ContainerStarting
  | ContainerRunning
  | ContainerStopping
  | ContainerStopped

record 'h hook =
  hk_fn :: 'h
  hk_name :: string

record ('h, 't, 'v) container =
  ct_initFns :: "'h hook list"
  ct_name :: string
  ct_running :: "string list"
  ct_startFns :: "'h hook list"
  ct_state :: ct_state
  ct_stopFns :: "'h hook list"
  ct_stoppingFns :: "'h hook list"
  ct_store :: "('t, 'v) store"
  ct_tasks :: "'h hook list"
  ct_wg :: nat

definition NewContainer :: "string \<Rightarrow> ('h, 't, 'v) container" where
  "NewContainer name =
     \<lparr>ct_initFns = [], ct_name = name, ct_running = [], ct_startFns = [],
      ct_state = ContainerSetup, ct_stopFns = [], ct_stoppingFns = [], ct_store = newStore,
      ct_tasks = [], ct_wg = 0\<rparr>"

definition container_OnInit :: "string \<Rightarrow> 'h option \<Rightarrow> ('h, 't, 'v) container \<Rightarrow>
    ('h, 't, 'v) container go" where
  "container_OnInit name fn c =
     (if name = [] then Panic ''gx: empty container init name''
      else case fn of
        None \<Rightarrow> Panic ''gx: nil container init hook''
      | Some f \<Rightarrow>
          if ct_state c \<noteq> ContainerSetup
          then Panic (''gx: container init hook registered after initialization: '' @ ct_name c)
          else Ret (c\<lparr>ct_initFns := ct_initFns c @ [\<lparr>hk_fn = f, hk_name = name\<rparr>]\<rparr>))"

definition container_OnStart :: "string \<Rightarrow> 'h option \<Rightarrow> ('h, 't, 'v) container \<Rightarrow>
    ('h, 't, 'v) container go" where
  "container_OnStart name fn c =
     (if name = [] then Panic ''gx: empty container start name''
      else case fn of
        None \<Rightarrow> Panic ''gx: nil container start hook''
      | Some f \<Rightarrow>
          if ct_state c \<noteq> ContainerSetup \<and> ct_state c \<noteq> ContainerInitializing
          then Panic (''gx: container start hook registered after initialization: '' @ ct_name c)
          else Ret (c\<lparr>ct_startFns := ct_startFns c @ [\<lparr>hk_fn = f, hk_name = name\<rparr>]\<rparr>))"

definition container_OnStop :: "string \<Rightarrow> 'h option \<Rightarrow> ('h, 't, 'v) container \<Rightarrow>
    ('h, 't, 'v) container go" where
  "container_OnStop name fn c =
     (if name = [] then Panic ''gx: empty container stop name''
      else case fn of
        None \<Rightarrow> Panic ''gx: nil container stop hook''
      | Some f \<Rightarrow>
          if ct_state c \<noteq> ContainerSetup \<and> ct_state c \<noteq> ContainerInitializing
          then Panic (''gx: container stop hook registered after initialization: '' @ ct_name c)
          else Ret (c\<lparr>ct_stopFns := ct_stopFns c @ [\<lparr>hk_fn = f, hk_name = name\<rparr>]\<rparr>))"

definition container_OnStopping :: "string \<Rightarrow> 'h option \<Rightarrow> ('h, 't, 'v) container \<Rightarrow>
    ('h, 't, 'v) container go" where
  "container_OnStopping name fn c =
     (if name = [] then Panic ''gx: empty container stopping name''
      else case fn of
        None \<Rightarrow> Panic ''gx: nil container stopping hook''
      | Some f \<Rightarrow>
          if ct_state c \<noteq> ContainerSetup \<and> ct_state c \<noteq> ContainerInitializing
          then Panic (''gx: container stopping hook registered after initialization: '' @ ct_name c)
          else Ret (c\<lparr>ct_stoppingFns := ct_stoppingFns c @ [\<lparr>hk_fn = f, hk_name = name\<rparr>]\<rparr>))"

definition container_Set :: "'t \<Rightarrow> 'v option \<Rightarrow> ('h, 't, 'v) container \<Rightarrow>
    ('h, 't, 'v) container go" where
  "container_Set t v c =
     (if ct_state c \<noteq> ContainerSetup \<and> ct_state c \<noteq> ContainerInitializing \<and>
         ct_state c \<noteq> ContainerStarting
      then Panic (''gx: container dependency set after startup: '' @ ct_name c)
      else go_bind (store_set t v (ct_store c)) (\<lambda>(s, ok).
        if ok then Ret (c\<lparr>ct_store := s\<rparr>)
        else Panic (''gx: container '' @ ct_name c @ '' already has value'')))"

definition container_GetTry :: "('t \<Rightarrow> 'v \<Rightarrow> bool) \<Rightarrow> 'v \<Rightarrow> 't \<Rightarrow> ('h, 't, 'v) container \<Rightarrow>
    ('v \<times> bool) go" where
  "container_GetTry asserts zero t c =
     (case store_get t (ct_store c) of
        None \<Rightarrow> Ret (zero, False)
      | Some v \<Rightarrow> go_bind (getValue asserts zero t v) (\<lambda>x. Ret (x, True)))"

definition container_Get :: "('t \<Rightarrow> 'v \<Rightarrow> bool) \<Rightarrow> 'v \<Rightarrow> 't \<Rightarrow> ('h, 't, 'v) container \<Rightarrow> 'v go" where
  "container_Get asserts zero t c =
     go_bind (container_GetTry asserts zero t c) (\<lambda>(v, ok).
       if ok then Ret v else Panic (''gx: container '' @ ct_name c @ '' has no value''))"

subsection \<open>Tasks\<close>

text \<open>
  Starting a task: it is listed as running, counted by the wait group, and given to the
  runner as goroutine \<open>g\<close>.
\<close>

definition container_startTaskLocked :: "nat \<Rightarrow> 'h hook \<Rightarrow> ('h, 't, 'v) container \<times> runner \<Rightarrow>
    ('h, 't, 'v) container \<times> runner" where
  "container_startTaskLocked g task cr =
     (case cr of (c, r) \<Rightarrow>
        (c\<lparr>ct_running := ct_running c @ [hk_name task], ct_wg := Suc (ct_wg c)\<rparr>, runner_Run g r))"

datatype ('c, 'r) run_outcome = Registered 'c | Launched "'c \<times> 'r"

definition container_Run :: "nat \<Rightarrow> string \<Rightarrow> 'h option \<Rightarrow> ('h, 't, 'v) container \<times> runner \<Rightarrow>
    (('h, 't, 'v) container, runner) run_outcome go" where
  "container_Run g name fn cr =
     (if name = [] then Panic ''gx: empty container task name''
      else case fn of
        None \<Rightarrow> Panic ''gx: nil container task''
      | Some f \<Rightarrow>
          (let task = \<lparr>hk_fn = f, hk_name = name\<rparr>; c = fst cr
           in if ct_state c \<in> {ContainerSetup, ContainerInitializing}
              then Ret (Registered (c\<lparr>ct_tasks := ct_tasks c @ [task]\<rparr>))
              else if ct_state c = ContainerStarting
              then Ret (Launched (container_startTaskLocked g task cr))
              else Panic (''gx: container task registered after initialization: '' @ ct_name c)))"

text \<open>The error a task hands to the runner, and the removal of its name.\<close>

definition task_result :: "ctx \<Rightarrow> string \<Rightarrow> string \<Rightarrow> error option \<Rightarrow> error option" where
  "task_result c container task err =
     (let canceled = (ctx_err c \<noteq> None \<and> is_error err Canceled)
      in if err \<noteq> None \<and> \<not> canceled
         then map_option (Wrap (container @ '': '' @ task @ '': '')) err
         else None)"

definition container_stopTask :: "string \<Rightarrow> ('h, 't, 'v) container \<Rightarrow> ('h, 't, 'v) container" where
  "container_stopTask name c = c\<lparr>ct_running := remove1 name (ct_running c)\<rparr>"

subsection \<open>The critical sections of the lifecycle methods\<close>

definition container_init_begin :: "('h, 't, 'v) container \<Rightarrow>
    (('h, 't, 'v) container \<times> 'h hook list) go" where
  "container_init_begin c =
     (if ct_state c \<noteq> ContainerSetup
      then Panic (''gx: container initialized more than once: '' @ ct_name c)
      else Ret (c\<lparr>ct_state := ContainerInitializing\<rparr>, ct_initFns c))"

definition container_init_end :: "ctx \<Rightarrow> ('h, 't, 'v) container \<Rightarrow> ('h, 't, 'v) container" where
  "container_init_end x c =
     (if ctx_err x \<noteq> None then c else c\<lparr>ct_state := ContainerInitialized\<rparr>)"

definition container_start_begin :: "('h, 't, 'v) container \<Rightarrow>
    (('h, 't, 'v) container \<times> 'h hook list) go" where
  "container_start_begin c =
     (if ct_state c \<noteq> ContainerInitialized
      then Panic (''gx: container started more than once: '' @ ct_name c)
      else Ret (c\<lparr>ct_state := ContainerStarting\<rparr>, ct_startFns c))"

text \<open>The registered tasks are started as the goroutines \<open>g\<close>, \<open>g + 1\<close>, and so on.\<close>

fun start_tasks :: "nat \<Rightarrow> 'h hook list \<Rightarrow> ('h, 't, 'v) container \<times> runner \<Rightarrow>
    ('h, 't, 'v) container \<times> runner" where
  "start_tasks g [] cr = cr"
| "start_tasks g (task # tasks) cr =
     start_tasks (Suc g) tasks (container_startTaskLocked g task cr)"

definition container_start_end :: "ctx \<Rightarrow> nat \<Rightarrow> ('h, 't, 'v) container \<times> runner \<Rightarrow>
    (('h, 't, 'v) container \<times> runner) \<times> 'h hook list" where
  "container_start_end x g cr =
     (if ctx_err x \<noteq> None then (cr, [])
      else let (c, r) = start_tasks g (ct_tasks (fst cr)) cr
           in ((c\<lparr>ct_tasks := [], ct_state := ContainerRunning\<rparr>, r), ct_tasks (fst cr)))"

text \<open>\<open>None\<close> when there is nothing to stop; else the cloned hooks, in registration order.\<close>

definition container_shutdown_begin :: "('h, 't, 'v) container \<Rightarrow>
    (('h, 't, 'v) container \<times> 'h hook list \<times> 'h hook list) option" where
  "container_shutdown_begin c =
     (if ct_state c = ContainerSetup \<or> ct_state c = ContainerStopped then None
      else Some (c\<lparr>ct_state := ContainerStopping\<rparr>, ct_stoppingFns c, ct_stopFns c))"

definition hook_error :: "('h, 't, 'v) container \<Rightarrow> 'h hook \<Rightarrow> error option \<Rightarrow> error option" where
  "hook_error c h err = map_option (Wrap (ct_name c @ '': '' @ hk_name h @ '': '')) err"

definition keep_first :: "error option \<Rightarrow> error option \<Rightarrow> error option" where
  "keep_first firstErr err = (if err \<noteq> None \<and> firstErr = None then err else firstErr)"

definition container_shutdown_end :: "('h, 't, 'v) container \<Rightarrow> ('h, 't, 'v) container" where
  "container_shutdown_end c = c\<lparr>ct_state := ContainerStopped\<rparr>"

section \<open>The runtime\<close>

record ('h, 't, 'v) runtime =
  rt_containers :: "('h, 't, 'v) container list"
  rt_ctx :: ctx
  rt_runner :: runner
  rt_shutdownTimeout :: int
  rt_startupDone :: bool
  rt_state :: rt_state
  rt_stopErr :: "error option"
  rt_store :: "('t, 'v) store"

definition zero_runner :: runner where
  "zero_runner = \<lparr>rn_cancel = False, rn_ctx = live_ctx, rn_err = None, rn_once = False, rn_wg = []\<rparr>"

definition NewRuntime :: "('h, 't, 'v) runtime" where
  "NewRuntime =
     \<lparr>rt_containers = [], rt_ctx = live_ctx, rt_runner = zero_runner, rt_shutdownTimeout = 0,
      rt_startupDone = False, rt_state = RuntimeSetup, rt_stopErr = None, rt_store = newStore\<rparr>"

definition runtime_Attach :: "string \<Rightarrow> ('h, 't, 'v) runtime \<Rightarrow> ('h, 't, 'v) runtime go" where
  "runtime_Attach name r =
     (if name = [] then Panic ''gx: empty container name''
      else if rt_state r \<noteq> RuntimeSetup
      then Panic (''gx: container attached after Runtime.Run: '' @ name)
      else if list_ex (\<lambda>c. ct_name c = name) (rt_containers r)
      then Panic (''gx: duplicate container name: '' @ name)
      else Ret (r\<lparr>rt_containers := rt_containers r @ [NewContainer name]\<rparr>))"

definition runtime_Set :: "'t \<Rightarrow> 'v option \<Rightarrow> ('h, 't, 'v) runtime \<Rightarrow> ('h, 't, 'v) runtime go" where
  "runtime_Set t v r =
     (if rt_state r \<noteq> RuntimeSetup \<and> rt_state r \<noteq> RuntimeInitializing
      then Panic ''gx: runtime dependency set after Runtime.Run''
      else go_bind (store_set t v (rt_store r)) (\<lambda>(s, ok).
        if ok then Ret (r\<lparr>rt_store := s\<rparr>)
        else Panic ''gx: runtime already has value''))"

definition runtime_GetTry :: "('t \<Rightarrow> 'v \<Rightarrow> bool) \<Rightarrow> 'v \<Rightarrow> 't \<Rightarrow> ('h, 't, 'v) runtime \<Rightarrow>
    ('v \<times> bool) go" where
  "runtime_GetTry asserts zero t r =
     (case store_get t (rt_store r) of
        None \<Rightarrow> Ret (zero, False)
      | Some v \<Rightarrow> go_bind (getValue asserts zero t v) (\<lambda>x. Ret (x, True)))"

definition runtime_Get :: "('t \<Rightarrow> 'v \<Rightarrow> bool) \<Rightarrow> 'v \<Rightarrow> 't \<Rightarrow> ('h, 't, 'v) runtime \<Rightarrow> 'v go" where
  "runtime_Get asserts zero t r =
     go_bind (runtime_GetTry asserts zero t r) (\<lambda>(v, ok).
       if ok then Ret v else Panic ''gx: runtime has no value'')"

text \<open>What a container passes on to its runtime.\<close>

definition container_Global :: "('t \<Rightarrow> 'v \<Rightarrow> bool) \<Rightarrow> 'v \<Rightarrow> 't \<Rightarrow> ('h, 't, 'v) runtime \<Rightarrow> 'v go" where
  "container_Global asserts zero t r = runtime_Get asserts zero t r"

definition container_GlobalTry :: "('t \<Rightarrow> 'v \<Rightarrow> bool) \<Rightarrow> 'v \<Rightarrow> 't \<Rightarrow> ('h, 't, 'v) runtime \<Rightarrow>
    ('v \<times> bool) go" where
  "container_GlobalTry asserts zero t r = runtime_GetTry asserts zero t r"

definition container_SetGlobal :: "'t \<Rightarrow> 'v option \<Rightarrow> ('h, 't, 'v) runtime \<Rightarrow> ('h, 't, 'v) runtime go" where
  "container_SetGlobal t v r = runtime_Set t v r"

definition container_Ctx :: "('h, 't, 'v) runtime \<Rightarrow> ctx" where
  "container_Ctx r = rt_ctx r"

definition container_Name :: "('h, 't, 'v) container \<Rightarrow> string" where
  "container_Name c = ct_name c"

definition container_runningTasks :: "('h, 't, 'v) container \<Rightarrow> string list" where
  "container_runningTasks c = ct_running c"

text \<open>
  \<open>Create\<close> attaches a container whose only init hook is \<open>create\<close>; \<open>factory\<close> names the
  closure that calls \<open>fn\<close> and registers its value.
\<close>

definition runtime_Create :: "string \<Rightarrow> 'h option \<Rightarrow> ('h, 't, 'v) runtime \<Rightarrow>
    ('h, 't, 'v) runtime go" where
  "runtime_Create name factory r =
     (case factory of
        None \<Rightarrow> Panic ''gx: nil Runtime.Create factory''
      | Some f \<Rightarrow>
          go_bind (runtime_Attach name r) (\<lambda>r'.
          go_bind (container_OnInit ''create'' (Some f) (last (rt_containers r'))) (\<lambda>c.
            Ret (r'\<lparr>rt_containers := butlast (rt_containers r') @ [c]\<rparr>))))"

text \<open>The body of that closure, from the result of \<open>fn\<close>.\<close>

definition create_hook :: "'t \<Rightarrow> error + 'v option \<Rightarrow> ('h, 't, 'v) runtime \<Rightarrow>
    (('h, 't, 'v) runtime \<times> error option) go" where
  "create_hook t result r =
     (case result of
        Inl err \<Rightarrow> Ret (r, Some err)
      | Inr value \<Rightarrow> go_bind (runtime_Set t value r) (\<lambda>r'. Ret (r', None)))"

text \<open>
  \<open>runningTasks\<close>: the tasks that have not exited, by container; \<open>logShutdownTimeout\<close> logs
  one line for each with the elapsed time truncated to the timeout.
\<close>

definition runtime_runningTasks :: "('h, 't, 'v) runtime \<Rightarrow> (string \<times> string) list" where
  "runtime_runningTasks r =
     concat (map (\<lambda>c. map (\<lambda>name. (ct_name c, name)) (container_runningTasks c)) (rt_containers r))"

definition duration_Truncate :: "int \<Rightarrow> int \<Rightarrow> int" where
  "duration_Truncate d m = (if m \<le> 0 then d else d - sgn d * (\<bar>d\<bar> mod m))"

definition logShutdownTimeout :: "int \<Rightarrow> ('h, 't, 'v) runtime \<Rightarrow>
    (int \<times> int \<times> string \<times> string) list \<times> bool" where
  "logShutdownTimeout elapsed r =
     (let tasks = runtime_runningTasks r
      in if tasks = [] then ([], False)
         else (map (\<lambda>(c, t). (rt_shutdownTimeout r,
                 duration_Truncate elapsed (rt_shutdownTimeout r), c, t)) tasks, True))"

text \<open>
  The task context starts out live unless its own deadline has passed: cancellation of the
  parent reaches it later, through \<open>context.AfterFunc\<close>.
\<close>

definition newRuntimeTaskContext :: "ctx \<Rightarrow> ctx" where
  "newRuntimeTaskContext parent =
     (if ctx_err parent = Some DeadlineExceeded
      then \<lparr>ctx_err = Some DeadlineExceeded, ctx_cause = Some DeadlineExceeded\<rparr>
      else live_ctx)"

text \<open>\<open>Run\<close> up to the end of its first critical section; a nil context is \<open>None\<close>.\<close>

definition runtime_Run_begin :: "ctx option \<Rightarrow> run_options list \<Rightarrow> ('h, 't, 'v) runtime \<Rightarrow>
    ('h, 't, 'v) runtime go" where
  "runtime_Run_begin ctx opts r =
     (case ctx of
        None \<Rightarrow> Panic ''gx: nil Runtime.Run context''
      | Some parent \<Rightarrow>
          if 1 < length opts then Panic ''gx: Runtime.Run accepts at most one RunOptions value''
          else if rt_state r \<noteq> RuntimeSetup then Panic ''gx: Runtime.Run called more than once''
          else Ret (r\<lparr>rt_ctx := newRuntimeTaskContext parent, rt_runner := NewRunner parent,
                      rt_shutdownTimeout := ro_ShutdownTimeout (runOptions opts),
                      rt_startupDone := False, rt_state := RuntimeInitializing\<rparr>))"

end
