(* ===== verification/Gx_Runtime.thy ===== *)
theory Gx_Runtime imports Gx_Runtime_Data begin

text \<open>
  \<open>Runtime.Run\<close> as goroutines: the caller of \<open>Run\<close> (\<open>main_step\<close>), the shutdown, which the
  end of the task context or the caller starts once (\<open>shutdown_step\<close>), the managed tasks
  (\<open>task_step\<close>), the contexts (\<open>context_step\<close>), and anybody who calls a registration method
  of the runtime or of a container at any time (\<open>api_step\<close>), which covers what hooks and
  tasks do. What a hook or a task returns is left open; a hook of a startup takes from its call
  (\<open>MainInitCall\<close>, \<open>MainStartCall\<close>) to its result, and the context may end meanwhile. The log of hook results, the list of
  errors that reached the runner and the task records are history and bookkeeping.
\<close>

section \<open>States\<close>

datatype 'h main_pc =
    MainSetup
  | MainInit nat
  | MainInitHooks nat "'h hook list"
  | MainInitCall nat "'h hook" "'h hook list"
  | MainStarting
  | MainStart nat
  | MainStartHooks nat "'h hook list"
  | MainStartCall nat "'h hook" "'h hook list"
  | MainFail error
  | MainCancel error
  | MainStarted
  | MainWait
  | MainCancelTasks "error option"
  | MainShutdown "error option"
  | MainReturned "error option"

datatype 'h sh_pc =
    ShIdle
  | ShNext nat
  | ShStopping nat "'h hook list" "'h hook list" "error option"
  | ShStop nat "'h hook list" "error option"
  | ShDone

text \<open>A task: its body runs, its name is removed, the wait group is told, the runner is told.\<close>

datatype task_pc = TaskBody | TaskStop "error option" | TaskDone "error option" | TaskReport "error option"

record task_run =
  tk_ct :: nat
  tk_id :: nat
  tk_name :: string
  tk_pc :: task_pc

datatype rt_phase = PhInit | PhStart | PhStopping | PhStop

record rt_event =
  ev_ct :: nat
  ev_err :: "error option"
  ev_hook :: string
  ev_phase :: rt_phase

record ('h, 't, 'v) rt_sys =
  sy_rt :: "('h, 't, 'v) runtime"
  sy_main :: "'h main_pc"
  sy_sh :: "'h sh_pc"
  sy_tasks :: "task_run list"
  sy_next :: nat
  sy_parent :: ctx
  sy_deadline :: bool
  sy_log :: "rt_event list"
  sy_reported :: "error list"
  sy_panicked :: bool

definition rt_start :: "('h, 't, 'v) rt_sys" where
  "rt_start =
     \<lparr>sy_rt = NewRuntime, sy_main = MainSetup, sy_sh = ShIdle, sy_tasks = [], sy_next = 0,
      sy_parent = live_ctx, sy_deadline = False, sy_log = [], sy_reported = [],
      sy_panicked = False\<rparr>"

abbreviation ct :: "('h, 't, 'v) rt_sys \<Rightarrow> nat \<Rightarrow> ('h, 't, 'v) container" where
  "ct y i \<equiv> rt_containers (sy_rt y) ! i"

abbreviation cts :: "('h, 't, 'v) rt_sys \<Rightarrow> nat" where
  "cts y \<equiv> length (rt_containers (sy_rt y))"

abbreviation live :: "('h, 't, 'v) rt_sys \<Rightarrow> bool" where
  "live y \<equiv> ctx_err (rt_ctx (sy_rt y)) = None"

definition put_ct :: "nat \<Rightarrow> ('h, 't, 'v) container \<Rightarrow> ('h, 't, 'v) rt_sys \<Rightarrow> ('h, 't, 'v) rt_sys" where
  "put_ct i c y = y\<lparr>sy_rt := (sy_rt y)\<lparr>rt_containers := (rt_containers (sy_rt y))[i := c]\<rparr>\<rparr>"

definition put_runner :: "runner \<Rightarrow> ('h, 't, 'v) rt_sys \<Rightarrow> ('h, 't, 'v) rt_sys" where
  "put_runner r y = y\<lparr>sy_rt := (sy_rt y)\<lparr>rt_runner := r\<rparr>\<rparr>"

definition put_ctx :: "ctx \<Rightarrow> ('h, 't, 'v) rt_sys \<Rightarrow> ('h, 't, 'v) rt_sys" where
  "put_ctx x y = y\<lparr>sy_rt := (sy_rt y)\<lparr>rt_ctx := x\<rparr>\<rparr>"

definition main_at :: "'h main_pc \<Rightarrow> ('h, 't, 'v) rt_sys \<Rightarrow> ('h, 't, 'v) rt_sys" where
  "main_at p y = y\<lparr>sy_main := p\<rparr>"

definition sh_at :: "'h sh_pc \<Rightarrow> ('h, 't, 'v) rt_sys \<Rightarrow> ('h, 't, 'v) rt_sys" where
  "sh_at p y = y\<lparr>sy_sh := p\<rparr>"

definition log_hook :: "nat \<Rightarrow> rt_phase \<Rightarrow> string \<Rightarrow> error option \<Rightarrow> ('h, 't, 'v) rt_sys \<Rightarrow>
    ('h, 't, 'v) rt_sys" where
  "log_hook i ph name err y =
     y\<lparr>sy_log := sy_log y @ [\<lparr>ev_ct = i, ev_err = err, ev_hook = name, ev_phase = ph\<rparr>]\<rparr>"

definition report_error :: "error option \<Rightarrow> ('h, 't, 'v) rt_sys \<Rightarrow> ('h, 't, 'v) rt_sys" where
  "report_error err y =
     y\<lparr>sy_reported := sy_reported y @ (case err of None \<Rightarrow> [] | Some e \<Rightarrow> [e])\<rparr>"

text \<open>The records of freshly started tasks of container \<open>i\<close>, as goroutines \<open>g\<close>, \<open>g + 1\<close>, ...\<close>

definition new_tasks :: "nat \<Rightarrow> nat \<Rightarrow> 'h hook list \<Rightarrow> task_run list" where
  "new_tasks i g hs =
     map (\<lambda>(k, h). \<lparr>tk_ct = i, tk_id = k, tk_name = hk_name h, tk_pc = TaskBody\<rparr>)
       (zip [g..<g + length hs] hs)"

definition launch :: "nat \<Rightarrow> 'h hook list \<Rightarrow> ('h, 't, 'v) rt_sys \<Rightarrow> ('h, 't, 'v) rt_sys" where
  "launch i hs y =
     y\<lparr>sy_tasks := sy_tasks y @ new_tasks i (sy_next y) hs, sy_next := sy_next y + length hs\<rparr>"

section \<open>The caller of Run\<close>

inductive main_step :: "('h, 't, 'v) rt_sys \<Rightarrow> ('h, 't, 'v) rt_sys \<Rightarrow> bool" where
  run_begins:
    "sy_main y = MainSetup \<Longrightarrow> runtime_Run_begin (Some parent) opts (sy_rt y) = Ret r \<Longrightarrow>
     ctx_wf parent \<Longrightarrow> (ctx_err parent = Some DeadlineExceeded \<longrightarrow> deadline) \<Longrightarrow>
     main_step y (main_at (MainInit 0) (y\<lparr>sy_rt := r, sy_parent := parent, sy_deadline := deadline\<rparr>))"
| init_ctx:
    "sy_main y = MainInit i \<Longrightarrow> i < cts y \<Longrightarrow> \<not> live y \<Longrightarrow> main_step y (main_at MainStarted y)"
| init_begins:
    "sy_main y = MainInit i \<Longrightarrow> i < cts y \<Longrightarrow> live y \<Longrightarrow>
     container_init_begin (ct y i) = Ret (c, hs) \<Longrightarrow>
     main_step y (main_at (MainInitHooks i hs) (put_ct i c y))"
| init_panics:
    "sy_main y = MainInit i \<Longrightarrow> i < cts y \<Longrightarrow> live y \<Longrightarrow>
     container_init_begin (ct y i) = Panic m \<Longrightarrow> main_step y (y\<lparr>sy_panicked := True\<rparr>)"
| init_hooks_ctx:
    "sy_main y = MainInitHooks i (h # hs) \<Longrightarrow> \<not> live y \<Longrightarrow>
     main_step y (main_at (MainInit (Suc i)) y)"
| init_calls:
    "sy_main y = MainInitHooks i (h # hs) \<Longrightarrow> live y \<Longrightarrow>
     main_step y (main_at (MainInitCall i h hs) y)"
| init_hook:
    "sy_main y = MainInitCall i h hs \<Longrightarrow>
     main_step y
       (main_at (case hook_error (ct y i) h err of None \<Rightarrow> MainInitHooks i hs | Some e \<Rightarrow> MainFail e)
         (log_hook i PhInit (hk_name h) (hook_error (ct y i) h err) y))"
| init_ends:
    "sy_main y = MainInitHooks i [] \<Longrightarrow>
     main_step y
       (main_at (MainInit (Suc i)) (put_ct i (container_init_end (rt_ctx (sy_rt y)) (ct y i)) y))"
| init_done: "sy_main y = MainInit i \<Longrightarrow> i = cts y \<Longrightarrow> main_step y (main_at MainStarting y)"
| starting_ctx: "sy_main y = MainStarting \<Longrightarrow> \<not> live y \<Longrightarrow> main_step y (main_at MainStarted y)"
| starting:
    "sy_main y = MainStarting \<Longrightarrow> live y \<Longrightarrow>
     main_step y (main_at (MainStart 0) (y\<lparr>sy_rt := (sy_rt y)\<lparr>rt_state := RuntimeRunning\<rparr>\<rparr>))"
| start_ctx:
    "sy_main y = MainStart i \<Longrightarrow> i < cts y \<Longrightarrow> \<not> live y \<Longrightarrow> main_step y (main_at MainStarted y)"
| start_begins:
    "sy_main y = MainStart i \<Longrightarrow> i < cts y \<Longrightarrow> live y \<Longrightarrow>
     container_start_begin (ct y i) = Ret (c, hs) \<Longrightarrow>
     main_step y (main_at (MainStartHooks i hs) (put_ct i c y))"
| start_panics:
    "sy_main y = MainStart i \<Longrightarrow> i < cts y \<Longrightarrow> live y \<Longrightarrow>
     container_start_begin (ct y i) = Panic m \<Longrightarrow> main_step y (y\<lparr>sy_panicked := True\<rparr>)"
| start_hooks_ctx:
    "sy_main y = MainStartHooks i (h # hs) \<Longrightarrow> \<not> live y \<Longrightarrow>
     main_step y (main_at (MainStart (Suc i)) y)"
| start_calls:
    "sy_main y = MainStartHooks i (h # hs) \<Longrightarrow> live y \<Longrightarrow>
     main_step y (main_at (MainStartCall i h hs) y)"
| start_hook:
    "sy_main y = MainStartCall i h hs \<Longrightarrow>
     main_step y
       (main_at (case hook_error (ct y i) h err of None \<Rightarrow> MainStartHooks i hs | Some e \<Rightarrow> MainFail e)
         (log_hook i PhStart (hk_name h) (hook_error (ct y i) h err) y))"
| start_ends:
    "sy_main y = MainStartHooks i [] \<Longrightarrow>
     container_start_end (rt_ctx (sy_rt y)) (sy_next y) (ct y i, rt_runner (sy_rt y)) = ((c, r), hs) \<Longrightarrow>
     main_step y (main_at (MainStart (Suc i)) (launch i hs (put_runner r (put_ct i c y))))"
| start_done: "sy_main y = MainStart i \<Longrightarrow> i = cts y \<Longrightarrow> main_step y (main_at MainStarted y)"
| fail_ctx: "sy_main y = MainFail e \<Longrightarrow> \<not> live y \<Longrightarrow> main_step y (main_at MainStarted y)"
| fail_live: "sy_main y = MainFail e \<Longrightarrow> live y \<Longrightarrow> main_step y (main_at (MainCancel e) y)"
| cancels:
    "sy_main y = MainCancel e \<Longrightarrow> runner_Cancel (Some e) (rt_runner (sy_rt y)) = Ret r \<Longrightarrow>
     main_step y (main_at MainStarted (report_error (Some e) (put_runner r y)))"
| started:
    "sy_main y = MainStarted \<Longrightarrow>
     main_step y (main_at MainWait (y\<lparr>sy_rt := (sy_rt y)\<lparr>rt_startupDone := True\<rparr>\<rparr>))"
| waited:
    "sy_main y = MainWait \<Longrightarrow> runner_Wait (rt_runner (sy_rt y)) = Some (r, err) \<Longrightarrow>
     main_step y (main_at (MainCancelTasks err) (put_runner r y))"
| cancels_tasks:
    "sy_main y = MainCancelTasks err \<Longrightarrow>
     main_step y (main_at (MainShutdown err) (put_ctx (cancel_cause None (rt_ctx (sy_rt y))) y))"
| main_returns:
    "sy_main y = MainShutdown err \<Longrightarrow> sy_sh y = ShDone \<Longrightarrow>
     main_step y
       (main_at (MainReturned (if err \<noteq> None then err else rt_stopErr (sy_rt y)))
         (y\<lparr>sy_rt := (sy_rt y)\<lparr>rt_state := RuntimeStopped\<rparr>\<rparr>))"

section \<open>Shutdown\<close>

text \<open>
  \<open>ShNext k\<close>: the containers below \<open>k\<close> are still to be stopped, the highest first. The
  hooks are run from the last registered to the first.
\<close>

inductive shutdown_step :: "('h, 't, 'v) rt_sys \<Rightarrow> ('h, 't, 'v) rt_sys \<Rightarrow> bool" where
  sh_begins:
    "sy_sh y = ShIdle \<Longrightarrow> sy_main y \<noteq> MainSetup \<Longrightarrow> \<not> live y \<Longrightarrow> rt_startupDone (sy_rt y) \<Longrightarrow>
     shutdown_step y (sh_at (ShNext (cts y)) y)"
| sh_skips:
    "sy_sh y = ShNext (Suc i) \<Longrightarrow> container_shutdown_begin (ct y i) = None \<Longrightarrow>
     shutdown_step y (sh_at (ShNext i) y)"
| sh_stops:
    "sy_sh y = ShNext (Suc i) \<Longrightarrow> container_shutdown_begin (ct y i) = Some (c, stopping, stops) \<Longrightarrow>
     shutdown_step y (sh_at (ShStopping i (rev stopping) (rev stops) None) (put_ct i c y))"
| sh_stopping_hook:
    "sy_sh y = ShStopping i (h # hs) stops e \<Longrightarrow>
     shutdown_step y
       (sh_at (ShStopping i hs stops (keep_first e (hook_error (ct y i) h err)))
         (log_hook i PhStopping (hk_name h) (hook_error (ct y i) h err) y))"
| sh_waits:
    "sy_sh y = ShStopping i [] stops e \<Longrightarrow> ct_wg (ct y i) = 0 \<Longrightarrow>
     shutdown_step y (sh_at (ShStop i stops e) y)"
| sh_stop_hook:
    "sy_sh y = ShStop i (h # hs) e \<Longrightarrow>
     shutdown_step y
       (sh_at (ShStop i hs (keep_first e (hook_error (ct y i) h err)))
         (log_hook i PhStop (hk_name h) (hook_error (ct y i) h err) y))"
| sh_ends:
    "sy_sh y = ShStop i [] e \<Longrightarrow>
     shutdown_step y
       (sh_at (ShNext i)
         (put_ct i (container_shutdown_end (ct y i))
           (y\<lparr>sy_rt := (sy_rt y)\<lparr>rt_stopErr := keep_first (rt_stopErr (sy_rt y)) e\<rparr>\<rparr>)))"
| sh_done: "sy_sh y = ShNext 0 \<Longrightarrow> shutdown_step y (sh_at ShDone y)"

section \<open>Tasks, contexts and callers\<close>

definition set_task :: "nat \<Rightarrow> task_pc \<Rightarrow> ('h, 't, 'v) rt_sys \<Rightarrow> ('h, 't, 'v) rt_sys" where
  "set_task k p y = y\<lparr>sy_tasks := (sy_tasks y)[k := (sy_tasks y ! k)\<lparr>tk_pc := p\<rparr>]\<rparr>"

definition task_at :: "nat \<Rightarrow> task_run \<Rightarrow> ('h, 't, 'v) rt_sys \<Rightarrow> bool" where
  "task_at k t y \<longleftrightarrow> k < length (sy_tasks y) \<and> sy_tasks y ! k = t"

inductive task_step :: "('h, 't, 'v) rt_sys \<Rightarrow> ('h, 't, 'v) rt_sys \<Rightarrow> bool" where
  task_returns:
    "task_at k t y \<Longrightarrow> tk_pc t = TaskBody \<Longrightarrow>
     task_step y
       (set_task k (TaskStop (task_result (rt_ctx (sy_rt y)) (ct_name (ct y (tk_ct t))) (tk_name t) err)) y)"
| task_stops:
    "task_at k t y \<Longrightarrow> tk_pc t = TaskStop err \<Longrightarrow>
     task_step y
       (set_task k (TaskDone err)
         (put_ct (tk_ct t) (container_stopTask (tk_name t) (ct y (tk_ct t))) y))"
| task_done:
    "task_at k t y \<Longrightarrow> tk_pc t = TaskDone err \<Longrightarrow>
     task_step y
       (set_task k (TaskReport err)
         (put_ct (tk_ct t) ((ct y (tk_ct t))\<lparr>ct_wg := ct_wg (ct y (tk_ct t)) - 1\<rparr>) y))"
| task_reports:
    "task_at k t y \<Longrightarrow> tk_pc t = TaskReport err \<Longrightarrow>
     task_step y
       (report_error err (put_runner (runner_finish (tk_id t) err (rt_runner (sy_rt y)))
         (y\<lparr>sy_tasks := take k (sy_tasks y) @ drop (Suc k) (sy_tasks y)\<rparr>)))"

text \<open>
  The parent may end; the runner context ends with it; the task context mirrors the
  cancellation of the parent, follows its own copy of the deadline, and ends after the
  runner context.
\<close>

inductive context_step :: "('h, 't, 'v) rt_sys \<Rightarrow> ('h, 't, 'v) rt_sys \<Rightarrow> bool" where
  parent_ends:
    "sy_main y \<noteq> MainSetup \<Longrightarrow> ctx_err (sy_parent y) = None \<Longrightarrow> ctx_wf parent \<Longrightarrow>
     (ctx_err parent = Some DeadlineExceeded \<longrightarrow> sy_deadline y) \<Longrightarrow>
     context_step y
       (put_runner ((rt_runner (sy_rt y))\<lparr>rn_ctx := inherit parent (rn_ctx (rt_runner (sy_rt y)))\<rparr>)
         (y\<lparr>sy_parent := parent\<rparr>))"
| parent_mirrored:
    "is_error (ctx_err (sy_parent y)) Canceled \<Longrightarrow>
     context_step y (put_ctx (cancel_cause None (rt_ctx (sy_rt y))) y)"
| deadline_hits:
    "sy_main y \<noteq> MainSetup \<Longrightarrow> sy_deadline y \<Longrightarrow> live y \<Longrightarrow>
     context_step y
       (put_ctx \<lparr>ctx_err = Some DeadlineExceeded, ctx_cause = Some DeadlineExceeded\<rparr> y)"
| runner_ends:
    "sy_main y \<noteq> MainSetup \<Longrightarrow> ctx_err (rn_ctx (rt_runner (sy_rt y))) \<noteq> None \<Longrightarrow>
     context_step y (put_ctx (cancel_cause None (rt_ctx (sy_rt y))) y)"

inductive api_step :: "('h, 't, 'v) rt_sys \<Rightarrow> ('h, 't, 'v) rt_sys \<Rightarrow> bool" where
  attaches: "runtime_Attach name (sy_rt y) = Ret r \<Longrightarrow> api_step y (y\<lparr>sy_rt := r\<rparr>)"
| creates: "runtime_Create name (Some f) (sy_rt y) = Ret r \<Longrightarrow> api_step y (y\<lparr>sy_rt := r\<rparr>)"
| sets_global: "runtime_Set t v (sy_rt y) = Ret r \<Longrightarrow> api_step y (y\<lparr>sy_rt := r\<rparr>)"
| registers:
    "i < cts y \<Longrightarrow>
     container_OnInit name (Some f) (ct y i) = Ret c \<or> container_OnStart name (Some f) (ct y i) = Ret c \<or>
     container_OnStop name (Some f) (ct y i) = Ret c \<or> container_OnStopping name (Some f) (ct y i) = Ret c \<or>
     container_Set t v (ct y i) = Ret c \<Longrightarrow>
     api_step y (put_ct i c y)"
| registers_task:
    "i < cts y \<Longrightarrow>
     container_Run (sy_next y) name (Some f) (ct y i, rt_runner (sy_rt y)) = Ret (Registered c) \<Longrightarrow>
     api_step y (put_ct i c y)"
| launches_task:
    "i < cts y \<Longrightarrow>
     container_Run (sy_next y) name (Some f) (ct y i, rt_runner (sy_rt y)) = Ret (Launched (c, r)) \<Longrightarrow>
     api_step y (launch i [\<lparr>hk_fn = f, hk_name = name\<rparr>] (put_runner r (put_ct i c y)))"

inductive rt_step :: "('h, 't, 'v) rt_sys \<Rightarrow> ('h, 't, 'v) rt_sys \<Rightarrow> bool" where
  by_main: "main_step y z \<Longrightarrow> rt_step y z"
| by_shutdown: "shutdown_step y z \<Longrightarrow> rt_step y z"
| by_task: "task_step y z \<Longrightarrow> rt_step y z"
| by_context: "context_step y z \<Longrightarrow> rt_step y z"
| by_api: "api_step y z \<Longrightarrow> rt_step y z"

lemmas rt_put_defs = put_ct_def put_runner_def put_ctx_def main_at_def sh_at_def log_hook_def
  report_error_def launch_def set_task_def

section \<open>Control: which container is in which state\<close>

fun early :: "'h main_pc \<Rightarrow> bool" where
  "early MainWait = False"
| "early (MainCancelTasks err) = False"
| "early (MainShutdown err) = False"
| "early (MainReturned err) = False"
| "early p = True"

definition states_of :: "('h, 't, 'v) rt_sys \<Rightarrow> ct_state list" where
  "states_of y = map ct_state (rt_containers (sy_rt y))"

definition all_at :: "ct_state list \<Rightarrow> nat \<Rightarrow> nat \<Rightarrow> ct_state set \<Rightarrow> bool" where
  "all_at sts lo hi S \<longleftrightarrow> (\<forall>j. lo \<le> j \<and> j < hi \<longrightarrow> sts ! j \<in> S)"

text \<open>
  \<open>lv\<close>: the task context is live; \<open>failed\<close>: an error has reached the runner. A container is
  left in a transient state only when the context has ended.
\<close>

fun main_ok :: "ct_state list \<Rightarrow> bool \<Rightarrow> bool \<Rightarrow> 'h main_pc \<Rightarrow> bool" where
  "main_ok sts lv failed MainSetup \<longleftrightarrow> all_at sts 0 (length sts) {ContainerSetup}"
| "main_ok sts lv failed (MainInit i) \<longleftrightarrow>
     i \<le> length sts \<and> all_at sts i (length sts) {ContainerSetup} \<and>
     all_at sts 0 i ({ContainerInitialized} \<union> (if lv then {} else {ContainerInitializing}))"
| "main_ok sts lv failed (MainInitHooks i hs) \<longleftrightarrow>
     i < length sts \<and> sts ! i = ContainerInitializing \<and>
     all_at sts (Suc i) (length sts) {ContainerSetup} \<and>
     all_at sts 0 i ({ContainerInitialized} \<union> (if lv then {} else {ContainerInitializing}))"
| "main_ok sts lv failed (MainInitCall i h hs) \<longleftrightarrow>
     i < length sts \<and> sts ! i = ContainerInitializing \<and>
     all_at sts (Suc i) (length sts) {ContainerSetup} \<and>
     all_at sts 0 i ({ContainerInitialized} \<union> (if lv then {} else {ContainerInitializing}))"
| "main_ok sts lv failed MainStarting \<longleftrightarrow>
     all_at sts 0 (length sts) ({ContainerInitialized} \<union> (if lv then {} else {ContainerInitializing}))"
| "main_ok sts lv failed (MainStart i) \<longleftrightarrow>
     i \<le> length sts \<and> all_at sts i (length sts) {ContainerInitialized} \<and>
     all_at sts 0 i ({ContainerRunning} \<union> (if lv then {} else {ContainerStarting}))"
| "main_ok sts lv failed (MainStartHooks i hs) \<longleftrightarrow>
     i < length sts \<and> sts ! i = ContainerStarting \<and>
     all_at sts (Suc i) (length sts) {ContainerInitialized} \<and>
     all_at sts 0 i ({ContainerRunning} \<union> (if lv then {} else {ContainerStarting}))"
| "main_ok sts lv failed (MainStartCall i h hs) \<longleftrightarrow>
     i < length sts \<and> sts ! i = ContainerStarting \<and>
     all_at sts (Suc i) (length sts) {ContainerInitialized} \<and>
     all_at sts 0 i ({ContainerRunning} \<union> (if lv then {} else {ContainerStarting}))"
| "main_ok sts lv failed MainStarted \<longleftrightarrow>
     (lv \<and> \<not> failed \<longrightarrow> all_at sts 0 (length sts) {ContainerRunning})"
| "main_ok sts lv failed MainWait \<longleftrightarrow>
     (lv \<and> \<not> failed \<longrightarrow> all_at sts 0 (length sts) {ContainerRunning})"
| "main_ok sts lv failed p \<longleftrightarrow> True"

definition stopped :: "ct_state set" where
  "stopped = {ContainerSetup, ContainerStopped}"

definition unstopped :: "ct_state set" where
  "unstopped = UNIV - {ContainerStopping, ContainerStopped}"

fun sh_ok :: "ct_state list \<Rightarrow> 'h sh_pc \<Rightarrow> bool" where
  "sh_ok sts ShIdle \<longleftrightarrow> all_at sts 0 (length sts) unstopped"
| "sh_ok sts (ShNext k) \<longleftrightarrow>
     k \<le> length sts \<and> all_at sts k (length sts) stopped \<and> all_at sts 0 k unstopped"
| "sh_ok sts (ShStopping i stopping stops e) \<longleftrightarrow>
     i < length sts \<and> sts ! i = ContainerStopping \<and>
     all_at sts (Suc i) (length sts) stopped \<and> all_at sts 0 i unstopped"
| "sh_ok sts (ShStop i stops e) \<longleftrightarrow>
     i < length sts \<and> sts ! i = ContainerStopping \<and>
     all_at sts (Suc i) (length sts) stopped \<and> all_at sts 0 i unstopped"
| "sh_ok sts ShDone \<longleftrightarrow> all_at sts 0 (length sts) stopped"

definition ctl_inv :: "('h, 't, 'v) rt_sys \<Rightarrow> bool" where
  "ctl_inv y \<longleftrightarrow>
     main_ok (states_of y) (live y) (sy_reported y \<noteq> []) (sy_main y) \<and>
     sh_ok (states_of y) (sy_sh y) \<and>
     (rt_startupDone (sy_rt y) \<longleftrightarrow> \<not> early (sy_main y)) \<and>
     (rt_state (sy_rt y) = RuntimeSetup \<longleftrightarrow> sy_main y = MainSetup) \<and>
     (sy_sh y \<noteq> ShIdle \<longrightarrow> rt_startupDone (sy_rt y) \<and> \<not> live y) \<and>
     (\<forall>res. sy_main y = MainReturned res \<longrightarrow> sy_sh y = ShDone) \<and> \<not> sy_panicked y"

lemma states_put_ct [simp]: "states_of (put_ct i c y) = (states_of y)[i := ct_state c]"
  by (simp add: states_of_def put_ct_def map_update)

lemma length_states [simp]: "length (states_of y) = cts y"
  by (simp add: states_of_def)

lemma states_nth [simp]: "i < cts y \<Longrightarrow> states_of y ! i = ct_state (ct y i)"
  by (simp add: states_of_def)

lemma states_rt_cong:
  "rt_containers (sy_rt z) = rt_containers (sy_rt y) \<Longrightarrow> states_of z = states_of y"
  by (simp add: states_of_def)

lemma all_at_outside [simp]:
  "i < lo \<or> hi \<le> i \<Longrightarrow> all_at (sts[i := s]) lo hi S \<longleftrightarrow> all_at sts lo hi S"
  by (auto simp: all_at_def nth_list_update)

lemma all_at_first: "lo < hi \<Longrightarrow> all_at sts lo hi S \<longleftrightarrow> sts ! lo \<in> S \<and> all_at sts (Suc lo) hi S"
  by (auto simp: all_at_def Suc_le_eq) (metis nat_less_le)

lemma all_at_last: "lo \<le> hi \<Longrightarrow> all_at sts lo (Suc hi) S \<longleftrightarrow> all_at sts lo hi S \<and> sts ! hi \<in> S"
  by (auto simp: all_at_def less_Suc_eq)

lemma all_at_empty [simp]: "hi \<le> lo \<Longrightarrow> all_at sts lo hi S"
  by (auto simp: all_at_def)

lemma all_at_mono: "all_at sts lo hi S \<Longrightarrow> S \<subseteq> T \<Longrightarrow> all_at sts lo hi T"
  by (auto simp: all_at_def)

text \<open>The end of the context and a new error only weaken what is known.\<close>

lemma main_ok_mono:
  "main_ok sts lv failed p \<Longrightarrow> (lv' \<Longrightarrow> lv) \<Longrightarrow> (failed \<Longrightarrow> failed') \<Longrightarrow> main_ok sts lv' failed' p"
  by (cases p) (auto elim: all_at_mono split: if_splits)

lemma container_api_state:
  "container_OnInit name fn c = Ret c' \<Longrightarrow> ct_state c' = ct_state c"
  "container_OnStart name fn c = Ret c' \<Longrightarrow> ct_state c' = ct_state c"
  "container_OnStop name fn c = Ret c' \<Longrightarrow> ct_state c' = ct_state c"
  "container_OnStopping name fn c = Ret c' \<Longrightarrow> ct_state c' = ct_state c"
  "container_Set t v c = Ret c' \<Longrightarrow> ct_state c' = ct_state c"
  "container_Run g name fn (c, r) = Ret (Registered c') \<Longrightarrow> ct_state c' = ct_state c"
  "container_Run g name fn (c, r) = Ret (Launched (c', r')) \<Longrightarrow> ct_state c' = ct_state c"
  by (auto simp: container_OnInit_def container_OnStart_def container_OnStop_def
      container_OnStopping_def container_Set_def container_Run_def container_startTaskLocked_def
      go_bind_eq_Ret Let_def split: option.splits if_splits)

text \<open>A step that leaves the control and the container states alone keeps the invariant.\<close>

lemma ctl_inv_frame:
  assumes "ctl_inv y" and "states_of z = states_of y" and "live z \<Longrightarrow> live y"
    and "sy_reported y \<noteq> [] \<Longrightarrow> sy_reported z \<noteq> []"
    and "sy_main z = sy_main y" and "sy_sh z = sy_sh y"
    and "rt_startupDone (sy_rt z) = rt_startupDone (sy_rt y)"
    and "rt_state (sy_rt z) = rt_state (sy_rt y)" and "sy_panicked z = sy_panicked y"
  shows "ctl_inv z"
proof -
  have cts: "cts z = cts y"
    using arg_cong [OF assms(2), of length] by simp
  have "main_ok (states_of z) (live z) (sy_reported z \<noteq> []) (sy_main z)"
    using assms main_ok_mono [of "states_of y" "live y" "sy_reported y \<noteq> []" "sy_main y" "live z"
        "sy_reported z \<noteq> []"] unfolding ctl_inv_def by metis
  then show ?thesis
    using assms cts by (cases "live z") (auto simp: ctl_inv_def simp del: not_None_eq)
qed

lemma put_frame:
  "sy_main (put_ct i c y) = sy_main y" "sy_sh (put_ct i c y) = sy_sh y"
  "rt_ctx (sy_rt (put_ct i c y)) = rt_ctx (sy_rt y)" "sy_reported (put_ct i c y) = sy_reported y"
  "rt_startupDone (sy_rt (put_ct i c y)) = rt_startupDone (sy_rt y)"
  "rt_state (sy_rt (put_ct i c y)) = rt_state (sy_rt y)" "sy_panicked (put_ct i c y) = sy_panicked y"
  "rt_containers (sy_rt (put_ct i c y)) = (rt_containers (sy_rt y))[i := c]"
  by (simp_all add: put_ct_def)

lemma states_put_same: "ct_state c = ct_state (ct y i) \<Longrightarrow> states_of (put_ct i c y) = states_of y"
  by (cases "i < cts y") (auto simp: states_of_def put_ct_def list_eq_iff_nth_eq nth_list_update)

lemma task_step_ctl:
  assumes "task_step y z" and inv: "ctl_inv y"
  shows "ctl_inv z"
  using assms(1)
proof cases
  case (task_returns k t err)
  then show ?thesis
    by (intro ctl_inv_frame [OF inv]) (auto simp: set_task_def intro!: states_rt_cong)
next
  case (task_stops k t err)
  then show ?thesis
    by (intro ctl_inv_frame [OF inv] trans [OF states_rt_cong states_put_same [of "container_stopTask (tk_name t) (ct y (tk_ct t))" y "tk_ct t"]])
      (auto simp: set_task_def put_frame container_stopTask_def)
next
  case (task_done k t err)
  then show ?thesis
    by (intro ctl_inv_frame [OF inv] trans [OF states_rt_cong states_put_same [of "(ct y (tk_ct t))\<lparr>ct_wg := ct_wg (ct y (tk_ct t)) - 1\<rparr>" y "tk_ct t"]])
      (auto simp: set_task_def put_frame)
next
  case (task_reports k t err)
  then show ?thesis
    by (intro ctl_inv_frame [OF inv])
      (auto simp: report_error_def put_runner_def intro!: states_rt_cong)
qed

lemma context_step_ctl: "context_step y z \<Longrightarrow> ctl_inv y \<Longrightarrow> ctl_inv z"
  by (erule context_step.cases; rule ctl_inv_frame)
    (auto simp: put_runner_def put_ctx_def cancel_cause_def intro!: states_rt_cong split: if_splits)

lemma attach_ctl:
  assumes inv: "ctl_inv y" and "rt_state (sy_rt y) = RuntimeSetup"
    and "ct_state c = ContainerSetup"
  shows "ctl_inv (y\<lparr>sy_rt := (sy_rt y)\<lparr>rt_containers := rt_containers (sy_rt y) @ [c]\<rparr>\<rparr>)"
proof -
  have "sy_main y = MainSetup" "sy_sh y = ShIdle"
    using assms by (auto simp: ctl_inv_def)
  then show ?thesis
    using assms by (auto simp: ctl_inv_def states_of_def all_at_def nth_append less_Suc_eq unstopped_def)
qed

lemma attach_cases:
  "runtime_Attach name r = Ret r' \<Longrightarrow>
     rt_state r = RuntimeSetup \<and> name \<noteq> [] \<and> (\<forall>c \<in> set (rt_containers r). ct_name c \<noteq> name) \<and>
     r' = r\<lparr>rt_containers := rt_containers r @ [NewContainer name]\<rparr>"
  by (auto simp: runtime_Attach_def list_ex_iff split: if_splits)

lemma create_cases:
  "runtime_Create name (Some f) r = Ret r' \<Longrightarrow>
     rt_state r = RuntimeSetup \<and> name \<noteq> [] \<and> (\<forall>c \<in> set (rt_containers r). ct_name c \<noteq> name) \<and>
     r' = r\<lparr>rt_containers := rt_containers r @
       [(NewContainer name)\<lparr>ct_initFns := [\<lparr>hk_fn = f, hk_name = ''create''\<rparr>]\<rparr>]\<rparr>"
  by (auto simp: runtime_Create_def go_bind_eq_Ret container_OnInit_def NewContainer_def
      dest!: attach_cases)

lemma global_set_cases: "runtime_Set t v r = Ret r' \<Longrightarrow> \<exists>s. r' = r\<lparr>rt_store := s\<rparr>"
  by (auto simp: runtime_Set_def go_bind_eq_Ret split: if_splits)

lemma api_step_ctl:
  assumes "api_step y z" and inv: "ctl_inv y"
  shows "ctl_inv z"
  using assms(1)
proof cases
  case (attaches name r)
  then show ?thesis
    using attach_ctl [OF inv, of "NewContainer name"] by (auto simp: NewContainer_def dest!: attach_cases)
next
  case (creates name f r)
  then show ?thesis
    using attach_ctl [OF inv, of "(NewContainer name)\<lparr>ct_initFns := [\<lparr>hk_fn = f, hk_name = ''create''\<rparr>]\<rparr>"]
    by (auto simp: NewContainer_def dest!: create_cases)
next
  case (sets_global t v r)
  then show ?thesis
    by (intro ctl_inv_frame [OF inv]) (auto dest!: global_set_cases intro!: states_rt_cong)
next
  case (registers i name f c t v)
  then have "ct_state c = ct_state (ct y i)"
    by (elim disjE) (erule container_api_state)+
  from states_put_same [OF this] show ?thesis
    unfolding registers(1) by (intro ctl_inv_frame [OF inv]) (simp_all add: put_frame del: states_put_ct)
next
  case (registers_task i name f c)
  from states_put_same [OF container_api_state(6) [OF registers_task(3)]] show ?thesis
    unfolding registers_task(1)
    by (intro ctl_inv_frame [OF inv]) (simp_all add: put_frame del: states_put_ct)
next
  case (launches_task i name f c r)
  from states_put_same [OF container_api_state(7) [OF launches_task(3)]]
  have "states_of z = states_of y"
    unfolding launches_task(1) by (simp add: states_of_def launch_def put_runner_def)
  then show ?thesis
    by (intro ctl_inv_frame [OF inv]) (simp_all add: launches_task(1) put_frame launch_def put_runner_def)
qed

lemma states_at [simp]: "states_of (sh_at p y) = states_of y" "states_of (main_at q y) = states_of y"
  "states_of (log_hook i ph name err y) = states_of y" "states_of (put_ctx x y) = states_of y"
  "states_of (put_runner r y) = states_of y" "states_of (launch i hs y) = states_of y"
  "states_of (report_error err y) = states_of y"
  "states_of (y\<lparr>sy_rt := (sy_rt y)\<lparr>rt_stopErr := e\<rparr>\<rparr>) = states_of y"
  by (simp_all add: states_of_def rt_put_defs)

lemma main_ok_late: "\<not> early p \<Longrightarrow> main_ok sts False failed p"
  by (cases p) simp_all

text \<open>During a shutdown only the container states matter.\<close>

lemma ctl_inv_shutdown:
  assumes "ctl_inv y" and "sy_sh y \<noteq> ShIdle" "sy_sh y \<noteq> ShDone" and "sy_main z = sy_main y"
    and "rt_ctx (sy_rt z) = rt_ctx (sy_rt y)" and "rt_startupDone (sy_rt z) = rt_startupDone (sy_rt y)"
    and "rt_state (sy_rt z) = rt_state (sy_rt y)" and "sy_panicked z = sy_panicked y"
    and "sh_ok (states_of z) (sy_sh z)"
  shows "ctl_inv z"
proof -
  have "\<not> live y" "\<not> early (sy_main y)" "\<forall>res. sy_main y \<noteq> MainReturned res"
    using assms(1-3) by (auto simp: ctl_inv_def)
  then show ?thesis
    using assms main_ok_late [of "sy_main y"] by (simp add: ctl_inv_def del: not_None_eq)
qed

lemma sh_ok_of: "ctl_inv y \<Longrightarrow> sy_sh y = p \<Longrightarrow> sh_ok (states_of y) p"
  by (simp add: ctl_inv_def)

lemma shutdown_begin_cases:
  "container_shutdown_begin c = None \<Longrightarrow> ct_state c \<in> stopped"
  "container_shutdown_begin c = Some (c', stopping, stops) \<Longrightarrow>
     ct_state c \<notin> stopped \<and> c' = c\<lparr>ct_state := ContainerStopping\<rparr> \<and>
     stopping = ct_stoppingFns c \<and> stops = ct_stopFns c"
  by (auto simp: container_shutdown_begin_def stopped_def split: if_splits)

lemma shutdown_step_ctl:
  assumes "shutdown_step y z" and inv: "ctl_inv y"
  shows "ctl_inv z"
  using assms(1)
proof cases
  case sh_begins
  then show ?thesis
    using inv main_ok_late [of "sy_main y"] by (auto simp: ctl_inv_def sh_at_def states_of_def)
next
  case (sh_skips i)
  have "Suc i \<le> cts y" "all_at (states_of y) (Suc i) (cts y) stopped" "all_at (states_of y) 0 (Suc i) unstopped"
    using sh_ok_of [OF inv sh_skips(2)] by simp_all
  then have "sh_ok (states_of y) (ShNext i)"
    using shutdown_begin_cases(1) [OF sh_skips(3)]
    by (simp add: all_at_first [of i] all_at_last)
  then show ?thesis
    using sh_skips by (intro ctl_inv_shutdown [OF inv]) (simp_all, simp_all add: sh_at_def)
next
  case (sh_stops i c stopping stops)
  have "Suc i \<le> cts y" "all_at (states_of y) (Suc i) (cts y) stopped" "all_at (states_of y) 0 (Suc i) unstopped"
    using sh_ok_of [OF inv sh_stops(2)] by simp_all
  then have "sh_ok ((states_of y)[i := ct_state c]) (ShStopping i (rev stopping) (rev stops) None)"
    using shutdown_begin_cases(2) [OF sh_stops(3)] by (simp add: all_at_last)
  then show ?thesis
    using sh_stops by (intro ctl_inv_shutdown [OF inv]) (simp_all, simp_all add: sh_at_def put_frame)
next
  case (sh_stopping_hook i h hs stops e err)
  then show ?thesis
    using sh_ok_of [OF inv sh_stopping_hook(2)]
    by (intro ctl_inv_shutdown [OF inv]) (simp_all, simp_all add: sh_at_def log_hook_def)
next
  case (sh_waits i stops e)
  then show ?thesis
    using sh_ok_of [OF inv sh_waits(2)]
    by (intro ctl_inv_shutdown [OF inv]) (simp_all, simp_all add: sh_at_def log_hook_def)
next
  case (sh_stop_hook i h hs e err)
  then show ?thesis
    using sh_ok_of [OF inv sh_stop_hook(2)]
    by (intro ctl_inv_shutdown [OF inv]) (simp_all, simp_all add: sh_at_def log_hook_def)
next
  case (sh_ends i e)
  have "i < cts y" "all_at (states_of y) (Suc i) (cts y) stopped" "all_at (states_of y) 0 i unstopped"
    using sh_ok_of [OF inv sh_ends(2)] by simp_all
  then have "sh_ok ((states_of y)[i := ContainerStopped]) (ShNext i)"
    by (simp add: all_at_first [of i] stopped_def)
  then show ?thesis
    using sh_ends by (intro ctl_inv_shutdown [OF inv])
      (simp_all add: container_shutdown_end_def, simp_all add: sh_at_def put_frame)
next
  case sh_done
  then show ?thesis
    using sh_ok_of [OF inv sh_done(2)]
    by (intro ctl_inv_shutdown [OF inv]) (simp_all, simp_all add: sh_at_def log_hook_def)
qed

lemma main_ok_of: "ctl_inv y \<Longrightarrow> sy_main y = p \<Longrightarrow> main_ok (states_of y) (live y) (sy_reported y \<noteq> []) p"
  by (simp add: ctl_inv_def)

text \<open>Until startup is done nothing is being stopped.\<close>

lemma ctl_inv_startup:
  assumes "ctl_inv y" and "early (sy_main y)" and "rt_startupDone (sy_rt z) \<longleftrightarrow> \<not> early (sy_main z)"
    and "sy_sh z = sy_sh y" and "\<not> sy_panicked z"
    and "rt_state (sy_rt z) \<noteq> RuntimeSetup" and "sy_main z \<noteq> MainSetup"
    and "\<forall>res. sy_main z \<noteq> MainReturned res"
    and "main_ok (states_of z) (live z) (sy_reported z \<noteq> []) (sy_main z)"
    and "all_at (states_of z) 0 (cts z) unstopped"
  shows "ctl_inv z"
proof -
  have "sy_sh y = ShIdle"
    using assms(1,2) by (auto simp: ctl_inv_def)
  then show ?thesis
    using assms by (simp add: ctl_inv_def)
qed

lemma unstopped_of:
  "ctl_inv y \<Longrightarrow> early (sy_main y) \<Longrightarrow> all_at (states_of y) 0 (cts y) unstopped"
  by (cases "sy_sh y") (auto simp: ctl_inv_def)

lemma startup_facts:
  assumes "ctl_inv y" and "early (sy_main y)" and "sy_main y \<noteq> MainSetup"
  shows "\<not> rt_startupDone (sy_rt y)" "rt_state (sy_rt y) \<noteq> RuntimeSetup" "\<not> sy_panicked y"
    "all_at (states_of y) 0 (cts y) unstopped"
  using assms unstopped_of [OF assms(1,2)] by (auto simp: ctl_inv_def)

text \<open>A step of startup that keeps the containers, or changes the state of one of them.\<close>

lemma startup_move:
  assumes inv: "ctl_inv y" and early: "early (sy_main y)" "sy_main y \<noteq> MainSetup"
    and "early p" "p \<noteq> MainSetup" and "main_ok (states_of y) (live y) (sy_reported y \<noteq> []) p"
  shows "ctl_inv (main_at p y)"
  using startup_facts [OF inv early] assms
  by (intro ctl_inv_startup [OF inv early(1)]) (simp_all, auto simp: main_at_def)

lemma startup_put:
  assumes inv: "ctl_inv y" and early: "early (sy_main y)" "sy_main y \<noteq> MainSetup"
    and "early p" "p \<noteq> MainSetup" and "i < cts y" and "ct_state c \<in> unstopped"
    and "main_ok ((states_of y)[i := ct_state c]) (live y) (sy_reported y \<noteq> []) p"
  shows "ctl_inv (main_at p (put_ct i c y))"
proof -
  have "all_at ((states_of y)[i := ct_state c]) 0 (cts y) unstopped"
    using startup_facts(4) [OF inv early] assms(6,7) by (auto simp: all_at_def nth_list_update)
  then show ?thesis
    using startup_facts [OF inv early] assms
    by (intro ctl_inv_startup [OF inv early(1)]) (simp_all, auto simp: main_at_def put_frame)
qed

lemma init_begin_cases:
  "container_init_begin c = Ret (c', hs) \<Longrightarrow>
     ct_state c = ContainerSetup \<and> c' = c\<lparr>ct_state := ContainerInitializing\<rparr> \<and> hs = ct_initFns c"
  "container_init_begin c = Panic m \<Longrightarrow> ct_state c \<noteq> ContainerSetup"
  by (auto simp: container_init_begin_def split: if_splits)

lemma start_begin_cases:
  "container_start_begin c = Ret (c', hs) \<Longrightarrow>
     ct_state c = ContainerInitialized \<and> c' = c\<lparr>ct_state := ContainerStarting\<rparr> \<and> hs = ct_startFns c"
  "container_start_begin c = Panic m \<Longrightarrow> ct_state c \<noteq> ContainerInitialized"
  by (auto simp: container_start_begin_def split: if_splits)

lemma start_tasks_eq:
  "start_tasks g hs (c, r) =
     (c\<lparr>ct_running := ct_running c @ map hk_name hs, ct_wg := ct_wg c + length hs\<rparr>,
      r\<lparr>rn_wg := rev [g..<g + length hs] @ rn_wg r\<rparr>)"
proof (induction hs arbitrary: g c r)
  case (Cons h hs)
  have "rev [g..<Suc (g + length hs)] = rev [Suc g..<Suc (g + length hs)] @ [g]"
    by (simp add: upt_conv_Cons del: upt_Suc)
  then show ?case
    by (simp add: Cons.IH container_startTaskLocked_def runner_Run_def del: upt_Suc)
qed simp

lemma start_end_cases:
  assumes "container_start_end x g (c, r) = ((c', r'), hs)"
  shows "(ctx_err x \<noteq> None \<and> c' = c \<and> r' = r \<and> hs = []) \<or>
    (ctx_err x = None \<and> hs = ct_tasks c \<and>
     c' = c\<lparr>ct_running := ct_running c @ map hk_name hs, ct_wg := ct_wg c + length hs,
            ct_tasks := [], ct_state := ContainerRunning\<rparr> \<and>
     r' = r\<lparr>rn_wg := rev [g..<g + length hs] @ rn_wg r\<rparr>)"
  using assms by (auto simp: container_start_end_def start_tasks_eq split: if_splits)

lemma init_step_ctl:
  assumes inv: "ctl_inv y" and main: "sy_main y = MainInit i" and "i < cts y"
    and begin': "container_init_begin (ct y i) = Ret (c, hs)"
  shows "ctl_inv (main_at (MainInitHooks i hs) (put_ct i c y))"
  using main_ok_of [OF inv main] init_begin_cases(1) [OF begin'] assms(3)
  by (intro startup_put [OF inv]) (simp_all add: main unstopped_def all_at_first [of i])

lemma init_end_ctl:
  assumes inv: "ctl_inv y" and main: "sy_main y = MainInitHooks i []"
  shows "ctl_inv (main_at (MainInit (Suc i)) (put_ct i (container_init_end (rt_ctx (sy_rt y)) (ct y i)) y))"
  using main_ok_of [OF inv main]
  by (intro startup_put [OF inv])
    (auto simp: main unstopped_def container_init_end_def all_at_last)

lemma start_step_ctl:
  assumes inv: "ctl_inv y" and main: "sy_main y = MainStart i" and "i < cts y"
    and begin': "container_start_begin (ct y i) = Ret (c, hs)"
  shows "ctl_inv (main_at (MainStartHooks i hs) (put_ct i c y))"
  using main_ok_of [OF inv main] start_begin_cases(1) [OF begin'] assms(3)
  by (intro startup_put [OF inv]) (simp_all add: main unstopped_def all_at_first [of i])

lemma start_end_ctl:
  assumes inv: "ctl_inv y" and main: "sy_main y = MainStartHooks i []"
    and end': "container_start_end (rt_ctx (sy_rt y)) g (ct y i, r0) = ((c, r), hs)"
  shows "ctl_inv (main_at (MainStart (Suc i)) (launch i hs (put_runner r (put_ct i c y))))"
proof -
  have "ctl_inv (main_at (MainStart (Suc i)) (put_ct i c y))"
    using main_ok_of [OF inv main] start_end_cases [OF end']
    by (intro startup_put [OF inv])
      (auto simp: main unstopped_def all_at_last)
  then show ?thesis
    by (rule ctl_inv_frame) (simp_all, simp_all add: main_at_def launch_def put_runner_def)
qed

lemma main_step_ctl:
  assumes "main_step y z" and inv: "ctl_inv y"
  shows "ctl_inv z"
  using assms(1)
proof cases
  case (run_begins parent opts r deadline)
  then show ?thesis
    using main_ok_of [OF inv run_begins(2)] unstopped_of [OF inv] inv
    by (intro ctl_inv_startup [OF inv])
      (auto simp: main_at_def states_of_def runtime_Run_begin_def ctl_inv_def split: if_splits)
next
  case (init_begins i c hs)
  then show ?thesis using init_step_ctl [OF inv] by simp
next
  case (init_panics i m)
  then show ?thesis
    using main_ok_of [OF inv init_panics(2)] init_begin_cases(2) [OF init_panics(5)]
    by (simp add: all_at_first [of i])
next
  case (init_ends i)
  then show ?thesis using init_end_ctl [OF inv] by simp
next
  case (start_begins i c hs)
  then show ?thesis using start_step_ctl [OF inv] by simp
next
  case (start_panics i m)
  then show ?thesis
    using main_ok_of [OF inv start_panics(2)] start_begin_cases(2) [OF start_panics(5)]
    by (simp add: all_at_first [of i])
next
  case (start_ends i c r hs)
  then show ?thesis using start_end_ctl [OF inv start_ends(2,3)] by simp
next
  case (starting)
  have "ctl_inv (main_at (MainStart 0) y)"
    using main_ok_of [OF inv starting(2)] starting by (intro startup_move [OF inv]) simp_all
  then show ?thesis
    unfolding starting(1) by (auto simp: ctl_inv_def main_at_def states_of_def)
next
  case (init_hook i h hs err)
  have "ctl_inv (log_hook i PhInit (hk_name h) (hook_error (ct y i) h err) y)"
    by (rule ctl_inv_frame [OF inv]) (simp_all, simp_all add: log_hook_def)
  then show ?thesis
    unfolding init_hook(1) using main_ok_of [OF inv init_hook(2)] init_hook(2)
    by (intro startup_move) (simp_all split: option.split, auto simp: log_hook_def insert_commute split: if_splits)
next
  case (start_hook i h hs err)
  have "ctl_inv (log_hook i PhStart (hk_name h) (hook_error (ct y i) h err) y)"
    by (rule ctl_inv_frame [OF inv]) (simp_all, simp_all add: log_hook_def)
  then show ?thesis
    unfolding start_hook(1) using main_ok_of [OF inv start_hook(2)] start_hook(2)
    by (intro startup_move) (simp_all split: option.split, auto simp: log_hook_def insert_commute split: if_splits)
next
  case (cancels e r)
  have "ctl_inv (report_error (Some e) (put_runner r y))"
    by (rule ctl_inv_frame [OF inv]) (simp_all, simp_all add: report_error_def put_runner_def)
  then show ?thesis
    unfolding cancels(1) using cancels(2)
    by (intro startup_move) (simp_all add: report_error_def put_runner_def)
next
  case (waited r err)
  have "ctl_inv (put_runner r y)"
    by (rule ctl_inv_frame [OF inv]) (simp_all, simp_all add: put_runner_def)
  then show ?thesis
    unfolding waited(1) using waited(2)
    by (simp add: ctl_inv_def) (simp add: main_at_def put_runner_def)
next
  case (cancels_tasks err)
  then show ?thesis
    using inv by (auto simp: ctl_inv_def) (auto simp: main_at_def put_ctx_def)
next
  case (main_returns err)
  then show ?thesis
    using inv by (auto simp: ctl_inv_def main_at_def states_of_def)
next
  case started
  then show ?thesis
    using inv by (auto simp: ctl_inv_def main_at_def states_of_def)
next
  case (init_hooks_ctx i h hs)
  then show ?thesis
    using main_ok_of [OF inv init_hooks_ctx(2)]
    by (auto simp: all_at_last insert_commute intro!: startup_move [OF inv])
next
  case (start_hooks_ctx i h hs)
  then show ?thesis
    using main_ok_of [OF inv start_hooks_ctx(2)]
    by (auto simp: all_at_last insert_commute intro!: startup_move [OF inv])
next
  case (init_calls i h hs)
  then show ?thesis
    using main_ok_of [OF inv init_calls(2)] by (auto intro!: startup_move [OF inv])
next
  case (start_calls i h hs)
  then show ?thesis
    using main_ok_of [OF inv start_calls(2)] by (auto intro!: startup_move [OF inv])
next
  case (init_done i)
  then show ?thesis
    using main_ok_of [OF inv init_done(2)] by (auto intro!: startup_move [OF inv])
next
  case (start_done i)
  then show ?thesis
    using main_ok_of [OF inv start_done(2)] by (auto intro!: startup_move [OF inv])
qed (auto intro!: startup_move [OF inv])

definition rt_new :: "('h, 't, 'v) rt_sys \<Rightarrow> bool" where
  "rt_new y \<longleftrightarrow> y = rt_start"

lemma ctl_start: "rt_new y \<Longrightarrow> ctl_inv y"
  by (simp add: rt_new_def rt_start_def ctl_inv_def states_of_def NewRuntime_def)

lemma rt_step_ctl: "ctl_inv y \<Longrightarrow> rt_step y z \<Longrightarrow> ctl_inv z"
  by (auto elim!: rt_step.cases
      intro: main_step_ctl shutdown_step_ctl task_step_ctl context_step_ctl api_step_ctl)

interpretation runtime_control: inductive_invariant rt_new rt_step ctl_inv
  by unfold_locales (auto intro: ctl_start rt_step_ctl)

end
