(* ===== verification/Gx_Runtime_Tasks.thy ===== *)
theory Gx_Runtime_Tasks imports Gx_Runtime begin

text \<open>
  The managed tasks of a run: the wait groups of the containers, the one of the runner and
  the list of running tasks agree with the goroutines that exist, and the stop hooks of a
  container run only after its tasks have exited.
\<close>

section \<open>The bookkeeping invariant\<close>

fun counted :: "task_pc \<Rightarrow> bool" where
  "counted (TaskReport err) = False"
| "counted p = True"

fun listed :: "task_pc \<Rightarrow> bool" where
  "listed TaskBody = True"
| "listed (TaskStop err) = True"
| "listed p = False"

definition tasks_of :: "nat \<Rightarrow> (task_pc \<Rightarrow> bool) \<Rightarrow> task_run list \<Rightarrow> task_run list" where
  "tasks_of i P ts = filter (\<lambda>t. tk_ct t = i \<and> P (tk_pc t)) ts"

definition task_inv :: "('h, 't, 'v) rt_sys \<Rightarrow> bool" where
  "task_inv y \<longleftrightarrow>
     distinct (map tk_id (sy_tasks y)) \<and> (\<forall>t \<in> set (sy_tasks y). tk_id t < sy_next y) \<and>
     mset (rn_wg (rt_runner (sy_rt y))) = mset (map tk_id (sy_tasks y)) \<and>
     (sy_main y = MainSetup \<longrightarrow> sy_tasks y = []) \<and>
     (\<forall>t \<in> set (sy_tasks y). tk_ct t < cts y) \<and>
     (\<forall>i < cts y.
        ct_wg (ct y i) = length (tasks_of i counted (sy_tasks y)) \<and>
        mset (ct_running (ct y i)) = mset (map tk_name (tasks_of i listed (sy_tasks y))))"

text \<open>Containers before and after their working life have no task that counts.\<close>

definition idle_states :: "ct_state set" where
  "idle_states = {ContainerSetup, ContainerInitializing, ContainerInitialized, ContainerStopped}"

definition idle_inv :: "('h, 't, 'v) rt_sys \<Rightarrow> bool" where
  "idle_inv y \<longleftrightarrow>
     (\<forall>i < cts y. ct_state (ct y i) \<in> idle_states \<longrightarrow> ct_wg (ct y i) = 0) \<and>
     (\<forall>i hs e. sy_sh y = ShStop i hs e \<longrightarrow> ct_wg (ct y i) = 0)"

lemma tasks_of_simps [simp]:
  "tasks_of i P [] = []"
  "tasks_of i P (ts @ us) = tasks_of i P ts @ tasks_of i P us"
  "tasks_of i P (t # ts) = (if tk_ct t = i \<and> P (tk_pc t) then t # tasks_of i P ts else tasks_of i P ts)"
  by (simp_all add: tasks_of_def)

lemma new_tasks_ids: "map tk_id (new_tasks i g hs) = [g..<g + length hs]"
  by (rule nth_equalityI) (simp_all add: new_tasks_def)

lemma new_tasks_names: "map tk_name (new_tasks i g hs) = map hk_name hs"
  by (rule nth_equalityI) (simp_all add: new_tasks_def)

lemma new_tasks_mset:
  "image_mset tk_name (mset (new_tasks i g hs)) = image_mset hk_name (mset hs)"
  using arg_cong [OF new_tasks_names, of mset i g hs] by simp

lemma new_tasks_all: "t \<in> set (new_tasks i g hs) \<Longrightarrow> tk_ct t = i \<and> tk_pc t = TaskBody \<and> tk_id t < g + length hs"
  by (auto simp: new_tasks_def dest: set_zip_leftD)

lemma tasks_of_new:
  "P TaskBody \<Longrightarrow> tasks_of j P (new_tasks i g hs) = (if j = i then new_tasks i g hs else [])"
  using new_tasks_all by (auto simp: tasks_of_def filter_id_conv filter_empty_conv)

lemma length_new_tasks [simp]: "length (new_tasks i g hs) = length hs"
  by (simp add: new_tasks_def)

text \<open>What a step that touches no task has to keep.\<close>

lemma task_inv_frame:
  assumes "task_inv y" and "sy_tasks z = sy_tasks y" and "sy_next z = sy_next y"
    and "rn_wg (rt_runner (sy_rt z)) = rn_wg (rt_runner (sy_rt y))"
    and "sy_main z = MainSetup \<Longrightarrow> sy_main y = MainSetup" and "cts z = cts y"
    and "\<And>i. i < cts y \<Longrightarrow> ct_wg (ct z i) = ct_wg (ct y i)"
    and "\<And>i. i < cts y \<Longrightarrow> ct_running (ct z i) = ct_running (ct y i)"
  shows "task_inv z"
  using assms by (auto simp: task_inv_def)

lemma idle_inv_frame:
  assumes "idle_inv y" and "cts z = cts y"
    and "\<And>i. i < cts y \<Longrightarrow> ct_state (ct z i) \<in> idle_states \<Longrightarrow>
      ct_state (ct y i) \<in> idle_states \<or> ct_wg (ct y i) = 0"
    and "\<And>i. i < cts y \<Longrightarrow> ct_wg (ct z i) = ct_wg (ct y i)"
    and "\<And>i hs e. sy_sh z = ShStop i hs e \<Longrightarrow> i < cts y \<and> ct_wg (ct y i) = 0"
  shows "idle_inv z"
  using assms unfolding idle_inv_def by metis

lemma tasks_none:
  assumes "task_inv y" and "sy_main y = MainSetup"
  shows "sy_tasks y = []" "rn_wg (rt_runner (sy_rt y)) = []"
  using assms by (auto simp: task_inv_def)

text \<open>Starting tasks: names, wait group, runner and records grow together.\<close>

lemma launch_inv:
  assumes inv: "task_inv y" and "i < cts y" and "sy_main z \<noteq> MainSetup"
    and c: "ct_wg c = ct_wg (ct y i) + length hs" "ct_running c = ct_running (ct y i) @ map hk_name hs"
    and z: "rt_containers (sy_rt z) = (rt_containers (sy_rt y))[i := c]"
      "sy_tasks z = sy_tasks y @ new_tasks i (sy_next y) hs" "sy_next z = sy_next y + length hs"
      "mset (rn_wg (rt_runner (sy_rt z))) = mset [sy_next y..<sy_next y + length hs] + mset (rn_wg (rt_runner (sy_rt y)))"
  shows "task_inv z"
proof -
  have "tk_id t < sy_next y + length hs \<and> tk_ct t < cts y" if "t \<in> set (sy_tasks z)" for t
    using that inv assms(2) new_tasks_all [of t i "sy_next y" hs] by (auto simp: task_inv_def z)
  moreover have "tk_id ` set (new_tasks i (sy_next y) hs) = {sy_next y..<sy_next y + length hs}"
    using arg_cong [OF new_tasks_ids, of set i "sy_next y" hs] by simp
  then have "distinct (map tk_id (sy_tasks z))"
    using inv by (auto simp: task_inv_def z new_tasks_ids)
  moreover have "mset (rn_wg (rt_runner (sy_rt z))) = mset (map tk_id (sy_tasks z))"
    using inv by (simp add: task_inv_def z new_tasks_ids)
  moreover have "ct_wg (ct z j) = length (tasks_of j counted (sy_tasks z)) \<and>
      mset (ct_running (ct z j)) = mset (map tk_name (tasks_of j listed (sy_tasks z)))"
    if "j < cts y" for j
    using inv that assms(2) c
    by (auto simp: task_inv_def z tasks_of_new new_tasks_mset nth_upd)
  ultimately show ?thesis
    using assms(3) z(1,3) by (simp add: task_inv_def)
qed

lemma task_split:
  assumes "task_at k t y"
  obtains pre post where "sy_tasks y = pre @ t # post" "k = length pre"
    "\<forall>p. sy_tasks (set_task k p y) = pre @ t\<lparr>tk_pc := p\<rparr> # post"
proof -
  have k: "k < length (sy_tasks y)" and t: "sy_tasks y ! k = t"
    using assms by (auto simp: task_at_def)
  show ?thesis
    by (rule that [of "take k (sy_tasks y)" "drop (Suc k) (sy_tasks y)"])
      (use k t in \<open>auto simp: id_take_nth_drop [symmetric] set_task_def upd_conv_take_nth_drop\<close>)
qed

lemma task_step_inv:
  assumes "task_step y z" and inv: "task_inv y"
  shows "task_inv z"
  using assms(1)
proof cases
  case (task_returns k t err)
  obtain pre post where split: "sy_tasks y = pre @ t # post" "k = length pre"
    "\<forall>p. sy_tasks (set_task k p y) = pre @ t\<lparr>tk_pc := p\<rparr> # post"
    by (rule task_split [OF task_returns(2)])
  have tasks: "sy_tasks z =
    pre @ t\<lparr>tk_pc := TaskStop (task_result (rt_ctx (sy_rt y)) (ct_name (ct y (tk_ct t))) (tk_name t) err)\<rparr> # post"
    using split(3) by (simp add: task_returns(1))
  have "rt_containers (sy_rt z) = rt_containers (sy_rt y)" "rt_runner (sy_rt z) = rt_runner (sy_rt y)"
    "sy_next z = sy_next y" "sy_main z = sy_main y"
    by (simp_all add: task_returns(1) set_task_def)
  then show ?thesis
    using inv task_returns(3) split(1) by (auto simp: task_inv_def tasks)
next
  case (task_stops k t err)
  obtain pre post where split: "sy_tasks y = pre @ t # post" "k = length pre"
    "\<forall>p. sy_tasks (set_task k p y) = pre @ t\<lparr>tk_pc := p\<rparr> # post"
    by (rule task_split [OF task_stops(2)])
  have tasks: "sy_tasks z = pre @ t\<lparr>tk_pc := TaskDone err\<rparr> # post"
    using split(3) by (simp add: task_stops(1) set_task_def put_ct_def)
  have z: "rt_containers (sy_rt z) =
      (rt_containers (sy_rt y))[tk_ct t := container_stopTask (tk_name t) (ct y (tk_ct t))]"
    "rt_runner (sy_rt z) = rt_runner (sy_rt y)" "sy_next z = sy_next y" "sy_main z = sy_main y"
    by (simp_all add: task_stops(1) set_task_def put_ct_def)
  then show ?thesis
    using inv task_stops(3) split(1)
    by (auto simp: task_inv_def tasks nth_upd container_stopTask_def)
next
  case (task_done k t err)
  obtain pre post where split: "sy_tasks y = pre @ t # post" "k = length pre"
    "\<forall>p. sy_tasks (set_task k p y) = pre @ t\<lparr>tk_pc := p\<rparr> # post"
    by (rule task_split [OF task_done(2)])
  have tasks: "sy_tasks z = pre @ t\<lparr>tk_pc := TaskReport err\<rparr> # post"
    using split(3) by (simp add: task_done(1) set_task_def put_ct_def)
  have z: "rt_containers (sy_rt z) =
      (rt_containers (sy_rt y))[tk_ct t := (ct y (tk_ct t))\<lparr>ct_wg := ct_wg (ct y (tk_ct t)) - 1\<rparr>]"
    "rt_runner (sy_rt z) = rt_runner (sy_rt y)" "sy_next z = sy_next y" "sy_main z = sy_main y"
    by (simp_all add: task_done(1) set_task_def put_ct_def)
  then show ?thesis
    using inv task_done(3) split(1)
    by (auto simp: task_inv_def tasks nth_upd)
next
  case (task_reports k t err)
  obtain pre post where split: "sy_tasks y = pre @ t # post" "k = length pre"
    "\<forall>p. sy_tasks (set_task k p y) = pre @ t\<lparr>tk_pc := p\<rparr> # post"
    by (rule task_split [OF task_reports(2)])
  have tasks: "sy_tasks z = pre @ post"
    by (simp add: task_reports(1) split report_error_def put_runner_def)
  have "mset (rn_wg (rt_runner (sy_rt z))) = mset (remove1 (tk_id t) (rn_wg (rt_runner (sy_rt y))))"
    by (simp add: task_reports(1) report_error_def put_runner_def runner_finish_def Let_def)
  moreover have "rt_containers (sy_rt z) = rt_containers (sy_rt y)" "sy_next z = sy_next y"
    "sy_main z = sy_main y"
    by (simp_all add: task_reports(1) report_error_def put_runner_def)
  ultimately show ?thesis
    using inv task_reports(3) by (auto simp: task_inv_def tasks split(1))
qed

lemma nth_put: "i < cts y \<Longrightarrow> ct (put_ct j c y) i = (if i = j then c else ct y i)"
  by (auto simp: put_ct_def nth_upd)

lemma put_ct_rest [simp]:
  "sy_tasks (put_ct i c y) = sy_tasks y" "sy_next (put_ct i c y) = sy_next y"
  "rt_runner (sy_rt (put_ct i c y)) = rt_runner (sy_rt y)" "cts (put_ct i c y) = cts y"
  by (simp_all add: put_ct_def)

lemma context_step_inv: "context_step y z \<Longrightarrow> task_inv y \<Longrightarrow> task_inv z"
  by (erule context_step.cases; rule task_inv_frame) (simp_all add: put_runner_def put_ctx_def)

lemma shutdown_step_inv: "shutdown_step y z \<Longrightarrow> task_inv y \<Longrightarrow> task_inv z"
  by (erule shutdown_step.cases; rule task_inv_frame)
    (auto simp: sh_at_def log_hook_def put_frame container_shutdown_begin_def
      container_shutdown_end_def put_ct_def nth_upd split: if_splits)

lemma container_api_wg:
  "container_OnInit name fn c = Ret c' \<or> container_OnStart name fn c = Ret c' \<or>
     container_OnStop name fn c = Ret c' \<or> container_OnStopping name fn c = Ret c' \<or>
     container_Set t v c = Ret c' \<or> container_Run g name fn (c, r) = Ret (Registered c') \<Longrightarrow>
     ct_wg c' = ct_wg c \<and> ct_running c' = ct_running c"
  by (elim disjE) (auto simp: container_OnInit_def container_OnStart_def container_OnStop_def
      container_OnStopping_def container_Set_def container_Run_def go_bind_eq_Ret Let_def
      split: option.splits if_splits)

lemma container_launch:
  "container_Run g name (Some f) (c, r) = Ret (Launched (c', r')) \<Longrightarrow>
     ct_state c = ContainerStarting \<and> r' = runner_Run g r \<and>
     c' = c\<lparr>ct_running := ct_running c @ [name], ct_wg := Suc (ct_wg c)\<rparr>"
  by (auto simp: container_Run_def container_startTaskLocked_def Let_def split: if_splits)

lemma attach_task_inv:
  assumes "task_inv y" and "ctl_inv y" and "rt_state (sy_rt y) = RuntimeSetup"
    and "ct_wg c = 0" "ct_running c = []"
  shows "task_inv (y\<lparr>sy_rt := (sy_rt y)\<lparr>rt_containers := rt_containers (sy_rt y) @ [c]\<rparr>\<rparr>)"
proof -
  have "sy_main y = MainSetup"
    using assms(2,3) by (simp add: ctl_inv_def)
  then show ?thesis
    using assms by (auto simp: task_inv_def nth_append)
qed

lemma api_step_inv:
  assumes "api_step y z" and inv: "task_inv y" and ctl: "ctl_inv y"
  shows "task_inv z"
  using assms(1)
proof cases
  case (attaches name r)
  then show ?thesis
    using attach_task_inv [OF inv ctl] by (auto simp: NewContainer_def dest!: attach_cases)
next
  case (creates name f r)
  then show ?thesis
    using attach_task_inv [OF inv ctl] by (auto simp: NewContainer_def dest!: create_cases)
next
  case (sets_global t v r)
  then show ?thesis
    by (intro task_inv_frame [OF inv]) (auto dest!: global_set_cases)
next
  case (registers i name f c t v)
  then have "ct_wg c = ct_wg (ct y i)" "ct_running c = ct_running (ct y i)"
    using container_api_wg [of name "Some f" "ct y i" c t v] by blast+
  then show ?thesis
    unfolding registers(1) by (intro task_inv_frame [OF inv]) (auto simp: put_frame nth_upd)
next
  case (registers_task i name f c)
  then have "ct_wg c = ct_wg (ct y i)" "ct_running c = ct_running (ct y i)"
    using container_api_wg [of name "Some f" "ct y i" c undefined undefined "sy_next y"
        "rt_runner (sy_rt y)"] by simp_all
  then show ?thesis
    unfolding registers_task(1) by (intro task_inv_frame [OF inv]) (auto simp: put_frame nth_upd)
next
  case (launches_task i name f c r)
  have launched: "ct_state (ct y i) = ContainerStarting" "r = runner_Run (sy_next y) (rt_runner (sy_rt y))"
    "c = (ct y i)\<lparr>ct_running := ct_running (ct y i) @ [name], ct_wg := Suc (ct_wg (ct y i))\<rparr>"
    using container_launch [OF launches_task(3)] by auto
  have "sy_main y \<noteq> MainSetup"
    using main_ok_of [OF ctl, of MainSetup] launched(1) launches_task(2) by (auto simp: all_at_def)
  then show ?thesis
    unfolding launches_task(1)
    by (intro launch_inv [OF inv launches_task(2), of _ c "[\<lparr>hk_fn = f, hk_name = name\<rparr>]"])
      (simp_all add: launched(2,3) launch_def put_runner_def put_frame runner_Run_def)
qed

lemma main_step_inv:
  assumes "main_step y z" and inv: "task_inv y" and ctl: "ctl_inv y"
  shows "task_inv z"
  using assms(1)
proof cases
  case (run_begins parent opts r deadline)
  then show ?thesis
    using tasks_none [OF inv run_begins(2)]
    by (intro task_inv_frame [OF inv])
      (auto simp: main_at_def runtime_Run_begin_def NewRunner_def split: if_splits)
next
  case (start_ends i c r hs)
  have i: "i < cts y"
    using main_ok_of [OF ctl start_ends(2)] by simp
  show ?thesis
    using start_end_cases [OF start_ends(3)]
  proof
    assume "ctx_err (rt_ctx (sy_rt y)) \<noteq> None \<and> c = ct y i \<and> r = rt_runner (sy_rt y) \<and> hs = []"
    then show ?thesis
      unfolding start_ends(1) by (intro task_inv_frame [OF inv])
        (auto simp: main_at_def launch_def put_runner_def put_frame new_tasks_def)
  next
    assume "ctx_err (rt_ctx (sy_rt y)) = None \<and> hs = ct_tasks (ct y i) \<and>
      c = (ct y i)\<lparr>ct_running := ct_running (ct y i) @ map hk_name hs,
        ct_wg := ct_wg (ct y i) + length hs, ct_tasks := [], ct_state := ContainerRunning\<rparr> \<and>
      r = (rt_runner (sy_rt y))\<lparr>rn_wg := rev [sy_next y..<sy_next y + length hs] @
        rn_wg (rt_runner (sy_rt y))\<rparr>"
    then show ?thesis
      unfolding start_ends(1) by (intro launch_inv [OF inv i, of _ c hs])
        (simp_all add: main_at_def launch_def put_runner_def put_frame)
  qed
next
  case (cancels e r)
  then have "rn_wg r = rn_wg (rt_runner (sy_rt y))"
    by (auto simp: runner_Cancel_def split: if_splits)
  with cancels show ?thesis
    by (intro task_inv_frame [OF inv]) (simp_all add: main_at_def report_error_def put_runner_def)
next
  case (waited r err)
  then have "rn_wg r = rn_wg (rt_runner (sy_rt y))"
    by (auto simp: runner_Wait_def split: if_splits)
  with waited show ?thesis
    by (intro task_inv_frame [OF inv]) (simp_all add: main_at_def put_runner_def)
next
  case (init_begins i c hs)
  then show ?thesis
    by (intro task_inv_frame [OF inv])
      (auto simp: main_at_def put_ct_def nth_upd dest!: init_begin_cases(1))
next
  case (start_begins i c hs)
  then show ?thesis
    by (intro task_inv_frame [OF inv])
      (auto simp: main_at_def put_ct_def nth_upd dest!: start_begin_cases(1))
next
  case (init_ends i)
  then show ?thesis
    by (intro task_inv_frame [OF inv])
      (auto simp: main_at_def put_ct_def nth_upd container_init_end_def)
qed (auto intro!: task_inv_frame [OF inv] simp: main_at_def log_hook_def put_ctx_def
    split: option.splits)

section \<open>Idle containers\<close>

lemma shutdown_step_idle:
  assumes "shutdown_step y z" and inv: "idle_inv y" and ctl: "ctl_inv y"
  shows "idle_inv z"
  using assms(1)
proof cases
  case (sh_stops i c stopping stops)
  then show ?thesis
    using shutdown_begin_cases(2) [OF sh_stops(3)]
    by (intro idle_inv_frame [OF inv]) (auto simp: sh_at_def put_ct_def nth_upd idle_states_def split: if_splits)
next
  case (sh_waits i stops e)
  then show ?thesis
    using sh_ok_of [OF ctl sh_waits(2)]
    by (intro idle_inv_frame [OF inv]) (auto simp: sh_at_def)
next
  case (sh_stop_hook i h hs e err)
  then show ?thesis
    using sh_ok_of [OF ctl sh_stop_hook(2)] inv
    by (intro idle_inv_frame [OF inv]) (auto simp: sh_at_def log_hook_def idle_inv_def)
next
  case (sh_ends i e)
  then have "ct_wg (ct y i) = 0"
    using inv by (simp add: idle_inv_def)
  with sh_ends show ?thesis
    by (intro idle_inv_frame [OF inv])
      (auto simp: sh_at_def put_ct_def nth_upd container_shutdown_end_def split: if_splits)
qed (auto intro!: idle_inv_frame [OF inv] simp: sh_at_def log_hook_def)

lemma task_step_idle:
  assumes "task_step y z" and inv: "idle_inv y"
  shows "idle_inv z"
  using assms(1) inv
  by cases (auto simp: idle_inv_def set_task_def put_ct_def report_error_def put_runner_def nth_upd
      container_stopTask_def split: if_splits)

lemma context_step_idle: "context_step y z \<Longrightarrow> idle_inv y \<Longrightarrow> idle_inv z"
  by (erule context_step.cases) (auto simp: idle_inv_def put_runner_def put_ctx_def)

lemma idle_attach:
  assumes "idle_inv y" and ctl: "ctl_inv y" and "rt_state (sy_rt y) = RuntimeSetup" and "ct_wg c = 0"
  shows "idle_inv (y\<lparr>sy_rt := (sy_rt y)\<lparr>rt_containers := rt_containers (sy_rt y) @ [c]\<rparr>\<rparr>)"
proof -
  have "sy_sh y = ShIdle"
    using assms(2,3) by (auto simp: ctl_inv_def)
  then show ?thesis
    using assms by (auto simp: idle_inv_def nth_append)
qed

lemma api_step_idle:
  assumes "api_step y z" and inv: "idle_inv y" and ctl: "ctl_inv y"
  shows "idle_inv z"
  using assms(1)
proof cases
  case (attaches name r)
  then show ?thesis
    using idle_attach [OF inv ctl] by (auto simp: NewContainer_def dest!: attach_cases)
next
  case (creates name f r)
  then show ?thesis
    using idle_attach [OF inv ctl] by (auto simp: NewContainer_def dest!: create_cases)
next
  case (sets_global t v r)
  then show ?thesis
    using inv by (auto simp: idle_inv_def dest!: global_set_cases)
next
  case (registers i name f c t v)
  then have "ct_wg c = ct_wg (ct y i)"
    using container_api_wg [of name "Some f" "ct y i" c t v] by blast
  moreover from registers(3) have "ct_state c = ct_state (ct y i)"
    by (elim disjE) (erule container_api_state)+
  ultimately show ?thesis
    using inv unfolding registers(1) by (auto simp: idle_inv_def put_ct_def nth_upd registers(2) split: if_splits)
next
  case (registers_task i name f c)
  then have "ct_wg c = ct_wg (ct y i)" "ct_state c = ct_state (ct y i)"
    using container_api_wg [of name "Some f" "ct y i" c undefined undefined "sy_next y"
        "rt_runner (sy_rt y)"] container_api_state(6) [OF registers_task(3)] by simp_all
  then show ?thesis
    using inv unfolding registers_task(1)
    by (auto simp: idle_inv_def put_ct_def nth_upd registers_task(2) split: if_splits)
next
  case (launches_task i name f c r)
  have launched: "ct_state (ct y i) = ContainerStarting" "ct_state c = ContainerStarting"
    using container_launch [OF launches_task(3)] by auto
  have "j \<noteq> i" if "sy_sh y = ShStop j hs e" for j hs e
    using sh_ok_of [OF ctl that] launched(1) launches_task(2) by auto
  then show ?thesis
    using inv launched unfolding launches_task(1)
    by (auto simp: idle_inv_def put_ct_def put_runner_def launch_def nth_upd idle_states_def
        split: if_splits)
qed

text \<open>During startup no container is being stopped, and tasks start only when it ends.\<close>

lemma main_step_idle:
  assumes "main_step y z" and inv: "idle_inv y" and ctl: "ctl_inv y"
  shows "idle_inv z"
  using assms(1)
proof cases
  case (run_begins parent opts r deadline)
  then show ?thesis
    using inv by (auto simp: idle_inv_def main_at_def runtime_Run_begin_def split: if_splits)
next
  case (init_begins i c hs)
  then show ?thesis
    using inv by (auto simp: idle_inv_def main_at_def put_ct_def nth_upd idle_states_def
        dest!: init_begin_cases(1) split: if_splits)
next
  case (init_ends i)
  then show ?thesis
    using inv main_ok_of [OF ctl init_ends(2)]
    by (auto simp: idle_inv_def main_at_def put_ct_def nth_upd idle_states_def
        container_init_end_def split: if_splits)
next
  case (start_begins i c hs)
  then show ?thesis
    using inv by (auto simp: idle_inv_def main_at_def put_ct_def nth_upd idle_states_def
        dest!: start_begin_cases(1) split: if_splits)
next
  case (start_ends i c r hs)
  have "i < cts y" "ct_state (ct y i) = ContainerStarting"
    using main_ok_of [OF ctl start_ends(2)] by auto
  moreover have "sy_sh y = ShIdle"
    using ctl start_ends(2) by (auto simp: ctl_inv_def)
  ultimately show ?thesis
    using inv start_end_cases [OF start_ends(3)] unfolding start_ends(1)
    by (auto simp: idle_inv_def main_at_def put_ct_def put_runner_def launch_def nth_upd
        idle_states_def split: if_splits)
qed (use inv in \<open>auto simp: idle_inv_def main_at_def log_hook_def put_ctx_def put_runner_def
    report_error_def\<close>)

definition tasks_inv :: "('h, 't, 'v) rt_sys \<Rightarrow> bool" where
  "tasks_inv y \<longleftrightarrow> ctl_inv y \<and> task_inv y \<and> idle_inv y"

lemma rt_step_tasks: "tasks_inv y \<Longrightarrow> rt_step y z \<Longrightarrow> tasks_inv z"
  unfolding tasks_inv_def
  by (auto elim!: rt_step.cases
      intro: main_step_ctl shutdown_step_ctl task_step_ctl context_step_ctl api_step_ctl
        main_step_inv shutdown_step_inv task_step_inv context_step_inv api_step_inv
        main_step_idle shutdown_step_idle task_step_idle context_step_idle api_step_idle)

interpretation runtime_tasks: inductive_invariant rt_new rt_step tasks_inv
proof
  show "tasks_inv y" if "rt_new y" for y :: "('h, 't, 'v) rt_sys"
    using that ctl_start [OF that]
    by (simp add: tasks_inv_def task_inv_def idle_inv_def rt_new_def rt_start_def NewRuntime_def
        zero_runner_def)
qed (rule rt_step_tasks)

end
