(* ===== verification/Gx_Runtime_Hooks.thy ===== *)
theory Gx_Runtime_Hooks imports Gx_Runtime "HOL-Library.Sublist" begin

text \<open>
  In which order the hooks of a run are called, which of them are called, and what \<open>Run\<close>
  returns. The log of hook results is the history the statements are about.
\<close>

section \<open>The order of hooks\<close>

text \<open>
  The place of a hook call in a run with \<open>n\<close> containers: initialization and startup in
  attachment order, then stopping in reverse order, the stopping hooks of a container
  before its stop hooks.
\<close>

fun place :: "nat \<Rightarrow> rt_phase \<Rightarrow> nat \<Rightarrow> nat" where
  "place n PhInit i = i"
| "place n PhStart i = n + i"
| "place n PhStopping i = 2 * n + 2 * (n - Suc i)"
| "place n PhStop i = Suc (2 * n + 2 * (n - Suc i))"

definition ev_place :: "nat \<Rightarrow> rt_event \<Rightarrow> nat" where
  "ev_place n e = place n (ev_phase e) (ev_ct e)"

fun main_place :: "nat \<Rightarrow> 'h main_pc \<Rightarrow> nat" where
  "main_place n MainSetup = 0"
| "main_place n (MainInit i) = i"
| "main_place n (MainInitHooks i hs) = i"
| "main_place n (MainInitCall i h hs) = i"
| "main_place n MainStarting = n"
| "main_place n (MainStart i) = n + i"
| "main_place n (MainStartHooks i hs) = n + i"
| "main_place n (MainStartCall i h hs) = n + i"
| "main_place n p = 2 * n"

fun sh_place :: "nat \<Rightarrow> 'h sh_pc \<Rightarrow> nat" where
  "sh_place n ShIdle = 0"
| "sh_place n (ShNext k) = 2 * n + 2 * (n - k)"
| "sh_place n (ShStopping i stopping stops e) = 2 * n + 2 * (n - Suc i)"
| "sh_place n (ShStop i stops e) = Suc (2 * n + 2 * (n - Suc i))"
| "sh_place n ShDone = 4 * n"

definition rt_place :: "('h, 't, 'v) rt_sys \<Rightarrow> nat" where
  "rt_place y = max (main_place (cts y) (sy_main y)) (sh_place (cts y) (sy_sh y))"

definition order_inv :: "('h, 't, 'v) rt_sys \<Rightarrow> bool" where
  "order_inv y \<longleftrightarrow>
     sorted (map (ev_place (cts y)) (sy_log y)) \<and>
     (\<forall>e \<in> set (sy_log y). ev_place (cts y) e \<le> rt_place y \<and> ev_ct e < cts y) \<and>
     (sy_main y = MainSetup \<longrightarrow> sy_log y = [])"

lemma order_inv_frame:
  assumes "order_inv y" and "sy_log z = sy_log y" and "cts z = cts y" and "rt_place y \<le> rt_place z"
    and "sy_main z = MainSetup \<Longrightarrow> sy_main y = MainSetup"
  shows "order_inv z"
  using assms by (force simp: order_inv_def)

lemma order_inv_event:
  assumes "order_inv y" and "sy_log z = sy_log y @ [e]" and "cts z = cts y"
    and "rt_place y \<le> ev_place (cts y) e" and "ev_place (cts y) e \<le> rt_place z"
    and "ev_ct e < cts y" and "sy_main z \<noteq> MainSetup"
  shows "order_inv z"
  using assms by (force simp: order_inv_def sorted_append)

lemma late_place: "\<not> early p \<Longrightarrow> main_place n p = 2 * n"
  by (cases p) simp_all

lemma ctl_late: "ctl_inv y \<Longrightarrow> sy_sh y \<noteq> ShIdle \<Longrightarrow> main_place (cts y) (sy_main y) = 2 * cts y"
  by (rule late_place) (auto simp: ctl_inv_def)

lemma ctl_idle: "ctl_inv y \<Longrightarrow> early (sy_main y) \<Longrightarrow> sy_sh y = ShIdle"
  by (auto simp: ctl_inv_def)

lemma put_ct_log [simp]: "sy_log (put_ct i c y) = sy_log y" "cts (put_ct i c y) = cts y"
  by (simp_all add: put_ct_def)

lemma container_place:
  "sy_main (main_at p y) = p" "sy_sh (main_at p y) = sy_sh y" "sy_log (main_at p y) = sy_log y"
  "rt_containers (sy_rt (main_at p y)) = rt_containers (sy_rt y)"
  "sy_main (sh_at q y) = sy_main y" "sy_sh (sh_at q y) = q" "sy_log (sh_at q y) = sy_log y"
  "rt_containers (sy_rt (sh_at q y)) = rt_containers (sy_rt y)"
  by (simp_all add: main_at_def sh_at_def)

lemma shutdown_step_order:
  assumes "shutdown_step y z" and inv: "order_inv y" and ctl: "ctl_inv y"
  shows "order_inv z"
  using assms(1)
proof cases
  case sh_begins
  then have "\<not> early (sy_main y)"
    using ctl by (simp add: ctl_inv_def)
  then show ?thesis
    using sh_begins by (intro order_inv_frame [OF inv]) (simp_all add: rt_place_def late_place container_place)
next
  case (sh_skips i)
  then show ?thesis
    using ctl_late [OF ctl] by (intro order_inv_frame [OF inv]) (simp_all add: rt_place_def container_place)
next
  case (sh_stops i c stopping stops)
  then show ?thesis
    using ctl_late [OF ctl]
    by (intro order_inv_frame [OF inv]) (simp_all add: rt_place_def container_place put_frame)
next
  case (sh_stopping_hook i h hs stops e err)
  then show ?thesis
    using ctl_late [OF ctl] sh_ok_of [OF ctl sh_stopping_hook(2)] ctl
    by (intro order_inv_event [OF inv])
      (auto simp: rt_place_def sh_at_def log_hook_def ev_place_def ctl_inv_def)
next
  case (sh_waits i stops e)
  then show ?thesis
    using ctl_late [OF ctl] by (intro order_inv_frame [OF inv]) (simp_all add: rt_place_def container_place)
next
  case (sh_stop_hook i h hs e err)
  then show ?thesis
    using ctl_late [OF ctl] sh_ok_of [OF ctl sh_stop_hook(2)] ctl
    by (intro order_inv_event [OF inv])
      (auto simp: rt_place_def sh_at_def log_hook_def ev_place_def ctl_inv_def)
next
  case (sh_ends i e)
  then show ?thesis
    using ctl_late [OF ctl] sh_ok_of [OF ctl sh_ends(2)]
    by (intro order_inv_frame [OF inv]) (auto simp: rt_place_def sh_at_def put_ct_def)
next
  case sh_done
  then show ?thesis
    using ctl_late [OF ctl] by (intro order_inv_frame [OF inv]) (simp_all add: rt_place_def container_place)
qed

lemma main_step_order:
  assumes "main_step y z" and inv: "order_inv y" and ctl: "ctl_inv y"
  shows "order_inv z"
  using assms(1)
proof cases
  case (init_hook i h hs err)
  then show ?thesis
    using ctl_idle [OF ctl] main_ok_of [OF ctl init_hook(2)]
    by (intro order_inv_event [OF inv])
      (auto simp: rt_place_def main_at_def log_hook_def ev_place_def split: option.splits)
next
  case (start_hook i h hs err)
  then show ?thesis
    using ctl_idle [OF ctl] main_ok_of [OF ctl start_hook(2)]
    by (intro order_inv_event [OF inv])
      (auto simp: rt_place_def main_at_def log_hook_def ev_place_def split: option.splits)
next
  case (run_begins parent opts r deadline)
  then show ?thesis
    using ctl_idle [OF ctl]
    by (intro order_inv_frame [OF inv])
      (auto simp: rt_place_def main_at_def runtime_Run_begin_def split: if_splits)
next
  case (init_ctx i)
  then show ?thesis
    using ctl_idle [OF ctl] by (intro order_inv_frame [OF inv]) (auto simp: rt_place_def main_at_def)
next
  case (init_hooks_ctx i h hs)
  then show ?thesis
    using ctl_idle [OF ctl] by (intro order_inv_frame [OF inv]) (auto simp: rt_place_def main_at_def)
next
  case (start_hooks_ctx i h hs)
  then show ?thesis
    using ctl_idle [OF ctl] by (intro order_inv_frame [OF inv]) (auto simp: rt_place_def main_at_def)
next
  case (start_ctx i)
  then show ?thesis
    using ctl_idle [OF ctl] by (intro order_inv_frame [OF inv]) (auto simp: rt_place_def main_at_def)
qed (use ctl_idle [OF ctl] in \<open>auto intro!: order_inv_frame [OF inv]
    simp: rt_place_def main_at_def put_ctx_def put_runner_def put_frame report_error_def launch_def
      put_ct_def\<close>)

lemma task_step_order: "task_step y z \<Longrightarrow> order_inv y \<Longrightarrow> order_inv z"
  by (erule task_step.cases; rule order_inv_frame)
    (auto simp: rt_place_def set_task_def put_ct_def report_error_def put_runner_def)

lemma context_step_order: "context_step y z \<Longrightarrow> order_inv y \<Longrightarrow> order_inv z"
  by (erule context_step.cases; rule order_inv_frame)
    (auto simp: rt_place_def put_ctx_def put_runner_def)

lemma setup_of_attach: "ctl_inv y \<Longrightarrow> rt_state (sy_rt y) = RuntimeSetup \<Longrightarrow> sy_main y = MainSetup"
  by (simp add: ctl_inv_def)

lemma api_step_order:
  assumes "api_step y z" and inv: "order_inv y" and ctl: "ctl_inv y"
  shows "order_inv z"
  using assms(1)
proof cases
  case (attaches name r)
  then show ?thesis
    using inv setup_of_attach [OF ctl] by (auto simp: order_inv_def dest!: attach_cases)
next
  case (creates name f r)
  then show ?thesis
    using inv setup_of_attach [OF ctl] by (auto simp: order_inv_def dest!: create_cases)
next
  case (sets_global t v r)
  then show ?thesis
    by (intro order_inv_frame [OF inv]) (auto simp: rt_place_def dest!: global_set_cases)
qed (auto intro!: order_inv_frame [OF inv] simp: rt_place_def put_ct_def launch_def put_runner_def)

section \<open>Which hooks have run\<close>

definition ran :: "rt_phase \<Rightarrow> nat \<Rightarrow> rt_event list \<Rightarrow> string list" where
  "ran ph i evs = map ev_hook (filter (\<lambda>e. ev_phase e = ph \<and> ev_ct e = i) evs)"

abbreviation names :: "'h hook list \<Rightarrow> string list" where
  "names hs \<equiv> map hk_name hs"

text \<open>What a container in a given state has run of its hooks.\<close>

definition hooks_ok :: "('h, 't, 'v) container \<Rightarrow> (rt_phase \<Rightarrow> string list) \<Rightarrow> bool" where
  "hooks_ok c r \<longleftrightarrow>
     prefix (r PhInit) (names (ct_initFns c)) \<and> prefix (r PhStart) (names (ct_startFns c)) \<and>
     (ct_state c = ContainerSetup \<longrightarrow> r PhInit = []) \<and>
     (ct_state c \<in> {ContainerInitialized, ContainerStarting, ContainerRunning} \<longrightarrow>
        r PhInit = names (ct_initFns c)) \<and>
     (ct_state c \<in> {ContainerSetup, ContainerInitializing, ContainerInitialized} \<longrightarrow> r PhStart = []) \<and>
     (ct_state c = ContainerRunning \<longrightarrow> r PhStart = names (ct_startFns c)) \<and>
     (ct_state c \<notin> {ContainerStopping, ContainerStopped} \<longrightarrow> r PhStopping = [] \<and> r PhStop = []) \<and>
     (ct_state c = ContainerStopped \<longrightarrow>
        r PhStopping = rev (names (ct_stoppingFns c)) \<and> r PhStop = rev (names (ct_stopFns c)))"

text \<open>The hooks a goroutine still has in hand.\<close>

fun main_hooks :: "('h, 't, 'v) rt_sys \<Rightarrow> 'h main_pc \<Rightarrow> bool" where
  "main_hooks y (MainInitHooks i hs) \<longleftrightarrow> ran PhInit i (sy_log y) @ names hs = names (ct_initFns (ct y i))"
| "main_hooks y (MainInitCall i h hs) \<longleftrightarrow>
     ran PhInit i (sy_log y) @ names (h # hs) = names (ct_initFns (ct y i))"
| "main_hooks y (MainStartHooks i hs) \<longleftrightarrow> ran PhStart i (sy_log y) @ names hs = names (ct_startFns (ct y i))"
| "main_hooks y (MainStartCall i h hs) \<longleftrightarrow>
     ran PhStart i (sy_log y) @ names (h # hs) = names (ct_startFns (ct y i))"
| "main_hooks y p \<longleftrightarrow> True"

fun sh_hooks :: "('h, 't, 'v) rt_sys \<Rightarrow> 'h sh_pc \<Rightarrow> bool" where
  "sh_hooks y (ShStopping i stopping stops e) \<longleftrightarrow>
     ran PhStopping i (sy_log y) @ names stopping = rev (names (ct_stoppingFns (ct y i))) \<and>
     ran PhStop i (sy_log y) = [] \<and> names stops = rev (names (ct_stopFns (ct y i)))"
| "sh_hooks y (ShStop i stops e) \<longleftrightarrow>
     ran PhStopping i (sy_log y) = rev (names (ct_stoppingFns (ct y i))) \<and>
     ran PhStop i (sy_log y) @ names stops = rev (names (ct_stopFns (ct y i)))"
| "sh_hooks y p \<longleftrightarrow> True"

definition hook_inv :: "('h, 't, 'v) rt_sys \<Rightarrow> bool" where
  "hook_inv y \<longleftrightarrow>
     (\<forall>i < cts y. hooks_ok (ct y i) (\<lambda>ph. ran ph i (sy_log y))) \<and>
     main_hooks y (sy_main y) \<and> sh_hooks y (sy_sh y)"

lemma ran_simps [simp]:
  "ran ph i [] = []"
  "ran ph i (evs @ [e]) = ran ph i evs @ (if ev_phase e = ph \<and> ev_ct e = i then [ev_hook e] else [])"
  by (simp_all add: ran_def)

lemma hook_inv_frame:
  assumes "hook_inv y" and "sy_log z = sy_log y" and "rt_containers (sy_rt z) = rt_containers (sy_rt y)"
    and "main_hooks y (sy_main z)" and "sh_hooks y (sy_sh z)"
  shows "hook_inv z"
proof -
  have "main_hooks z (sy_main z)"
    using assms(2-4) by (cases "sy_main z") simp_all
  moreover have "sh_hooks z (sy_sh z)"
    using assms(2,3,5) by (cases "sy_sh z") simp_all
  ultimately show ?thesis
    using assms(1-3) by (simp add: hook_inv_def)
qed

text \<open>A container is replaced by one that is also consistent with what has run.\<close>

lemma hook_inv_put:
  assumes "hook_inv y" and "i < cts y" and "sy_log z = sy_log y"
    and "rt_containers (sy_rt z) = (rt_containers (sy_rt y))[i := c]"
    and "hooks_ok c (\<lambda>ph. ran ph i (sy_log y))"
    and "main_hooks z (sy_main z)" and "sh_hooks z (sy_sh z)"
  shows "hook_inv z"
  using assms by (simp add: hook_inv_def nth_upd)

lemma hooks_ok_same:
  "hooks_ok c r \<Longrightarrow> ct_initFns c' = ct_initFns c \<Longrightarrow> ct_startFns c' = ct_startFns c \<Longrightarrow>
     ct_stopFns c' = ct_stopFns c \<Longrightarrow> ct_stoppingFns c' = ct_stoppingFns c \<Longrightarrow>
     ct_state c' = ct_state c \<Longrightarrow> hooks_ok c' r"
  by (simp add: hooks_ok_def)

lemma hook_inv_same:
  assumes inv: "hook_inv y" and "sy_log z = sy_log y" "sy_main z = sy_main y" "sy_sh z = sy_sh y"
    and "rt_containers (sy_rt z) = (rt_containers (sy_rt y))[i := c]"
    and "ct_initFns c = ct_initFns (ct y i)" "ct_startFns c = ct_startFns (ct y i)"
      "ct_stopFns c = ct_stopFns (ct y i)" "ct_stoppingFns c = ct_stoppingFns (ct y i)"
      "ct_state c = ct_state (ct y i)"
  shows "hook_inv z"
proof -
  have "hooks_ok (ct z j) (\<lambda>ph. ran ph j (sy_log y))" if "j < cts y" for j
    using inv that assms(5-) hooks_ok_same [of "ct y j" _ "ct z j"]
    by (auto simp: hook_inv_def nth_upd split: if_splits)
  moreover have "main_hooks z (sy_main y)"
    using inv assms(2-9) by (cases "sy_main y") (auto simp: hook_inv_def nth_upd)
  moreover have "sh_hooks z (sy_sh y)"
    using inv assms(2-9) by (cases "sy_sh y") (auto simp: hook_inv_def nth_upd)
  ultimately show ?thesis
    using assms(2-5) by (simp add: hook_inv_def)
qed

lemma task_step_hooks:
  assumes "task_step y z" and inv: "hook_inv y"
  shows "hook_inv z"
  using assms(1)
proof cases
  case (task_stops k t err)
  then show ?thesis
    by (intro hook_inv_same [OF inv, where i = "tk_ct t" and
          c = "container_stopTask (tk_name t) (ct y (tk_ct t))"])
      (simp_all add: set_task_def put_ct_def container_stopTask_def)
next
  case (task_done k t err)
  then show ?thesis
    by (intro hook_inv_same [OF inv, where i = "tk_ct t" and
          c = "(ct y (tk_ct t))\<lparr>ct_wg := ct_wg (ct y (tk_ct t)) - 1\<rparr>"])
      (simp_all add: set_task_def put_ct_def)
next
  case (task_returns k t err)
  then show ?thesis
    using inv by (intro hook_inv_frame [OF inv]) (simp_all add: set_task_def hook_inv_def)
next
  case (task_reports k t err)
  then show ?thesis
    using inv by (intro hook_inv_frame [OF inv]) (simp_all add: report_error_def put_runner_def hook_inv_def)
qed

lemma context_step_hooks: "context_step y z \<Longrightarrow> hook_inv y \<Longrightarrow> hook_inv z"
  by (erule context_step.cases; rule hook_inv_frame)
    (auto simp: hook_inv_def put_ctx_def put_runner_def)

lemma ran_outside:
  "order_inv y \<Longrightarrow> cts y \<le> i \<Longrightarrow> ran ph i (sy_log y) = []"
  by (force simp: ran_def order_inv_def filter_empty_conv)

lemma hooks_attach:
  assumes inv: "hook_inv y" and ctl: "ctl_inv y" and order: "order_inv y"
    and "rt_state (sy_rt y) = RuntimeSetup" and "ct_state c = ContainerSetup"
  shows "hook_inv (y\<lparr>sy_rt := (sy_rt y)\<lparr>rt_containers := rt_containers (sy_rt y) @ [c]\<rparr>\<rparr>)"
proof -
  have main: "sy_main y = MainSetup" "sy_sh y = ShIdle"
    using ctl assms(4) by (auto simp: ctl_inv_def)
  then have "sy_log y = []"
    using order by (simp add: order_inv_def)
  then show ?thesis
    using inv main assms(5) by (auto simp: hook_inv_def nth_append hooks_ok_def)
qed

text \<open>Registering a hook is possible only before its phase has begun.\<close>

lemma register_cases:
  assumes "container_OnInit name (Some f) c = Ret c' \<or> container_OnStart name (Some f) c = Ret c' \<or>
    container_OnStop name (Some f) c = Ret c' \<or> container_OnStopping name (Some f) c = Ret c' \<or>
    container_Set t v c = Ret c'"
  shows "(\<exists>h. ct_state c = ContainerSetup \<and> c' = c\<lparr>ct_initFns := ct_initFns c @ [h]\<rparr>) \<or>
    (ct_state c \<in> {ContainerSetup, ContainerInitializing} \<and>
      ((\<exists>h. c' = c\<lparr>ct_startFns := ct_startFns c @ [h]\<rparr>) \<or>
       (\<exists>h. c' = c\<lparr>ct_stopFns := ct_stopFns c @ [h]\<rparr>) \<or>
       (\<exists>h. c' = c\<lparr>ct_stoppingFns := ct_stoppingFns c @ [h]\<rparr>))) \<or>
    (\<exists>s. c' = c\<lparr>ct_store := s\<rparr>)"
  using assms by (elim disjE) (auto simp: container_OnInit_def container_OnStart_def
      container_OnStop_def container_OnStopping_def container_Set_def go_bind_eq_Ret
      split: if_splits)

lemma hooks_ok_register:
  assumes "hooks_ok c r" and "(\<exists>h. ct_state c = ContainerSetup \<and> c' = c\<lparr>ct_initFns := ct_initFns c @ [h]\<rparr>) \<or>
    (ct_state c \<in> {ContainerSetup, ContainerInitializing} \<and>
      ((\<exists>h. c' = c\<lparr>ct_startFns := ct_startFns c @ [h]\<rparr>) \<or>
       (\<exists>h. c' = c\<lparr>ct_stopFns := ct_stopFns c @ [h]\<rparr>) \<or>
       (\<exists>h. c' = c\<lparr>ct_stoppingFns := ct_stoppingFns c @ [h]\<rparr>))) \<or>
    (\<exists>s. c' = c\<lparr>ct_store := s\<rparr>)"
  shows "hooks_ok c' r"
  using assms(2,1) by (elim disjE conjE exE; cases "ct_state c") (simp_all add: hooks_ok_def)

lemma main_hooks_register:
  assumes ctl: "ctl_inv y" and "main_hooks y (sy_main y)" and "i < cts y"
    and z: "rt_containers (sy_rt z) = (rt_containers (sy_rt y))[i := c]" "sy_log z = sy_log y"
    and c: "ct_state (ct y i) \<noteq> ContainerSetup \<Longrightarrow> ct_initFns c = ct_initFns (ct y i)"
      "ct_state (ct y i) \<notin> {ContainerSetup, ContainerInitializing} \<Longrightarrow>
        ct_startFns c = ct_startFns (ct y i)"
  shows "main_hooks z (sy_main y)"
proof -
  have init: "ct_initFns (ct z k) = ct_initFns (ct y k)" if "ct_state (ct y k) \<noteq> ContainerSetup" for k
    using that assms(3) c(1) by (cases "i = k") (simp_all add: z(1))
  have start: "ct_startFns (ct z k) = ct_startFns (ct y k)"
    if "ct_state (ct y k) \<notin> {ContainerSetup, ContainerInitializing}" for k
    using that assms(3) c(2) by (cases "i = k") (simp_all add: z(1))
  show ?thesis
  proof (cases "sy_main y")
    case (MainInitHooks k hs)
    then show ?thesis
      using assms(2) init [of k] main_ok_of [OF ctl MainInitHooks] by (auto simp: z(2))
  next
    case (MainInitCall k h hs)
    then show ?thesis
      using assms(2) init [of k] main_ok_of [OF ctl MainInitCall] by (auto simp: z(2))
  next
    case (MainStartHooks k hs)
    then show ?thesis
      using assms(2) start [of k] main_ok_of [OF ctl MainStartHooks] by (auto simp: z(2))
  next
    case (MainStartCall k h hs)
    then show ?thesis
      using assms(2) start [of k] main_ok_of [OF ctl MainStartCall] by (auto simp: z(2))
  qed simp_all
qed

lemma sh_hooks_register:
  assumes ctl: "ctl_inv y" and "sh_hooks y (sy_sh y)" and "i < cts y"
    and z: "rt_containers (sy_rt z) = (rt_containers (sy_rt y))[i := c]" "sy_log z = sy_log y"
    and c: "ct_state (ct y i) = ContainerStopping \<Longrightarrow>
      ct_stopFns c = ct_stopFns (ct y i) \<and> ct_stoppingFns c = ct_stoppingFns (ct y i)"
  shows "sh_hooks z (sy_sh y)"
proof (cases "sy_sh y")
  case (ShStopping k hs stops e)
  then show ?thesis
    using assms(2,3) c sh_ok_of [OF ctl ShStopping] z by (auto simp: nth_upd)
next
  case (ShStop k hs e)
  then show ?thesis
    using assms(2,3) c sh_ok_of [OF ctl ShStop] z by (auto simp: nth_upd)
qed simp_all

lemma api_step_hooks:
  assumes "api_step y z" and inv: "hook_inv y" and ctl: "ctl_inv y" and order: "order_inv y"
  shows "hook_inv z"
  using assms(1)
proof cases
  case (attaches name r)
  then show ?thesis
    using hooks_attach [OF inv ctl order] by (auto simp: NewContainer_def dest!: attach_cases)
next
  case (creates name f r)
  then show ?thesis
    using hooks_attach [OF inv ctl order] by (auto simp: NewContainer_def dest!: create_cases)
next
  case (sets_global t v r)
  then show ?thesis
    using inv by (intro hook_inv_frame [OF inv]) (auto simp: hook_inv_def dest!: global_set_cases)
next
  case (registers i name f c t v)
  have ok: "hooks_ok (ct y i) (\<lambda>ph. ran ph i (sy_log y))" "main_hooks y (sy_main y)" "sh_hooks y (sy_sh y)"
    using inv registers(2) by (simp_all add: hook_inv_def)
  note change = register_cases [OF registers(3)]
  have "hooks_ok c (\<lambda>ph. ran ph i (sy_log y))"
    by (rule hooks_ok_register [OF ok(1) change])
  moreover have "main_hooks z (sy_main y)"
    by (rule main_hooks_register [OF ctl ok(2) registers(2), of _ c])
      (use change in \<open>auto simp: registers(1) put_ct_def\<close>)
  moreover have "sh_hooks z (sy_sh y)"
    by (rule sh_hooks_register [OF ctl ok(3) registers(2), of _ c])
      (use change in \<open>auto simp: registers(1) put_ct_def\<close>)
  ultimately show ?thesis
    unfolding registers(1) by (intro hook_inv_put [OF inv registers(2)]) (simp_all add: put_frame)
next
  case (registers_task i name f c)
  then have "c = (ct y i)\<lparr>ct_tasks := ct_tasks (ct y i) @ [\<lparr>hk_fn = f, hk_name = name\<rparr>]\<rparr>"
    by (auto simp: container_Run_def Let_def split: if_splits)
  then show ?thesis
    unfolding registers_task(1)
    by (intro hook_inv_same [OF inv, where i = i and c = c]) (simp_all add: put_frame)
next
  case (launches_task i name f c r)
  then have "c = (ct y i)\<lparr>ct_running := ct_running (ct y i) @ [name], ct_wg := Suc (ct_wg (ct y i))\<rparr>"
    by (auto simp: container_Run_def container_startTaskLocked_def Let_def split: if_splits)
  then show ?thesis
    unfolding launches_task(1)
    by (intro hook_inv_same [OF inv, where i = i and c = c])
      (simp_all add: put_frame launch_def put_runner_def)
qed

lemma hooks_of:
  "hook_inv y \<Longrightarrow> i < cts y \<Longrightarrow> hooks_ok (ct y i) (\<lambda>ph. ran ph i (sy_log y))"
  "hook_inv y \<Longrightarrow> main_hooks y (sy_main y)" "hook_inv y \<Longrightarrow> sh_hooks y (sy_sh y)"
  by (simp_all add: hook_inv_def)

lemma late_main_hooks: "\<not> early p \<Longrightarrow> main_hooks z p"
  by (cases p) simp_all

lemma sh_main_hooks: "ctl_inv y \<Longrightarrow> sy_sh y \<noteq> ShIdle \<Longrightarrow> main_hooks z (sy_main y)"
  by (rule late_main_hooks) (auto simp: ctl_inv_def)

text \<open>Logging one more hook of container \<open>i\<close>, whose state tells what may follow.\<close>

lemma hook_inv_event:
  assumes inv: "hook_inv y" and "i < cts y" 
    and "sy_log z = sy_log y @ [\<lparr>ev_ct = i, ev_err = err, ev_hook = name, ev_phase = p\<rparr>]"
    and "rt_containers (sy_rt z) = rt_containers (sy_rt y)"
    and "hooks_ok (ct y i) (\<lambda>ph. ran ph i (sy_log z))"
    and "main_hooks z (sy_main z)" and "sh_hooks z (sy_sh z)"
  shows "hook_inv z"
proof -
  have "ran ph j (sy_log z) = ran ph j (sy_log y)" if "j \<noteq> i" for ph j
    using assms(3) that by simp
  then have "hooks_ok (ct z j) (\<lambda>ph. ran ph j (sy_log z))" if "j < cts z" for j
    using that assms(4,5) hooks_of(1) [OF inv, of j] by (cases "j = i") simp_all
  then show ?thesis
    using assms(6,7) by (simp add: hook_inv_def)
qed

lemma shutdown_step_hooks:
  assumes "shutdown_step y z" and inv: "hook_inv y" and ctl: "ctl_inv y"
  shows "hook_inv z"
  using assms(1)
proof cases
  case sh_begins
  then show ?thesis
    using hooks_of [OF inv] by (intro hook_inv_frame [OF inv]) (simp_all add: container_place)
next
  case (sh_skips i)
  then show ?thesis
    using hooks_of [OF inv] by (intro hook_inv_frame [OF inv]) (simp_all add: container_place)
next
  case (sh_stops i c stopping stops)
  have i: "i < cts y"
    using sh_ok_of [OF ctl sh_stops(2)] by simp
  have "ct_state (ct y i) \<in> unstopped"
    using sh_ok_of [OF ctl sh_stops(2)] i by (simp add: all_at_last)
  moreover note shutdown_begin_cases(2) [OF sh_stops(3)] hooks_of(1) [OF inv i]
  ultimately show ?thesis
    unfolding sh_stops(1) using sh_main_hooks [OF ctl] sh_stops(2)
    by (intro hook_inv_put [OF inv i, where c = c])
      (auto simp: sh_at_def put_ct_def hooks_ok_def unstopped_def i rev_map nth_upd)
next
  case (sh_stopping_hook i h hs stops e err)
  have "i < cts y" "ct_state (ct y i) = ContainerStopping"
    using sh_ok_of [OF ctl sh_stopping_hook(2)] by auto
  then show ?thesis
    unfolding sh_stopping_hook(1)
    using hooks_of(1) [OF inv, of i] hooks_of(3) [OF inv] sh_stopping_hook(2) sh_main_hooks [OF ctl]
    by (intro hook_inv_event [OF inv, of i])
      (simp_all add: sh_at_def log_hook_def hooks_ok_def)
next
  case (sh_waits i stops e)
  then show ?thesis
    using hooks_of [OF inv] by (intro hook_inv_frame [OF inv]) (simp_all add: container_place)
next
  case (sh_stop_hook i h hs e err)
  have "i < cts y" "ct_state (ct y i) = ContainerStopping"
    using sh_ok_of [OF ctl sh_stop_hook(2)] by auto
  then show ?thesis
    unfolding sh_stop_hook(1)
    using hooks_of(1) [OF inv, of i] hooks_of(3) [OF inv] sh_stop_hook(2) sh_main_hooks [OF ctl]
    by (intro hook_inv_event [OF inv, of i])
      (simp_all add: sh_at_def log_hook_def hooks_ok_def)
next
  case (sh_ends i e)
  have "i < cts y" "ct_state (ct y i) = ContainerStopping"
    using sh_ok_of [OF ctl sh_ends(2)] by auto
  then show ?thesis
    unfolding sh_ends(1)
    using hooks_of(1) [OF inv, of i] hooks_of(3) [OF inv] sh_ends(2) sh_main_hooks [OF ctl]
    by (intro hook_inv_put [OF inv, of i, where c = "container_shutdown_end (ct y i)"])
      (simp_all add: sh_at_def put_ct_def hooks_ok_def container_shutdown_end_def)
next
  case sh_done
  then show ?thesis
    using hooks_of [OF inv] by (intro hook_inv_frame [OF inv]) (simp_all add: container_place)
qed

lemma main_step_hooks:
  assumes "main_step y z" and inv: "hook_inv y" and ctl: "ctl_inv y"
  shows "hook_inv z"
  using assms(1)
proof cases
  case (init_begins i c hs)
  have sh: "sy_sh y = ShIdle"
    using ctl_idle [OF ctl] init_begins(2) by simp
  show ?thesis
    unfolding init_begins(1)
    using init_begin_cases(1) [OF init_begins(5)] hooks_of(1) [OF inv init_begins(3)] sh init_begins(3)
    by (intro hook_inv_put [OF inv init_begins(3), where c = c])
      (auto simp: main_at_def put_ct_def hooks_ok_def nth_upd)
next
  case (init_hook i h hs err)
  have i: "i < cts y" "ct_state (ct y i) = ContainerInitializing"
    using main_ok_of [OF ctl init_hook(2)] by auto
  have sh: "sy_sh y = ShIdle"
    using ctl_idle [OF ctl] init_hook(2) by simp
  have run: "ran PhInit i (sy_log y) @ names (h # hs) = names (ct_initFns (ct y i))"
    using hooks_of(2) [OF inv] init_hook(2) by simp
  then have "prefix (ran PhInit i (sy_log y) @ [hk_name h]) (names (ct_initFns (ct y i)))"
    by (intro prefixI [of _ _ "names hs"]) simp
  then show ?thesis
    unfolding init_hook(1) using hooks_of(1) [OF inv i(1)] i run sh
    by (intro hook_inv_event [OF inv i(1)])
      (simp_all add: main_at_def log_hook_def hooks_ok_def split: option.split)
next
  case (init_ends i)
  have i: "i < cts y" "ct_state (ct y i) = ContainerInitializing"
    using main_ok_of [OF ctl init_ends(2)] by auto
  have sh: "sy_sh y = ShIdle"
    using ctl_idle [OF ctl] init_ends(2) by simp
  show ?thesis
    unfolding init_ends(1)
    using hooks_of(1) [OF inv i(1)] hooks_of(2) [OF inv] init_ends(2) i sh
    by (intro hook_inv_put [OF inv i(1), where c = "container_init_end (rt_ctx (sy_rt y)) (ct y i)"])
      (auto simp: main_at_def put_ct_def hooks_ok_def container_init_end_def)
next
  case (start_begins i c hs)
  have sh: "sy_sh y = ShIdle"
    using ctl_idle [OF ctl] start_begins(2) by simp
  show ?thesis
    unfolding start_begins(1)
    using start_begin_cases(1) [OF start_begins(5)] hooks_of(1) [OF inv start_begins(3)] sh start_begins(3)
    by (intro hook_inv_put [OF inv start_begins(3), where c = c])
      (auto simp: main_at_def put_ct_def hooks_ok_def nth_upd)
next
  case (start_hook i h hs err)
  have i: "i < cts y" "ct_state (ct y i) = ContainerStarting"
    using main_ok_of [OF ctl start_hook(2)] by auto
  have sh: "sy_sh y = ShIdle"
    using ctl_idle [OF ctl] start_hook(2) by simp
  have run: "ran PhStart i (sy_log y) @ names (h # hs) = names (ct_startFns (ct y i))"
    using hooks_of(2) [OF inv] start_hook(2) by simp
  then have "prefix (ran PhStart i (sy_log y) @ [hk_name h]) (names (ct_startFns (ct y i)))"
    by (intro prefixI [of _ _ "names hs"]) simp
  then show ?thesis
    unfolding start_hook(1) using hooks_of(1) [OF inv i(1)] i run sh
    by (intro hook_inv_event [OF inv i(1)])
      (simp_all add: main_at_def log_hook_def hooks_ok_def split: option.split)
next
  case (start_ends i c r hs)
  have i: "i < cts y" "ct_state (ct y i) = ContainerStarting"
    using main_ok_of [OF ctl start_ends(2)] by auto
  have sh: "sy_sh y = ShIdle"
    using ctl_idle [OF ctl] start_ends(2) by simp
  have "hooks_ok c (\<lambda>ph. ran ph i (sy_log y))"
    using start_end_cases [OF start_ends(3)] hooks_of(1) [OF inv i(1)] hooks_of(2) [OF inv]
      start_ends(2) i by (auto simp: hooks_ok_def)
  then show ?thesis
    unfolding start_ends(1) using i sh
    by (intro hook_inv_put [OF inv i(1), where c = c])
      (simp_all add: main_at_def launch_def put_runner_def put_frame)
next
  case (run_begins parent opts r deadline)
  then show ?thesis
    using hooks_of [OF inv] by (intro hook_inv_frame [OF inv])
      (auto simp: main_at_def runtime_Run_begin_def split: if_splits)
qed (use hooks_of [OF inv] in \<open>auto intro!: hook_inv_frame [OF inv]
    simp: main_at_def put_ctx_def put_runner_def report_error_def\<close>)

section \<open>What Run returns\<close>

definition stop_error :: "rt_event list \<Rightarrow> error option" where
  "stop_error evs =
     fold (\<lambda>e acc. keep_first acc (ev_err e))
       (filter (\<lambda>e. ev_phase e \<in> {PhStopping, PhStop}) evs) None"

fun sh_error :: "'h sh_pc \<Rightarrow> error option" where
  "sh_error (ShStopping i stopping stops e) = e"
| "sh_error (ShStop i stops e) = e"
| "sh_error p = None"

fun wait_ok :: "error list \<Rightarrow> error option \<Rightarrow> 'h main_pc \<Rightarrow> bool" where
  "wait_ok es stopErr (MainCancelTasks err) \<longleftrightarrow> err = None \<or> err = first_error es"
| "wait_ok es stopErr (MainShutdown err) \<longleftrightarrow> err = None \<or> err = first_error es"
| "wait_ok es stopErr (MainReturned res) \<longleftrightarrow> (es \<noteq> [] \<and> res = first_error es) \<or> res = stopErr"
| "wait_ok es stopErr p \<longleftrightarrow> True"

definition err_inv :: "('h, 't, 'v) rt_sys \<Rightarrow> bool" where
  "err_inv y \<longleftrightarrow>
     keep_first (rt_stopErr (sy_rt y)) (sh_error (sy_sh y)) = stop_error (sy_log y) \<and>
     rn_err (rt_runner (sy_rt y)) = first_error (sy_reported y) \<and>
     (rn_once (rt_runner (sy_rt y)) \<longleftrightarrow> sy_reported y \<noteq> []) \<and>
     (sy_main y \<noteq> MainSetup \<longrightarrow> rn_cancel (rt_runner (sy_rt y))) \<and>
     (sy_main y = MainSetup \<longrightarrow> sy_reported y = []) \<and>
     wait_ok (sy_reported y) (rt_stopErr (sy_rt y)) (sy_main y)"

lemma keep_first_simps [simp]:
  "keep_first None e = e" "keep_first (Some x) e = Some x" "keep_first e None = e"
  by (cases e; simp add: keep_first_def)+

lemma keep_first_assoc: "keep_first (keep_first a b) c = keep_first a (keep_first b c)"
  by (cases a) simp_all

lemma stop_error_snoc [simp]:
  "stop_error (evs @ [e]) =
     (if ev_phase e \<in> {PhStopping, PhStop} then keep_first (stop_error evs) (ev_err e) else stop_error evs)"
  by (simp add: stop_error_def)

lemma wait_ok_snoc:
  "wait_ok es stopErr p \<Longrightarrow> wait_ok (es @ [e]) stopErr p"
  by (cases p) (auto simp: first_error_snoc)

lemma shutdown_step_err:
  assumes "shutdown_step y z" and inv: "err_inv y" and ctl: "ctl_inv y"
  shows "err_inv z"
proof -
  have "wait_ok (sy_reported y) e (sy_main y)" if "sy_sh y \<noteq> ShDone" for e
    using inv ctl that by (cases "sy_main y") (auto simp: err_inv_def ctl_inv_def)
  with assms(1) inv show ?thesis
    by cases (auto simp: err_inv_def sh_at_def log_hook_def put_ct_def keep_first_assoc
        simp flip: keep_first_assoc)
qed

lemma err_inv_frame:
  assumes "err_inv y" and "sy_log z = sy_log y" "sy_sh z = sy_sh y" "sy_reported z = sy_reported y"
    and "rt_stopErr (sy_rt z) = rt_stopErr (sy_rt y)"
    and "rn_err (rt_runner (sy_rt z)) = rn_err (rt_runner (sy_rt y))"
      "rn_once (rt_runner (sy_rt z)) = rn_once (rt_runner (sy_rt y))"
      "rn_cancel (rt_runner (sy_rt z)) = rn_cancel (rt_runner (sy_rt y))"
    and "sy_main z \<noteq> MainSetup \<Longrightarrow> sy_main y \<noteq> MainSetup"
    and "sy_main z = MainSetup \<Longrightarrow> sy_main y = MainSetup"
    and "wait_ok (sy_reported y) (rt_stopErr (sy_rt y)) (sy_main z)"
  shows "err_inv z"
  using assms by (auto simp: err_inv_def)

lemma task_step_err:
  assumes "task_step y z" and inv: "err_inv y" and main: "sy_main y = MainSetup \<Longrightarrow> sy_tasks y = []"
  shows "err_inv z"
  using assms(1)
proof cases
  case (task_reports k t err)
  have begun: "sy_main y \<noteq> MainSetup"
    using task_reports(2) main by (auto simp: task_at_def)
  show ?thesis
  proof (cases err)
    case None
    then show ?thesis
      using inv task_reports(1)
      by (intro err_inv_frame [OF inv])
        (simp_all add: err_inv_def report_error_def put_runner_def runner_finish_def Let_def)
  next
    case (Some e)
    then show ?thesis
      using inv begun wait_ok_snoc [of "sy_reported y" _ "sy_main y" e] unfolding task_reports(1)
      by (auto simp: err_inv_def report_error_def put_runner_def runner_finish_def Let_def
          first_error_snoc first_error_def split: list.splits)
  qed
qed (use inv in \<open>auto simp: err_inv_def set_task_def put_ct_def\<close>)

lemma context_step_err: "context_step y z \<Longrightarrow> err_inv y \<Longrightarrow> err_inv z"
  by (erule context_step.cases) (auto simp: err_inv_def put_ctx_def put_runner_def)

lemma api_step_err: "api_step y z \<Longrightarrow> err_inv y \<Longrightarrow> err_inv z"
  by (erule api_step.cases)
    (auto simp: err_inv_def put_ct_def put_runner_def launch_def container_Run_def
      container_startTaskLocked_def runner_Run_def Let_def
      dest!: attach_cases create_cases global_set_cases split: if_splits)

lemma hook_not_setup: "(case x of None \<Rightarrow> MainInitHooks i hs | Some e \<Rightarrow> MainFail e) \<noteq> MainSetup"
  "(case x of None \<Rightarrow> MainStartHooks i hs | Some e \<Rightarrow> MainFail e) \<noteq> MainSetup"
  "wait_ok es s (case x of None \<Rightarrow> MainInitHooks i hs | Some e \<Rightarrow> MainFail e)"
  "wait_ok es s (case x of None \<Rightarrow> MainStartHooks i hs | Some e \<Rightarrow> MainFail e)"
  by (simp_all split: option.split)

lemma main_step_err:
  assumes "main_step y z" and inv: "err_inv y"
  shows "err_inv z"
  using assms(1)
proof cases
  case (run_begins parent opts r deadline)
  then show ?thesis
    using inv by (auto simp: err_inv_def main_at_def runtime_Run_begin_def NewRunner_def first_error_def
        split: if_splits)
next
  case (cancels e r)
  then show ?thesis
    using inv by (auto simp: err_inv_def main_at_def report_error_def put_runner_def runner_Cancel_def
        first_error_snoc split: if_splits)
next
  case (waited r err)
  then show ?thesis
    using inv by (auto simp: err_inv_def main_at_def put_runner_def runner_Wait_def split: if_splits)
next
  case (main_returns err)
  then show ?thesis
    using inv by (auto simp: err_inv_def main_at_def first_error_def split: list.splits)
next
  case (start_ends i c r hs)
  then show ?thesis
    using inv start_end_cases [OF start_ends(3)]
    by (auto simp: err_inv_def main_at_def put_runner_def put_ct_def launch_def)
qed (use inv in \<open>auto simp: err_inv_def main_at_def log_hook_def put_ct_def put_ctx_def hook_not_setup\<close>)

section \<open>All invariants together\<close>

definition hooks_inv :: "('h, 't, 'v) rt_sys \<Rightarrow> bool" where
  "hooks_inv y \<longleftrightarrow>
     ctl_inv y \<and> order_inv y \<and> hook_inv y \<and> err_inv y \<and> (sy_main y = MainSetup \<longrightarrow> sy_tasks y = [])"

lemma setup_tasks:
  assumes "rt_step y z" and ctl: "ctl_inv y" and none: "sy_main y = MainSetup \<longrightarrow> sy_tasks y = []"
  shows "sy_main z = MainSetup \<longrightarrow> sy_tasks z = []"
  using assms(1)
proof cases
  case by_main
  then show ?thesis
    by cases (auto simp: main_at_def split: option.splits)
next
  case by_shutdown
  then show ?thesis
    using none by cases (auto simp: sh_at_def log_hook_def put_ct_def)
next
  case by_task
  then show ?thesis
    using none by cases (auto simp: set_task_def put_ct_def report_error_def put_runner_def)
next
  case by_context
  then show ?thesis
    using none by cases (auto simp: put_ctx_def put_runner_def)
next
  case by_api
  then show ?thesis
  proof cases
    case (launches_task i name f c r)
    then have "ct_state (ct y i) = ContainerStarting"
      by (auto simp: container_Run_def Let_def split: if_splits)
    then have "sy_main y \<noteq> MainSetup"
      using main_ok_of [OF ctl, of MainSetup] launches_task(2) by (auto simp: all_at_def)
    then show ?thesis
      by (simp add: launches_task(1) launch_def put_runner_def put_ct_def)
  qed (use none in \<open>auto simp: put_ct_def\<close>)
qed

lemma rt_step_hooks:
  assumes inv: "hooks_inv y" and step: "rt_step y z"
  shows "hooks_inv z"
proof -
  have parts: "ctl_inv y" "order_inv y" "hook_inv y" "err_inv y" "sy_main y = MainSetup \<longrightarrow> sy_tasks y = []"
    using inv by (simp_all add: hooks_inv_def)
  have "order_inv z \<and> hook_inv z \<and> err_inv z"
    using step
  proof cases
    case by_main
    then show ?thesis using parts main_step_order main_step_hooks main_step_err by blast
  next
    case by_shutdown
    then show ?thesis using parts shutdown_step_order shutdown_step_hooks shutdown_step_err by blast
  next
    case by_task
    then show ?thesis using parts task_step_order task_step_hooks task_step_err by blast
  next
    case by_context
    then show ?thesis using parts context_step_order context_step_hooks context_step_err by blast
  next
    case by_api
    then show ?thesis using parts api_step_order api_step_hooks api_step_err by blast
  qed
  then show ?thesis
    using rt_step_ctl [OF parts(1) step] setup_tasks [OF step parts(1,5)] by (simp add: hooks_inv_def)
qed

interpretation runtime_hooks: inductive_invariant rt_new rt_step hooks_inv
proof
  show "hooks_inv y" if "rt_new y" for y :: "('h, 't, 'v) rt_sys"
    using that ctl_start [OF that]
    by (simp add: hooks_inv_def order_inv_def hook_inv_def err_inv_def stop_error_def rt_new_def
        rt_start_def NewRuntime_def zero_runner_def first_error_def)
qed (rule rt_step_hooks)

end
