(* ===== verification/Gx_Runtime_Demo.thy ===== *)
theory Gx_Runtime_Demo imports Gx_Runtime begin

text \<open>
  A complete run, step by step: one container with a stop hook and a task, which fails;
  \<open>Run\<close> initializes and starts the container, waits for the task, stops the container and
  returns the error of the task. Its states are the inputs at which properties are applied.
\<close>

type_synonym demo_sys = "(nat, nat, nat) rt_sys"

definition demo_ct :: "ct_state \<Rightarrow> bool \<Rightarrow> string list \<Rightarrow> nat \<Rightarrow> (nat, nat, nat) container" where
  "demo_ct st pending running wg =
     \<lparr>ct_initFns = [], ct_name = ''a'', ct_running = running, ct_startFns = [], ct_state = st,
      ct_stopFns = [\<lparr>hk_fn = 1, hk_name = ''x''\<rparr>], ct_stoppingFns = [], ct_store = newStore,
      ct_tasks = (if pending then [\<lparr>hk_fn = 2, hk_name = ''w''\<rparr>] else []), ct_wg = wg\<rparr>"

definition demo_setup :: demo_sys where
  "demo_setup =
     rt_start\<lparr>sy_rt := NewRuntime\<lparr>rt_containers := [demo_ct ContainerSetup True [] 0]\<rparr>\<rparr>"

definition demo_err :: error where
  "demo_err = Wrap ''a: w: '' (NewError 7 ''boom'')"

definition demo_tk :: "task_pc \<Rightarrow> task_run" where
  "demo_tk p = \<lparr>tk_ct = 0, tk_id = 0, tk_name = ''w'', tk_pc = p\<rparr>"

text \<open>While the context is live: the place of the caller, the container, and the task if any.\<close>

definition demo_live :: "nat main_pc \<Rightarrow> (nat, nat, nat) container \<Rightarrow> task_pc option \<Rightarrow> demo_sys" where
  "demo_live p c task =
     \<lparr>sy_rt = \<lparr>rt_containers = [c], rt_ctx = live_ctx,
               rt_runner = (NewRunner live_ctx)\<lparr>rn_wg := (if task = None then [] else [0])\<rparr>,
               rt_shutdownTimeout = 30000000000, rt_startupDone = (p = MainWait),
               rt_state = (if ct_state c \<in> {ContainerStarting, ContainerRunning} \<or> p = MainStart 0
                           then RuntimeRunning else RuntimeInitializing),
               rt_stopErr = None, rt_store = newStore\<rparr>,
      sy_main = p, sy_sh = ShIdle,
      sy_tasks = (case task of None \<Rightarrow> [] | Some t \<Rightarrow> [demo_tk t]),
      sy_next = (if task = None then 0 else 1), sy_parent = live_ctx, sy_deadline = False,
      sy_log = [], sy_reported = [], sy_panicked = False\<rparr>"

text \<open>After the task has reported its error.\<close>

definition demo_late :: "nat main_pc \<Rightarrow> nat sh_pc \<Rightarrow> ct_state \<Rightarrow> bool \<Rightarrow> ctx \<Rightarrow> demo_sys" where
  "demo_late p sh st logged x =
     \<lparr>sy_rt = \<lparr>rt_containers = [demo_ct st False [] 0], rt_ctx = x,
               rt_runner = \<lparr>rn_cancel = True, rn_ctx = cancel_cause (Some demo_err) live_ctx,
                            rn_err = Some demo_err, rn_once = True, rn_wg = []\<rparr>,
               rt_shutdownTimeout = 30000000000, rt_startupDone = True,
               rt_state = (if sh = ShDone \<and> p \<noteq> MainShutdown (Some demo_err) then RuntimeStopped else RuntimeRunning),
               rt_stopErr = None, rt_store = newStore\<rparr>,
      sy_main = p, sy_sh = sh, sy_tasks = [], sy_next = 1, sy_parent = live_ctx,
      sy_deadline = False,
      sy_log = (if logged then [\<lparr>ev_ct = 0, ev_err = None, ev_hook = ''x'', ev_phase = PhStop\<rparr>] else []),
      sy_reported = [demo_err], sy_panicked = False\<rparr>"

lemmas demo_defs = demo_ct_def demo_tk_def demo_setup_def demo_live_def demo_late_def demo_err_def rt_start_def
  NewRuntime_def NewRunner_def live_ctx_def inherit_def rt_put_defs

lemma demo_setup_reach: "reach rt_new rt_step demo_setup"
proof -
  let ?a = "(rt_start :: demo_sys)\<lparr>sy_rt := NewRuntime\<lparr>rt_containers := [NewContainer ''a'']\<rparr>\<rparr>"
  let ?c = "(NewContainer ''a'' :: (nat, nat, nat) container)\<lparr>ct_stopFns := [\<lparr>hk_fn = 1, hk_name = ''x''\<rparr>]\<rparr>"
  let ?b = "put_ct 0 ?c ?a"
  have "reach rt_new rt_step (rt_start :: demo_sys)"
    by (rule reach_start) (simp add: rt_new_def)
  moreover have "api_step rt_start ?a"
    using attaches [of "''a''" "rt_start :: demo_sys"]
    by (simp add: runtime_Attach_def rt_start_def NewRuntime_def)
  moreover have "api_step ?a ?b"
    by (rule registers [of 0 _ "''x''" 1 _ 0 None])
      (simp_all add: container_OnStop_def NewContainer_def)
  moreover have "api_step ?b demo_setup"
    using registers_task [of 0 ?b "''w''" 2]
    by (simp add: container_Run_def demo_defs NewContainer_def)
  ultimately show ?thesis
    by (blast intro: reach_step by_api)
qed

lemma demo_init:
  "main_step demo_setup (demo_live (MainInit 0) (demo_ct ContainerSetup True [] 0) None)"
  "main_step (demo_live (MainInit 0) (demo_ct ContainerSetup True [] 0) None)
     (demo_live (MainInitHooks 0 []) (demo_ct ContainerInitializing True [] 0) None)"
  "main_step (demo_live (MainInitHooks 0 []) (demo_ct ContainerInitializing True [] 0) None)
     (demo_live (MainInit 1) (demo_ct ContainerInitialized True [] 0) None)"
  "main_step (demo_live (MainInit 1) (demo_ct ContainerInitialized True [] 0) None)
     (demo_live MainStarting (demo_ct ContainerInitialized True [] 0) None)"
  using run_begins [of demo_setup live_ctx "[]" _ False]
    init_begins [of "demo_live (MainInit 0) (demo_ct ContainerSetup True [] 0) None" 0]
    init_ends [of "demo_live (MainInitHooks 0 []) (demo_ct ContainerInitializing True [] 0) None" 0]
    init_done [of "demo_live (MainInit 1) (demo_ct ContainerInitialized True [] 0) None" 1]
  by (simp_all add: demo_defs runtime_Run_begin_def newRuntimeTaskContext_def runOptions_def
      runtimeDefaultShutdownTimeout_def container_init_begin_def container_init_end_def ctx_wf_def)

lemma demo_start:
  "main_step (demo_live MainStarting (demo_ct ContainerInitialized True [] 0) None)
     (demo_live (MainStart 0) (demo_ct ContainerInitialized True [] 0) None)"
  "main_step (demo_live (MainStart 0) (demo_ct ContainerInitialized True [] 0) None)
     (demo_live (MainStartHooks 0 []) (demo_ct ContainerStarting True [] 0) None)"
  "main_step (demo_live (MainStartHooks 0 []) (demo_ct ContainerStarting True [] 0) None)
     (demo_live (MainStart 1) (demo_ct ContainerRunning False [''w''] 1) (Some TaskBody))"
  "main_step (demo_live (MainStart 1) (demo_ct ContainerRunning False [''w''] 1) (Some TaskBody))
     (demo_live MainStarted (demo_ct ContainerRunning False [''w''] 1) (Some TaskBody))"
  "main_step (demo_live MainStarted (demo_ct ContainerRunning False [''w''] 1) (Some TaskBody))
     (demo_live MainWait (demo_ct ContainerRunning False [''w''] 1) (Some TaskBody))"
  using starting [of "demo_live MainStarting (demo_ct ContainerInitialized True [] 0) None"]
    start_begins [of "demo_live (MainStart 0) (demo_ct ContainerInitialized True [] 0) None" 0]
    start_ends [of "demo_live (MainStartHooks 0 []) (demo_ct ContainerStarting True [] 0) None" 0]
    start_done [of "demo_live (MainStart 1) (demo_ct ContainerRunning False [''w''] 1) (Some TaskBody)" 1]
    started [of "demo_live MainStarted (demo_ct ContainerRunning False [''w''] 1) (Some TaskBody)"]
  by (simp_all add: demo_defs container_start_begin_def container_start_end_def
      container_startTaskLocked_def runner_Run_def new_tasks_def)

lemma demo_running_reach:
  "reach rt_new rt_step (demo_live MainWait (demo_ct ContainerRunning False [''w''] 1) (Some TaskBody))"
  by (rule demo_setup_reach
      [THEN reach_step, OF by_main [OF demo_init(1)],
      THEN reach_step, OF by_main [OF demo_init(2)],
      THEN reach_step, OF by_main [OF demo_init(3)],
      THEN reach_step, OF by_main [OF demo_init(4)],
      THEN reach_step, OF by_main [OF demo_start(1)],
      THEN reach_step, OF by_main [OF demo_start(2)],
      THEN reach_step, OF by_main [OF demo_start(3)],
      THEN reach_step, OF by_main [OF demo_start(4)],
      THEN reach_step, OF by_main [OF demo_start(5)]])

lemma demo_task:
  "task_step (demo_live MainWait (demo_ct ContainerRunning False [''w''] 1) (Some TaskBody))
     (demo_live MainWait (demo_ct ContainerRunning False [''w''] 1) (Some (TaskStop (Some demo_err))))"
  "task_step (demo_live MainWait (demo_ct ContainerRunning False [''w''] 1) (Some (TaskStop (Some demo_err))))
     (demo_live MainWait (demo_ct ContainerRunning False [] 1) (Some (TaskDone (Some demo_err))))"
  "task_step (demo_live MainWait (demo_ct ContainerRunning False [] 1) (Some (TaskDone (Some demo_err))))
     (demo_live MainWait (demo_ct ContainerRunning False [] 0) (Some (TaskReport (Some demo_err))))"
  "task_step (demo_live MainWait (demo_ct ContainerRunning False [] 0) (Some (TaskReport (Some demo_err))))
     (demo_late MainWait ShIdle ContainerRunning False live_ctx)"
  using task_returns [of 0 "demo_tk (TaskBody)" "demo_live MainWait (demo_ct ContainerRunning False [''w''] 1) (Some TaskBody)"
      "Some (NewError 7 ''boom'')"]
    task_stops [of 0 "demo_tk (TaskStop (Some demo_err))" "demo_live MainWait (demo_ct ContainerRunning False [''w''] 1) (Some (TaskStop (Some demo_err)))"]
    task_done [of 0 "demo_tk (TaskDone (Some demo_err))" "demo_live MainWait (demo_ct ContainerRunning False [] 1) (Some (TaskDone (Some demo_err)))"]
    task_reports [of 0 "demo_tk (TaskReport (Some demo_err))" "demo_live MainWait (demo_ct ContainerRunning False [] 0) (Some (TaskReport (Some demo_err)))"]
  by (simp_all add: demo_defs task_at_def task_result_def container_stopTask_def runner_finish_def
      cancel_cause_def)

definition demo_over :: ctx where
  "demo_over = cancel_cause None live_ctx"

lemma demo_stop:
  "main_step (demo_late MainWait ShIdle ContainerRunning False live_ctx)
     (demo_late (MainCancelTasks (Some demo_err)) ShIdle ContainerRunning False live_ctx)"
  "main_step (demo_late (MainCancelTasks (Some demo_err)) ShIdle ContainerRunning False live_ctx)
     (demo_late (MainShutdown (Some demo_err)) ShIdle ContainerRunning False demo_over)"
  "shutdown_step (demo_late (MainShutdown (Some demo_err)) ShIdle ContainerRunning False demo_over)
     (demo_late (MainShutdown (Some demo_err)) (ShNext 1) ContainerRunning False demo_over)"
  "shutdown_step (demo_late (MainShutdown (Some demo_err)) (ShNext 1) ContainerRunning False demo_over)
     (demo_late (MainShutdown (Some demo_err)) (ShStopping 0 [] [\<lparr>hk_fn = 1, hk_name = ''x''\<rparr>] None)
       ContainerStopping False demo_over)"
  "shutdown_step (demo_late (MainShutdown (Some demo_err)) (ShStopping 0 [] [\<lparr>hk_fn = 1, hk_name = ''x''\<rparr>] None)
       ContainerStopping False demo_over)
     (demo_late (MainShutdown (Some demo_err)) (ShStop 0 [\<lparr>hk_fn = 1, hk_name = ''x''\<rparr>] None)
       ContainerStopping False demo_over)"
  using waited [of "demo_late MainWait ShIdle ContainerRunning False live_ctx"]
    cancels_tasks [of "demo_late (MainCancelTasks (Some demo_err)) ShIdle ContainerRunning False live_ctx"]
    sh_begins [of "demo_late (MainShutdown (Some demo_err)) ShIdle ContainerRunning False demo_over"]
    sh_stops [of "demo_late (MainShutdown (Some demo_err)) (ShNext 1) ContainerRunning False demo_over" 0]
    sh_waits [of "demo_late (MainShutdown (Some demo_err)) (ShStopping 0 [] [\<lparr>hk_fn = 1, hk_name = ''x''\<rparr>] None)
       ContainerStopping False demo_over"]
  by (simp_all add: demo_defs demo_over_def runner_Wait_def cancel_cause_def container_shutdown_begin_def)

lemma demo_end:
  "shutdown_step (demo_late (MainShutdown (Some demo_err)) (ShStop 0 [\<lparr>hk_fn = 1, hk_name = ''x''\<rparr>] None)
       ContainerStopping False demo_over)
     (demo_late (MainShutdown (Some demo_err)) (ShStop 0 [] None) ContainerStopping True demo_over)"
  "shutdown_step (demo_late (MainShutdown (Some demo_err)) (ShStop 0 [] None) ContainerStopping True demo_over)
     (demo_late (MainShutdown (Some demo_err)) (ShNext 0) ContainerStopped True demo_over)"
  "shutdown_step (demo_late (MainShutdown (Some demo_err)) (ShNext 0) ContainerStopped True demo_over)
     (demo_late (MainShutdown (Some demo_err)) ShDone ContainerStopped True demo_over)"
  "main_step (demo_late (MainShutdown (Some demo_err)) ShDone ContainerStopped True demo_over)
     (demo_late (MainReturned (Some demo_err)) ShDone ContainerStopped True demo_over)"
  using sh_stop_hook [of "demo_late (MainShutdown (Some demo_err)) (ShStop 0 [\<lparr>hk_fn = 1, hk_name = ''x''\<rparr>] None)
       ContainerStopping False demo_over" 0 _ _ _ None]
    sh_ends [of "demo_late (MainShutdown (Some demo_err)) (ShStop 0 [] None) ContainerStopping True demo_over" 0]
    sh_done [of "demo_late (MainShutdown (Some demo_err)) (ShNext 0) ContainerStopped True demo_over"]
    main_returns [of "demo_late (MainShutdown (Some demo_err)) ShDone ContainerStopped True demo_over"]
  by (simp_all add: demo_defs hook_error_def keep_first_def container_shutdown_end_def)

lemma demo_stopping_reach:
  "reach rt_new rt_step (demo_late (MainShutdown (Some demo_err))
     (ShStop 0 [\<lparr>hk_fn = 1, hk_name = ''x''\<rparr>] None) ContainerStopping False demo_over)"
  by (rule demo_running_reach
      [THEN reach_step, OF by_task [OF demo_task(1)],
      THEN reach_step, OF by_task [OF demo_task(2)],
      THEN reach_step, OF by_task [OF demo_task(3)],
      THEN reach_step, OF by_task [OF demo_task(4)],
      THEN reach_step, OF by_main [OF demo_stop(1)],
      THEN reach_step, OF by_main [OF demo_stop(2)],
      THEN reach_step, OF by_shutdown [OF demo_stop(3)],
      THEN reach_step, OF by_shutdown [OF demo_stop(4)],
      THEN reach_step, OF by_shutdown [OF demo_stop(5)]])

lemma demo_returned_reach:
  "reach rt_new rt_step (demo_late (MainReturned (Some demo_err)) ShDone ContainerStopped True demo_over)"
  by (rule demo_stopping_reach
      [THEN reach_step, OF by_shutdown [OF demo_end(1)],
      THEN reach_step, OF by_shutdown [OF demo_end(2)],
      THEN reach_step, OF by_shutdown [OF demo_end(3)],
      THEN reach_step, OF by_main [OF demo_end(4)]])

end
