(* ===== verification/Gx_Runtime_Correct.thy ===== *)
theory Gx_Runtime_Correct imports Gx_Runtime_Tasks Gx_Runtime_Hooks Gx_Runtime_Demo begin

text \<open>
  What is proved of \<open>Runtime.Run\<close>: the lifecycle of containers, the accounting of tasks,
  the order and completeness of hooks, and the result. Each property is applied to a state
  of the run of \<open>Gx_Runtime_Demo\<close>.
\<close>

section \<open>Lifecycle and tasks\<close>

text \<open>
  C1: In every interleaving of \<open>Run\<close>, its shutdown, tasks, contexts and callers, the
  lifecycle never panics: each container is initialized once and started only when
  initialized. When \<open>Run\<close> waits with a live context and no error has been reported, every
  container is running; before startup is done none is being stopped; when \<open>Run\<close> has
  returned, every container is stopped or was never initialized.
\<close>

theorem runtime_lifecycle:
  assumes "reach rt_new rt_step y"
  shows "\<not> sy_panicked y \<and>
    (\<forall>i < cts y.
       (sy_main y = MainWait \<and> live y \<and> sy_reported y = [] \<longrightarrow> ct_state (ct y i) = ContainerRunning) \<and>
       (\<not> rt_startupDone (sy_rt y) \<longrightarrow> ct_state (ct y i) \<notin> {ContainerStopping, ContainerStopped}) \<and>
       (\<forall>res. sy_main y = MainReturned res \<longrightarrow> ct_state (ct y i) \<in> {ContainerSetup, ContainerStopped}))"
proof -
  have inv: "ctl_inv y"
    by (rule runtime_control.reach_inv [OF assms])
  have 1: "all_at (states_of y) 0 (cts y) {ContainerRunning}"
    if "sy_main y = MainWait \<and> live y \<and> sy_reported y = []"
    using main_ok_of [OF inv, of MainWait] that by simp
  have 2: "all_at (states_of y) 0 (cts y) unstopped" if "\<not> rt_startupDone (sy_rt y)"
    using inv that unstopped_of [OF inv] by (auto simp: ctl_inv_def)
  have 3: "all_at (states_of y) 0 (cts y) stopped" if "sy_main y = MainReturned res" for res
    using sh_ok_of [OF inv, of ShDone] inv that by (auto simp: ctl_inv_def)
  show ?thesis
    using inv 1 2 3 by (auto simp: all_at_def ctl_inv_def stopped_def unstopped_def)
qed

lemma runtime_lifecycle_witness:
  "\<exists>y :: demo_sys. reach rt_new rt_step y \<and> sy_main y = MainWait \<and> live y \<and>
     cts y = 1 \<and> ct_state (ct y 0) = ContainerRunning"
proof -
  let ?y = "demo_live MainWait (demo_ct ContainerRunning False [''w''] 1) (Some TaskBody)"
  have facts: "sy_main ?y = MainWait" "live ?y" "sy_reported ?y = []" "0 < cts ?y" "cts ?y = 1"
    by (simp_all add: demo_defs)
  then have "ct_state (ct ?y 0) = ContainerRunning"
    using runtime_lifecycle [OF demo_running_reach] by blast
  with demo_running_reach facts show ?thesis
    by (intro exI [of _ ?y] exI conjI)
qed

text \<open>
  The bookkeeping of managed tasks is exact in every reachable state: the wait group of
  a container counts its unfinished tasks, the list of running tasks, which the shutdown
  watchdog reports, names exactly those whose body has not returned to \<open>stopTask\<close>, and the
  runner waits for every task that exists.
\<close>

theorem runtime_task_accounting:
  assumes "reach rt_new rt_step y"
  shows "(\<forall>i < cts y.
       ct_wg (ct y i) = length (filter (\<lambda>t. tk_ct t = i \<and> counted (tk_pc t)) (sy_tasks y)) \<and>
       mset (ct_running (ct y i)) =
         mset (map tk_name (filter (\<lambda>t. tk_ct t = i \<and> listed (tk_pc t)) (sy_tasks y)))) \<and>
    mset (rn_wg (rt_runner (sy_rt y))) = mset (map tk_id (sy_tasks y)) \<and>
    (runner_Wait (rt_runner (sy_rt y)) = None \<longleftrightarrow> sy_tasks y \<noteq> [])"
proof -
  have inv: "task_inv y"
    using runtime_tasks.reach_inv [OF assms] by (simp add: tasks_inv_def)
  have "rn_wg (rt_runner (sy_rt y)) = [] \<longleftrightarrow> sy_tasks y = []"
    using inv by (auto simp: task_inv_def)
  then show ?thesis
    using inv by (simp add: task_inv_def tasks_of_def runner_Wait_def)
qed

lemma runtime_task_accounting_witness:
  "\<exists>y :: demo_sys. reach rt_new rt_step y \<and> sy_tasks y = [demo_tk TaskBody] \<and>
     runner_Wait (rt_runner (sy_rt y)) = None"
proof -
  let ?y = "demo_live MainWait (demo_ct ContainerRunning False [''w''] 1) (Some TaskBody)"
  have tasks: "sy_tasks ?y = [demo_tk TaskBody]"
    by (simp add: demo_live_def)
  then have "runner_Wait (rt_runner (sy_rt ?y)) = None"
    using runtime_task_accounting [OF demo_running_reach] by simp
  with demo_running_reach tasks show ?thesis
    by (intro exI [of _ ?y] exI conjI)
qed

text \<open>
  C2: The stop hooks of a container run only when its managed work is over: whenever the
  shutdown is at the stop hooks of a container, no task of it still runs and none can be
  launched; when \<open>Run\<close> has returned, no task of any container runs.
\<close>

theorem runtime_stops_after_tasks:
  assumes "reach rt_new rt_step y"
  shows "(\<forall>i hs e t. sy_sh y = ShStop i hs e \<and> t \<in> set (sy_tasks y) \<and> tk_ct t = i \<longrightarrow>
       \<not> counted (tk_pc t)) \<and>
    (\<forall>i hs e g name f. sy_sh y = ShStop i hs e \<and> name \<noteq> [] \<longrightarrow>
       (\<exists>m. container_Run g name (Some f) (ct y i, rt_runner (sy_rt y)) = Panic m)) \<and>
    (\<forall>res t. sy_main y = MainReturned res \<and> t \<in> set (sy_tasks y) \<longrightarrow> \<not> counted (tk_pc t))"
proof -
  have inv: "ctl_inv y" "task_inv y" "idle_inv y"
    using runtime_tasks.reach_inv [OF assms] by (auto simp: tasks_inv_def)
  have none: "\<not> counted (tk_pc t)" if "t \<in> set (sy_tasks y)" "ct_wg (ct y (tk_ct t)) = 0" for t
  proof -
    have "tk_ct t < cts y"
      using inv(2) that(1) by (simp add: task_inv_def)
    then have "tasks_of (tk_ct t) counted (sy_tasks y) = []"
      using inv(2) that(2) by (simp add: task_inv_def)
    then show ?thesis
      using that(1) by (auto simp: tasks_of_def filter_empty_conv)
  qed
  have stop: "i < cts y \<and> ct_state (ct y i) = ContainerStopping \<and> ct_wg (ct y i) = 0"
    if "sy_sh y = ShStop i hs e" for i hs e
    using sh_ok_of [OF inv(1) that] inv(3) that by (auto simp: idle_inv_def)
  have returned: "ct_wg (ct y (tk_ct t)) = 0"
    if "sy_main y = MainReturned res" "t \<in> set (sy_tasks y)" for res t
  proof -
    have "sy_sh y = ShDone"
      using inv(1) that(1) by (auto simp: ctl_inv_def)
    then have "ct_state (ct y (tk_ct t)) \<in> stopped"
      using sh_ok_of [OF inv(1), of ShDone] inv(2) that(2) by (simp add: all_at_def task_inv_def)
    then show ?thesis
      using inv(2,3) that(2) by (auto simp: stopped_def idle_inv_def idle_states_def task_inv_def)
  qed
  have "\<exists>m. container_Run g name (Some f) (ct y i, rt_runner (sy_rt y)) = Panic m"
    if "sy_sh y = ShStop i hs e" "name \<noteq> []" for i hs e g name f
    using stop [OF that(1)] that(2) by (simp add: container_Run_def Let_def)
  moreover have "\<not> counted (tk_pc t)"
    if "sy_sh y = ShStop i hs e" "t \<in> set (sy_tasks y)" "tk_ct t = i" for i hs e t
    using none [OF that(2)] stop [OF that(1)] that(3) by simp
  moreover have "\<not> counted (tk_pc t)"
    if "sy_main y = MainReturned res" "t \<in> set (sy_tasks y)" for res t
    using none [OF that(2) returned [OF that]] .
  ultimately show ?thesis by simp
qed

lemma runtime_stops_after_tasks_witness:
  "\<exists>(y :: demo_sys) hs. reach rt_new rt_step y \<and> sy_sh y = ShStop 0 hs None \<and> hs \<noteq> [] \<and>
     (\<exists>m. container_Run 5 ''z'' (Some 9) (ct y 0, rt_runner (sy_rt y)) = Panic m)"
proof -
  let ?hs = "[\<lparr>hk_fn = 1, hk_name = ''x''\<rparr>] :: nat hook list"
  let ?y = "demo_late (MainShutdown (Some demo_err)) (ShStop 0 ?hs None) ContainerStopping False demo_over"
  have sh: "sy_sh ?y = ShStop 0 ?hs None"
    by (simp add: demo_late_def)
  have "\<exists>m. container_Run 5 ''z'' (Some 9) (ct ?y 0, rt_runner (sy_rt ?y)) = Panic m"
    using runtime_stops_after_tasks [OF demo_stopping_reach] sh by blast
  with demo_stopping_reach sh show ?thesis
    by (intro exI [of _ ?y] exI [of _ ?hs]) simp
qed

section \<open>Hooks and the result\<close>

text \<open>
  C7: Hooks are called in lifecycle order. In every run the log of hook calls is sorted by
  place: all init hooks in attachment order, then all start hooks in attachment order, then,
  in reverse attachment order, the stopping hooks and after them the stop hooks of each
  container. No hook of an earlier place is ever called after one of a later place.
\<close>

theorem runtime_hook_order:
  assumes "reach rt_new rt_step y"
  shows "sorted (map (ev_place (cts y)) (sy_log y)) \<and> (\<forall>e \<in> set (sy_log y). ev_ct e < cts y)"
  using runtime_hooks.reach_inv [OF assms] by (simp add: hooks_inv_def order_inv_def)

lemma runtime_hook_order_witness:
  "\<exists>y :: demo_sys. reach rt_new rt_step y \<and> length (sy_log y) = 1 \<and>
     (\<forall>e \<in> set (sy_log y). ev_ct e < cts y)"
  using runtime_hook_order [OF demo_returned_reach] demo_returned_reach
  by (intro exI [of _ "demo_late (MainReturned (Some demo_err)) ShDone ContainerStopped True demo_over"])
    (simp add: demo_late_def)

text \<open>
  C6: Which hooks run. The init and start hooks called are always an initial part of the
  registered ones, in registration order; all of them for a running container. A container
  that is stopped has had all its stopping hooks and all its stop hooks called once, each
  in reverse registration order, whatever they returned; one that was never initialized has
  had none.
\<close>

theorem runtime_hooks_run:
  assumes "reach rt_new rt_step y" and "i < cts y"
  shows "prefix (ran PhInit i (sy_log y)) (names (ct_initFns (ct y i))) \<and>
    prefix (ran PhStart i (sy_log y)) (names (ct_startFns (ct y i))) \<and>
    (ct_state (ct y i) = ContainerRunning \<longrightarrow>
       ran PhInit i (sy_log y) = names (ct_initFns (ct y i)) \<and>
       ran PhStart i (sy_log y) = names (ct_startFns (ct y i))) \<and>
    (ct_state (ct y i) = ContainerStopped \<longrightarrow>
       ran PhStopping i (sy_log y) = rev (names (ct_stoppingFns (ct y i))) \<and>
       ran PhStop i (sy_log y) = rev (names (ct_stopFns (ct y i)))) \<and>
    (ct_state (ct y i) = ContainerSetup \<longrightarrow> (\<forall>ph. ran ph i (sy_log y) = []))"
proof -
  have ok: "hooks_ok (ct y i) (\<lambda>ph. ran ph i (sy_log y))"
    using runtime_hooks.reach_inv [OF assms(1)] assms(2) by (simp add: hooks_inv_def hook_inv_def)
  have "ran ph i (sy_log y) = []" if "ct_state (ct y i) = ContainerSetup" for ph
    using ok that by (cases ph) (simp_all add: hooks_ok_def)
  then show ?thesis
    using ok by (auto simp: hooks_ok_def)
qed

lemma runtime_hooks_run_witness:
  "\<exists>y :: demo_sys. reach rt_new rt_step y \<and> ran PhStop 0 (sy_log y) = [''x''] \<and>
     names (ct_stopFns (ct y 0)) = [''x'']"
proof -
  let ?y = "demo_late (MainReturned (Some demo_err)) ShDone ContainerStopped True demo_over"
  have facts: "0 < cts ?y" "ct_state (ct ?y 0) = ContainerStopped" "names (ct_stopFns (ct ?y 0)) = [''x'']"
    by (simp_all add: demo_late_def demo_ct_def)
  then have "ran PhStop 0 (sy_log ?y) = [''x'']"
    using runtime_hooks_run [OF demo_returned_reach facts(1)] by simp
  with demo_returned_reach facts(3) show ?thesis
    by (intro exI [of _ ?y] conjI)
qed

text \<open>The error that \<open>Run\<close> keeps when its wait is over decides the result from then on.\<close>

definition keeps :: "error option \<Rightarrow> ('h, 't, 'v) rt_sys \<Rightarrow> bool" where
  "keeps err y \<longleftrightarrow>
     sy_main y = MainCancelTasks err \<or> sy_main y = MainShutdown err \<or>
     (sy_sh y = ShDone \<and>
      sy_main y = MainReturned (if err \<noteq> None then err else stop_error (sy_log y)))"

lemma keeps_step:
  assumes "hooks_inv y" and "keeps err y" and "rt_step y z"
  shows "keeps err z"
  using assms(3)
proof cases
  case by_main
  have "rt_stopErr (sy_rt y) = stop_error (sy_log y)" if "sy_sh y = ShDone"
    using assms(1) that by (auto simp: hooks_inv_def err_inv_def)
  with by_main assms(2) show ?thesis
    by (auto simp: keeps_def main_at_def put_ctx_def elim!: main_step.cases)
next
  case by_shutdown
  then show ?thesis
    using assms(2) by (auto simp: keeps_def sh_at_def log_hook_def put_ct_def elim!: shutdown_step.cases)
next
  case by_task
  then show ?thesis
    using assms(2)
    by (auto simp: keeps_def set_task_def put_ct_def report_error_def put_runner_def elim!: task_step.cases)
next
  case by_context
  then show ?thesis
    using assms(2) by (auto simp: keeps_def put_ctx_def put_runner_def elim!: context_step.cases)
next
  case by_api
  then show ?thesis
    using assms(2)
    by (auto simp: keeps_def put_ct_def put_runner_def launch_def elim!: api_step.cases)
qed

lemma keeps_steps:
  assumes "rt_step\<^sup>*\<^sup>* w z" and "reach rt_new rt_step w" and "keeps err w"
  shows "keeps err z"
proof -
  have "reach rt_new rt_step z \<and> keeps err z"
    using assms
    by (induction rule: rtranclp_induct) (auto intro: reach_step keeps_step runtime_hooks.reach_inv)
  then show ?thesis ..
qed

lemma wait_over_cases:
  assumes "main_step y w" and "sy_main y = MainWait" and "reach rt_new rt_step y"
  shows "keeps (first_error (sy_reported y)) w" "sy_tasks y = []" "sy_reported w = sy_reported y"
proof -
  have err: "rn_err (rt_runner (sy_rt y)) = first_error (sy_reported y)"
    using runtime_hooks.reach_inv [OF assms(3)] by (simp add: hooks_inv_def err_inv_def)
  have "task_inv y"
    using runtime_tasks.reach_inv [OF assms(3)] by (simp add: tasks_inv_def)
  then have "rn_wg (rt_runner (sy_rt y)) = [] \<longleftrightarrow> sy_tasks y = []"
    by (auto simp: task_inv_def)
  with assms(1,2) err show "keeps (first_error (sy_reported y)) w" "sy_tasks y = []"
    "sy_reported w = sy_reported y"
    by (auto simp: keeps_def main_at_def put_runner_def runner_Wait_def elim!: main_step.cases
        split: if_splits)
qed

text \<open>A call that is past its wait has gone through it.\<close>

fun past_wait :: "'h main_pc \<Rightarrow> bool" where
  "past_wait (MainCancelTasks err) = True"
| "past_wait (MainShutdown err) = True"
| "past_wait (MainReturned err) = True"
| "past_wait p = False"

lemma past_wait_step:
  assumes "rt_step y z" and "past_wait (sy_main z)"
  shows "past_wait (sy_main y) \<or> sy_main y = MainWait \<and> main_step y z"
  using assms(1)
proof cases
  case by_main
  then show ?thesis
    using assms(2) by (auto simp: main_at_def elim!: main_step.cases split: option.splits)
next
  case by_shutdown
  then have "sy_main z = sy_main y"
    by (auto simp: sh_at_def log_hook_def put_ct_def elim!: shutdown_step.cases)
  then show ?thesis using assms(2) by simp
next
  case by_task
  then have "sy_main z = sy_main y"
    by (auto simp: set_task_def put_ct_def report_error_def put_runner_def elim!: task_step.cases)
  then show ?thesis using assms(2) by simp
next
  case by_context
  then have "sy_main z = sy_main y"
    by (auto simp: put_ctx_def put_runner_def elim!: context_step.cases)
  then show ?thesis using assms(2) by simp
next
  case by_api
  then have "sy_main z = sy_main y"
    by (auto simp: put_ct_def put_runner_def launch_def elim!: api_step.cases)
  then show ?thesis using assms(2) by simp
qed

lemma waited_before:
  "reach rt_new rt_step z \<Longrightarrow> past_wait (sy_main z) \<Longrightarrow>
     \<exists>y w. reach rt_new rt_step y \<and> sy_main y = MainWait \<and> main_step y w \<and> rt_step\<^sup>*\<^sup>* w z"
proof (induction rule: reach.induct)
  case (reach_start s)
  then show ?case by (auto simp: rt_new_def rt_start_def)
next
  case (reach_step s t)
  from past_wait_step [OF reach_step.hyps(2) reach_step.prems] show ?case
  proof
    assume "past_wait (sy_main s)"
    with reach_step.IH reach_step.hyps(2) show ?thesis
      by (blast intro: rtranclp.rtrancl_into_rtrancl)
  next
    assume "sy_main s = MainWait \<and> main_step s t"
    with reach_step.hyps(1) show ?thesis
      by blast
  qed
qed

text \<open>
  C8: What \<open>Run\<close> returns. A call that has returned went past its wait exactly as follows: in
  a state in which no task was left, the errors that had reached the runner by then, from a
  failed hook of a live startup or from tasks, decide. If there was one, the result is the
  first of them, whatever the shutdown did; only if there was none is it the first error of
  a stopping or stop hook, in the order they ran, or nil.
\<close>

theorem runtime_run_result:
  assumes "reach rt_new rt_step z" and "sy_main z = MainReturned res"
  shows "(\<exists>y w. reach rt_new rt_step y \<and> sy_main y = MainWait \<and> main_step y w \<and> rt_step\<^sup>*\<^sup>* w z) \<and>
    (\<forall>y w. reach rt_new rt_step y \<and> sy_main y = MainWait \<and> main_step y w \<and> rt_step\<^sup>*\<^sup>* w z \<longrightarrow>
       sy_tasks y = [] \<and>
       res = (case sy_reported y of e # es \<Rightarrow> Some e | [] \<Rightarrow> stop_error (sy_log z)))"
proof -
  have "sy_tasks y = [] \<and>
      res = (case sy_reported y of e # es \<Rightarrow> Some e | [] \<Rightarrow> stop_error (sy_log z))"
    if y: "reach rt_new rt_step y" "sy_main y = MainWait" "main_step y w" "rt_step\<^sup>*\<^sup>* w z" for y w
  proof -
    note over = wait_over_cases [OF y(3,2,1)]
    have "keeps (first_error (sy_reported y)) z"
      by (rule keeps_steps [OF y(4) reach_step [OF y(1) by_main [OF y(3)]] over(1)])
    then show ?thesis
      using over(2) assms(2) by (auto simp: keeps_def first_error_def split: list.splits)
  qed
  moreover have "past_wait (sy_main z)"
    using assms(2) by simp
  note waited_before [OF assms(1) this]
  ultimately show ?thesis by blast
qed

lemma runtime_run_result_witness:
  "\<exists>(z :: demo_sys) y w. reach rt_new rt_step z \<and> sy_main z = MainReturned (Some demo_err) \<and>
     sy_main y = MainWait \<and> main_step y w \<and> rt_step\<^sup>*\<^sup>* w z \<and>
     Some demo_err = (case sy_reported y of e # es \<Rightarrow> Some e | [] \<Rightarrow> stop_error (sy_log z))"
proof -
  let ?z = "demo_late (MainReturned (Some demo_err)) ShDone ContainerStopped True demo_over"
  have main: "sy_main ?z = MainReturned (Some demo_err)"
    by (simp add: demo_late_def)
  from runtime_run_result [OF demo_returned_reach main] main demo_returned_reach show ?thesis
    by blast
qed

section \<open>A task accepted too late\<close>

definition canceled_ctx :: ctx where
  "canceled_ctx = \<lparr>ctx_err = Some Canceled, ctx_cause = Some Canceled\<rparr>"

text \<open>
  When the context ends while a container is starting, the container stays in its
  starting state, and \<open>Container.Run\<close> goes on accepting and launching tasks until the
  shutdown reaches it: there is a run that does so after \<open>Runtime.Run\<close> has stopped waiting
  for tasks with a nil result, so that the error of such a task is never returned.
\<close>

lemma runtime_task_after_wait:
  "\<exists>(y :: demo_sys) c. reach rt_new rt_step y \<and> sy_main y = MainCancelTasks None \<and>
     container_Run (sy_next y) ''late'' (Some 3) (ct y 0, rt_runner (sy_rt y)) = Ret (Launched c)"
proof -
  let ?c = "demo_ct ContainerStarting True [] 0"
  let ?s = "demo_live (MainStartHooks 0 []) ?c None"
  let ?p = "put_runner ((rt_runner (sy_rt ?s))\<lparr>rn_ctx := inherit canceled_ctx (rn_ctx (rt_runner (sy_rt ?s)))\<rparr>)
    (?s\<lparr>sy_parent := canceled_ctx\<rparr>)"
  let ?m = "put_ctx (cancel_cause None (rt_ctx (sy_rt ?p))) ?p"
  let ?e = "main_at (MainStart 1) ?m"
  let ?d = "main_at MainStarted ?e"
  let ?w = "main_at MainWait (?d\<lparr>sy_rt := (sy_rt ?d)\<lparr>rt_startupDone := True\<rparr>\<rparr>)"
  let ?r = "(rt_runner (sy_rt ?w))\<lparr>rn_ctx := cancel_cause None (rn_ctx (rt_runner (sy_rt ?w)))\<rparr>"
  let ?y = "main_at (MainCancelTasks None) (put_runner ?r ?w)"
  have s: "reach rt_new rt_step ?s"
    by (rule demo_setup_reach [THEN reach_step, OF by_main [OF demo_init(1)],
        THEN reach_step, OF by_main [OF demo_init(2)], THEN reach_step, OF by_main [OF demo_init(3)],
        THEN reach_step, OF by_main [OF demo_init(4)], THEN reach_step, OF by_main [OF demo_start(1)],
        THEN reach_step, OF by_main [OF demo_start(2)]])
  have p: "context_step ?s ?p"
    by (rule parent_ends) (simp_all add: demo_live_def live_ctx_def canceled_ctx_def ctx_wf_def)
  have m: "context_step ?p ?m"
    by (rule parent_mirrored) (simp add: put_runner_def canceled_ctx_def)
  have e: "main_step ?m ?e"
    using start_ends [of ?m 0 ?c "rt_runner (sy_rt ?m)" "[]"]
    by (simp add: demo_defs canceled_ctx_def container_start_end_def new_tasks_def cancel_cause_def)
  have d: "main_step ?e ?d"
    by (rule start_done) (simp_all add: demo_defs)
  have w: "main_step ?d ?w"
    by (rule started) (simp add: demo_defs)
  have y: "main_step ?w ?y"
    by (rule waited) (simp_all add: demo_defs runner_Wait_def)
  have reach: "reach rt_new rt_step ?y"
    by (rule s [THEN reach_step, OF by_context [OF p], THEN reach_step, OF by_context [OF m],
        THEN reach_step, OF by_main [OF e], THEN reach_step, OF by_main [OF d],
        THEN reach_step, OF by_main [OF w], THEN reach_step, OF by_main [OF y]])
  have "\<exists>c. container_Run (sy_next ?y) ''late'' (Some 3) (ct ?y 0, rt_runner (sy_rt ?y)) =
      Ret (Launched c)"
    by (simp add: demo_defs container_Run_def)
  then obtain c where c: "container_Run (sy_next ?y) ''late'' (Some 3) (ct ?y 0, rt_runner (sy_rt ?y)) =
      Ret (Launched c)" ..
  have "sy_main ?y = MainCancelTasks None"
    by (simp add: main_at_def)
  with reach c show ?thesis
    by (intro exI [of _ ?y] exI [of _ c] conjI)
qed

end
