(* ===== verification/Gx_Runtime_Return.thy ===== *)
theory Gx_Runtime_Return imports Gx_Runtime_Tasks Gx_Runtime_Hooks Gx_Runtime_Demo begin

text \<open>
  \<open>Run\<close> can return. From every reachable state of a run there is a way on to the return of
  \<open>Run\<close> made of steps of the caller of \<open>Run\<close>, of the shutdown and of the tasks: hooks and
  tasks return, and nothing the runtime waits for is missing. No context has to end from
  outside, no deadline to pass and nobody to call a method.
\<close>

section \<open>Steps of the runtime alone\<close>

inductive own_step :: "('h, 't, 'v) rt_sys \<Rightarrow> ('h, 't, 'v) rt_sys \<Rightarrow> bool" where
  own_main: "main_step y z \<Longrightarrow> own_step y z"
| own_shutdown: "shutdown_step y z \<Longrightarrow> own_step y z"
| own_task: "task_step y z \<Longrightarrow> own_step y z"

abbreviation own_steps :: "('h, 't, 'v) rt_sys \<Rightarrow> ('h, 't, 'v) rt_sys \<Rightarrow> bool" where
  "own_steps \<equiv> own_step\<^sup>*\<^sup>*"

lemma own_rt: "own_step y z \<Longrightarrow> rt_step y z"
  by (induction rule: own_step.induct) (auto intro: rt_step.intros)

lemma own_reach: "own_steps y z \<Longrightarrow> reach rt_new rt_step y \<Longrightarrow> reach rt_new rt_step z"
  by (induction rule: rtranclp_induct) (auto intro: reach_step own_rt)

lemma own_steps1: "own_step y z \<Longrightarrow> own_steps y z"
  by (rule r_into_rtranclp)

lemma own_steps_Cons: "own_step x y \<Longrightarrow> own_steps y z \<Longrightarrow> own_steps x z"
  by (rule converse_rtranclp_into_rtranclp)

text \<open>They leave the parent context as it is.\<close>

lemma own_parent: "own_step y z \<Longrightarrow> sy_main y \<noteq> MainSetup \<Longrightarrow> sy_parent z = sy_parent y \<and> sy_main z \<noteq> MainSetup"
  by (elim own_step.cases main_step.cases shutdown_step.cases task_step.cases)
    (auto simp: rt_put_defs split: option.splits)

lemma own_steps_parent:
  assumes "own_steps y z" and "sy_main y \<noteq> MainSetup"
  shows "sy_parent z = sy_parent y"
proof -
  have "sy_parent z = sy_parent y \<and> sy_main z \<noteq> MainSetup"
    using assms by (induction rule: rtranclp_induct) (auto dest: own_parent)
  then show ?thesis ..
qed

text \<open>Once \<open>Run\<close> has cancelled the tasks their context has ended.\<close>

definition over_inv :: "('h, 't, 'v) rt_sys \<Rightarrow> bool" where
  "over_inv y \<longleftrightarrow> (\<forall>err. sy_main y = MainShutdown err \<longrightarrow> \<not> live y)"

lemma rt_step_over:
  assumes "over_inv y" and "rt_step y z"
  shows "over_inv z"
  using assms(2)
proof cases
  case by_main
  then show ?thesis
    using assms(1)
    by cases (auto simp: over_inv_def rt_put_defs cancel_cause_def split: option.splits)
next
  case by_shutdown
  then show ?thesis
    using assms(1) by cases (auto simp: over_inv_def rt_put_defs)
next
  case by_task
  then show ?thesis
    using assms(1) by cases (auto simp: over_inv_def rt_put_defs)
next
  case by_context
  then show ?thesis
    using assms(1) by cases (auto simp: over_inv_def rt_put_defs cancel_cause_def)
next
  case by_api
  then show ?thesis
    using assms(1)
    by cases (auto simp: over_inv_def rt_put_defs dest!: attach_cases create_cases global_set_cases)
qed

interpretation runtime_over: inductive_invariant rt_new rt_step over_inv
proof
  show "over_inv y" if "rt_new y" for y :: "('h, 't, 'v) rt_sys"
    using that by (simp add: rt_new_def rt_start_def over_inv_def)
qed (rule rt_step_over)

section \<open>Startup ends\<close>

lemma main_at_rest [simp]:
  "sy_main (main_at p y) = p" "sy_rt (main_at p y) = sy_rt y" "sy_sh (main_at p y) = sy_sh y"
  "sy_tasks (main_at p y) = sy_tasks y"
  by (simp_all add: main_at_def)

lemma put_ct_rt [simp]:
  "sy_main (put_ct i c y) = sy_main y" "rt_ctx (sy_rt (put_ct i c y)) = rt_ctx (sy_rt y)" "cts (put_ct i c y) = cts y"
  by (simp_all add: put_ct_def)

definition to_started :: "('h, 't, 'v) rt_sys \<Rightarrow> bool" where
  "to_started y \<longleftrightarrow> (\<exists>z. own_steps y z \<and> sy_main z = MainStarted)"

lemma to_started_step: "main_step y z \<Longrightarrow> to_started z \<Longrightarrow> to_started y"
  unfolding to_started_def by (blast intro: own_steps_Cons own_main)

subsection \<open>With an ended context\<close>

text \<open>Startup runs no more hooks and starts no more containers.\<close>

lemma to_started_at: "\<not> live y \<Longrightarrow> main_step y (main_at MainStarted y) \<Longrightarrow> to_started y"
  unfolding to_started_def
  by (intro exI [of _ "main_at MainStarted y"] conjI own_steps1 own_main) simp_all

lemma started_from_starting: "\<not> live y \<Longrightarrow> sy_main y = MainStarting \<Longrightarrow> to_started y"
  by (intro to_started_at starting_ctx)

lemma started_from_init:
  assumes "\<not> live y" and "sy_main y = MainInit i" and "i \<le> cts y"
  shows "to_started y"
proof (cases "i = cts y")
  case True
  show ?thesis
    by (rule to_started_step [OF init_done [OF assms(2) True]])
      (use assms(1) in \<open>simp add: started_from_starting del: not_None_eq\<close>)
next
  case False
  then show ?thesis
    using assms by (intro to_started_at init_ctx [OF assms(2)]) simp_all
qed

lemma started_from_start:
  assumes "\<not> live y" and "sy_main y = MainStart i" and "i \<le> cts y"
  shows "to_started y"
proof (cases "i = cts y")
  case True
  then show ?thesis
    using assms by (intro to_started_at start_done [OF assms(2)]) simp_all
next
  case False
  then show ?thesis
    using assms by (intro to_started_at start_ctx [OF assms(2)]) simp_all
qed

lemma started_in_init:
  assumes "\<not> live y" and "sy_main y = MainInitHooks i hs" and "i < cts y"
  shows "to_started y"
proof (cases hs)
  case Nil
  have "main_step y (main_at (MainInit (Suc i)) (put_ct i (container_init_end (rt_ctx (sy_rt y)) (ct y i)) y))"
    using assms(2) Nil by (intro init_ends) simp
  then show ?thesis
    by (rule to_started_step) (rule started_from_init [of _ "Suc i"], use assms(1,3) in \<open>simp_all del: not_None_eq\<close>)
next
  case (Cons h hs')
  have "main_step y (main_at (MainInit (Suc i)) y)"
    using assms(1,2) Cons by (intro init_hooks_ctx) simp_all
  then show ?thesis
    by (rule to_started_step) (rule started_from_init [of _ "Suc i"], use assms(1,3) in \<open>simp_all del: not_None_eq\<close>)
qed

lemma started_in_start:
  assumes "\<not> live y" and "sy_main y = MainStartHooks i hs" and "i < cts y"
  shows "to_started y"
proof (cases hs)
  case Nil
  let ?z = "main_at (MainStart (Suc i)) (launch i [] (put_runner (rt_runner (sy_rt y)) (put_ct i (ct y i) y)))"
  have "main_step y ?z"
    using assms(1,2) Nil by (intro start_ends) (simp_all add: container_start_end_def)
  then show ?thesis
    by (rule to_started_step) (rule started_from_start [of _ "Suc i"],
      use assms(1,3) in \<open>simp_all add: launch_def put_runner_def put_ct_def del: not_None_eq\<close>)
next
  case (Cons h hs')
  have "main_step y (main_at (MainStart (Suc i)) y)"
    using assms(1,2) Cons by (intro start_hooks_ctx) simp_all
  then show ?thesis
    by (rule to_started_step) (rule started_from_start [of _ "Suc i"], use assms(1,3) in \<open>simp_all del: not_None_eq\<close>)
qed

subsection \<open>With a live context\<close>

text \<open>Nothing ends the context, so every container is initialized and started in turn.\<close>

definition leads :: "('h, 't, 'v) rt_sys \<Rightarrow> 'h main_pc \<Rightarrow> bool" where
  "leads y p \<longleftrightarrow>
     (\<exists>z. own_steps y z \<and> rt_ctx (sy_rt z) = rt_ctx (sy_rt y) \<and> cts z = cts y \<and> sy_main z = p)"

lemma leads_now: "sy_main y = p \<Longrightarrow> leads y p"
  unfolding leads_def by blast

lemma leads_step:
  "main_step y x \<Longrightarrow> rt_ctx (sy_rt x) = rt_ctx (sy_rt y) \<Longrightarrow> cts x = cts y \<Longrightarrow> leads x p \<Longrightarrow> leads y p"
  unfolding leads_def by (metis own_steps_Cons own_main)

lemma leads_obtain:
  assumes "leads y p" and "reach rt_new rt_step y" and "live y"
  obtains z where "own_steps y z" "reach rt_new rt_step z" "live z" "cts z = cts y"
    "rt_ctx (sy_rt z) = rt_ctx (sy_rt y)" "sy_main z = p"
  using assms own_reach unfolding leads_def by metis

lemma leads_trans:
  assumes "own_steps y x" "rt_ctx (sy_rt x) = rt_ctx (sy_rt y)" "cts x = cts y" and "leads x p"
  shows "leads y p"
  using assms unfolding leads_def by (metis rtranclp_trans)

lemma leads_started: "leads y MainStarted \<Longrightarrow> to_started y"
  unfolding leads_def to_started_def by blast

lemma start_hooks_lead:
  "live y \<Longrightarrow> sy_main y = MainStartHooks i hs \<Longrightarrow> leads y (MainStart (Suc i))"
proof (induction hs arbitrary: y)
  case Nil
  obtain c r hs where e: "container_start_end (rt_ctx (sy_rt y)) (sy_next y) (ct y i, rt_runner (sy_rt y)) =
    ((c, r), hs)"
    by (metis surj_pair)
  show ?case
    by (rule leads_step [OF start_ends [OF Nil(2) e]])
      (simp_all add: leads_now launch_def put_runner_def put_ct_def)
next
  case (Cons h hs)
  let ?x = "main_at (MainStartCall i h hs) y"
  let ?z = "main_at (MainStartHooks i hs) (log_hook i PhStart (hk_name h) None ?x)"
  have "main_step ?x ?z"
    using start_hook [of ?x i h hs None] by (simp add: hook_error_def main_at_def log_hook_def)
  then have "leads ?x (MainStart (Suc i))"
    by (rule leads_step [OF _ _ _ Cons.IH]) (use Cons.prems in \<open>simp_all add: log_hook_def\<close>)
  then show ?case
    by (rule leads_step [OF start_calls [OF Cons.prems(2,1)], rotated 2]) simp_all
qed

lemma init_hooks_lead:
  "live y \<Longrightarrow> sy_main y = MainInitHooks i hs \<Longrightarrow> leads y (MainInit (Suc i))"
proof (induction hs arbitrary: y)
  case Nil
  show ?case
    by (rule leads_step [OF init_ends [OF Nil(2)]]) (simp_all add: leads_now)
next
  case (Cons h hs)
  let ?x = "main_at (MainInitCall i h hs) y"
  let ?z = "main_at (MainInitHooks i hs) (log_hook i PhInit (hk_name h) None ?x)"
  have "main_step ?x ?z"
    using init_hook [of ?x i h hs None] by (simp add: hook_error_def main_at_def log_hook_def)
  then have "leads ?x (MainInit (Suc i))"
    by (rule leads_step [OF _ _ _ Cons.IH]) (use Cons.prems in \<open>simp_all add: log_hook_def\<close>)
  then show ?case
    by (rule leads_step [OF init_calls [OF Cons.prems(2,1)], rotated 2]) simp_all
qed

lemma start_leads:
  "reach rt_new rt_step y \<Longrightarrow> live y \<Longrightarrow> sy_main y = MainStart i \<Longrightarrow> leads y MainStarted"
proof (induction "cts y - i" arbitrary: y i)
  case 0
  then have "i = cts y"
    using main_ok_of [OF runtime_control.reach_inv [OF 0(2)] 0(4)] by simp
  from start_done [OF 0(4) this] show ?case
    by (rule leads_step) (simp_all add: leads_now)
next
  case (Suc n)
  then have "i < cts y" "ct_state (ct y i) = ContainerInitialized"
    using main_ok_of [OF runtime_control.reach_inv [OF Suc(3)] Suc(5)] by (auto simp: all_at_def)
  then have step: "main_step y (main_at (MainStartHooks i (ct_startFns (ct y i)))
      (put_ct i ((ct y i)\<lparr>ct_state := ContainerStarting\<rparr>) y))" (is "main_step y ?x")
    by (intro start_begins [OF Suc(5) _ Suc(4)]) (simp_all add: container_start_begin_def)
  have x: "reach rt_new rt_step ?x" "live ?x"
    using reach_step [OF Suc(3) by_main [OF step]] Suc(4) by simp_all
  have "leads ?x (MainStart (Suc i))"
    by (rule start_hooks_lead [OF x(2)]) simp
  then obtain z where z: "own_steps ?x z" "reach rt_new rt_step z" "live z" "cts z = cts y"
    "rt_ctx (sy_rt z) = rt_ctx (sy_rt y)" "sy_main z = MainStart (Suc i)"
    using leads_obtain [OF _ x] by (metis main_at_rest(2) put_ct_rt(2,3))
  have "leads z MainStarted"
    by (rule Suc.hyps(1) [OF _ z(2,3,6)]) (use Suc.hyps(2) z(4) in simp)
  then show ?case
    by (rule leads_trans [OF own_steps_Cons [OF own_main [OF step] z(1)] z(5,4)])
qed

lemma starting_leads:
  assumes "reach rt_new rt_step y" and "live y" and "sy_main y = MainStarting"
  shows "leads y MainStarted"
proof -
  note step = starting [OF assms(3,2)]
  have "leads (main_at (MainStart 0) (y\<lparr>sy_rt := (sy_rt y)\<lparr>rt_state := RuntimeRunning\<rparr>\<rparr>)) MainStarted"
    by (rule start_leads [OF reach_step [OF assms(1) by_main [OF step]]]) (use assms(2) in simp_all)
  then show ?thesis
    by (rule leads_step [OF step, rotated 2]) simp_all
qed

lemma init_leads:
  "reach rt_new rt_step y \<Longrightarrow> live y \<Longrightarrow> sy_main y = MainInit i \<Longrightarrow> leads y MainStarted"
proof (induction "cts y - i" arbitrary: y i)
  case 0
  then have "i = cts y"
    using main_ok_of [OF runtime_control.reach_inv [OF 0(2)] 0(4)] by simp
  note step = init_done [OF 0(4) this]
  have "leads (main_at MainStarting y) MainStarted"
    by (rule starting_leads [OF reach_step [OF 0(2) by_main [OF step]]]) (use 0(3) in simp_all)
  then show ?case
    by (rule leads_step [OF step, rotated 2]) simp_all
next
  case (Suc n)
  then have "i < cts y" "ct_state (ct y i) = ContainerSetup"
    using main_ok_of [OF runtime_control.reach_inv [OF Suc(3)] Suc(5)] by (auto simp: all_at_def)
  then have step: "main_step y (main_at (MainInitHooks i (ct_initFns (ct y i)))
      (put_ct i ((ct y i)\<lparr>ct_state := ContainerInitializing\<rparr>) y))" (is "main_step y ?x")
    by (intro init_begins [OF Suc(5) _ Suc(4)]) (simp_all add: container_init_begin_def)
  have x: "reach rt_new rt_step ?x" "live ?x"
    using reach_step [OF Suc(3) by_main [OF step]] Suc(4) by simp_all
  have "leads ?x (MainInit (Suc i))"
    by (rule init_hooks_lead [OF x(2)]) simp
  then obtain z where z: "own_steps ?x z" "reach rt_new rt_step z" "live z" "cts z = cts y"
    "rt_ctx (sy_rt z) = rt_ctx (sy_rt y)" "sy_main z = MainInit (Suc i)"
    using leads_obtain [OF _ x] by (metis main_at_rest(2) put_ct_rt(2,3))
  have "leads z MainStarted"
    by (rule Suc.hyps(1) [OF _ z(2,3,6)]) (use Suc.hyps(2) z(4) in simp)
  then show ?case
    by (rule leads_trans [OF own_steps_Cons [OF own_main [OF step] z(1)] z(5,4)])
qed

lemma init_hooks_started:
  assumes "reach rt_new rt_step y" and "live y" and "sy_main y = MainInitHooks i hs"
  shows "to_started y"
proof -
  obtain z where z: "own_steps y z" "reach rt_new rt_step z" "live z" "cts z = cts y"
    "rt_ctx (sy_rt z) = rt_ctx (sy_rt y)" "sy_main z = MainInit (Suc i)"
    using leads_obtain [OF init_hooks_lead [OF assms(2,3)] assms(1,2)] by metis
  then show ?thesis
    by (intro leads_started leads_trans [OF z(1,5,4)] init_leads)
qed

lemma start_hooks_started:
  assumes "reach rt_new rt_step y" and "live y" and "sy_main y = MainStartHooks i hs"
  shows "to_started y"
proof -
  obtain z where z: "own_steps y z" "reach rt_new rt_step z" "live z" "cts z = cts y"
    "rt_ctx (sy_rt z) = rt_ctx (sy_rt y)" "sy_main z = MainStart (Suc i)"
    using leads_obtain [OF start_hooks_lead [OF assms(2,3)] assms(1,2)] by metis
  then show ?thesis
    by (intro leads_started leads_trans [OF z(1,5,4)] start_leads)
qed

subsection \<open>Whatever the context\<close>

lemma started_in_hooks:
  assumes "reach rt_new rt_step y" and "i < cts y"
  shows "sy_main y = MainInitHooks i hs \<Longrightarrow> to_started y"
    "sy_main y = MainStartHooks i hs \<Longrightarrow> to_started y"
  using assms started_in_init started_in_start init_hooks_started start_hooks_started by metis+

lemma started_from_cancel:
  assumes "reach rt_new rt_step y" and "sy_main y = MainCancel e"
  shows "to_started y"
proof -
  have "rn_cancel (rt_runner (sy_rt y))"
    using runtime_hooks.reach_inv [OF assms(1)] assms(2) by (simp add: hooks_inv_def err_inv_def)
  then obtain r where "runner_Cancel (Some e) (rt_runner (sy_rt y)) = Ret r"
    by (cases "rn_once (rt_runner (sy_rt y))") (simp_all add: runner_Cancel_def)
  from cancels [OF assms(2) this] show ?thesis
    by (rule to_started_step) (auto simp: to_started_def report_error_def put_runner_def intro!: exI)
qed

lemma startup_can_end:
  assumes "reach rt_new rt_step y" and "early (sy_main y)" and "sy_main y \<noteq> MainSetup"
  shows "to_started y"
proof -
  note ok = main_ok_of [OF runtime_control.reach_inv [OF assms(1)]]
  have after: "reach rt_new rt_step z" if "main_step y z" for z
    by (rule reach_step [OF assms(1) by_main [OF that]])
  show ?thesis
  proof (cases "sy_main y")
    case (MainInit i)
    then have "i \<le> cts y"
      using ok [OF MainInit] by simp
    then show ?thesis
      using MainInit assms(1) started_from_init init_leads leads_started by metis
  next
    case (MainInitHooks i hs)
    then show ?thesis using ok [OF MainInitHooks] by (intro started_in_hooks(1) [OF assms(1)]) simp_all
  next
    case (MainInitCall i h hs)
    note step = init_hook [OF MainInitCall, of None]
    show ?thesis
      by (rule to_started_step [OF step], rule started_in_hooks(1) [OF after [OF step], of i hs])
        (use ok [OF MainInitCall] in \<open>simp_all add: hook_error_def log_hook_def\<close>)
  next
    case MainStarting
    then show ?thesis
      using assms(1) started_from_starting starting_leads leads_started by metis
  next
    case (MainStart i)
    then have "i \<le> cts y"
      using ok [OF MainStart] by simp
    then show ?thesis
      using MainStart assms(1) started_from_start start_leads leads_started by metis
  next
    case (MainStartHooks i hs)
    then show ?thesis using ok [OF MainStartHooks] by (intro started_in_hooks(2) [OF assms(1)]) simp_all
  next
    case (MainStartCall i h hs)
    note step = start_hook [OF MainStartCall, of None]
    show ?thesis
      by (rule to_started_step [OF step], rule started_in_hooks(2) [OF after [OF step], of i hs])
        (use ok [OF MainStartCall] in \<open>simp_all add: hook_error_def log_hook_def\<close>)
  next
    case (MainFail e)
    show ?thesis
    proof (cases "live y")
      case True
      note step = fail_live [OF MainFail True]
      show ?thesis
        by (rule to_started_step [OF step], rule started_from_cancel [OF after [OF step]]) simp
    next
      case False
      then show ?thesis using MainFail by (intro to_started_at fail_ctx)
    qed
  next
    case (MainCancel e)
    then show ?thesis by (rule started_from_cancel [OF assms(1)])
  next
    case MainStarted
    then show ?thesis by (auto simp: to_started_def)
  qed (use assms in simp_all)
qed

section \<open>Tasks end\<close>

fun task_left :: "task_pc \<Rightarrow> nat" where
  "task_left TaskBody = 4"
| "task_left (TaskStop e) = 3"
| "task_left (TaskDone e) = 2"
| "task_left (TaskReport e) = 1"

definition tasks_left :: "('h, 't, 'v) rt_sys \<Rightarrow> nat" where
  "tasks_left y = sum_list (map (\<lambda>t. task_left (tk_pc t)) (sy_tasks y))"

definition waiting :: "('h, 't, 'v) rt_sys \<Rightarrow> ('h, 't, 'v) rt_sys \<Rightarrow> bool" where
  "waiting y z \<longleftrightarrow> sy_main z = sy_main y \<and> sy_sh z = sy_sh y \<and> rt_ctx (sy_rt z) = rt_ctx (sy_rt y)"

lemma task_can_go_on:
  assumes "sy_tasks y \<noteq> []"
  shows "\<exists>z. task_step y z \<and> waiting y z \<and> tasks_left z < tasks_left y"
proof -
  obtain t ts where ts: "sy_tasks y = t # ts"
    using assms by (cases "sy_tasks y") auto
  then have at: "task_at 0 t y"
    by (simp add: task_at_def)
  show ?thesis
  proof (cases "tk_pc t")
    case TaskBody
    show ?thesis
      by (rule exI, rule conjI, rule task_returns [OF at TaskBody, of None])
        (simp add: waiting_def set_task_def tasks_left_def ts TaskBody)
  next
    case (TaskStop e)
    show ?thesis
      by (rule exI, rule conjI, rule task_stops [OF at TaskStop])
        (simp add: waiting_def set_task_def put_ct_def tasks_left_def ts TaskStop)
  next
    case (TaskDone e)
    show ?thesis
      by (rule exI, rule conjI, rule task_done [OF at TaskDone])
        (simp add: waiting_def set_task_def put_ct_def tasks_left_def ts TaskDone)
  next
    case (TaskReport e)
    show ?thesis
      by (rule exI, rule conjI, rule task_reports [OF at TaskReport])
        (simp add: waiting_def report_error_def put_runner_def tasks_left_def ts TaskReport)
  qed
qed

lemma tasks_can_end: "\<exists>z. own_steps y z \<and> waiting y z \<and> sy_tasks z = []"
proof (induction "tasks_left y" arbitrary: y rule: less_induct)
  case less
  show ?case
  proof (cases "sy_tasks y = []")
    case True
    then show ?thesis by (auto simp: waiting_def)
  next
    case False
    then obtain x where x: "task_step y x" "waiting y x" "tasks_left x < tasks_left y"
      using task_can_go_on by blast
    obtain z where "own_steps x z" "waiting x z" "sy_tasks z = []"
      using less [OF x(3)] by blast
    then show ?thesis
      using x(1,2) by (auto simp: waiting_def intro: own_steps_Cons own_task)
  qed
qed

section \<open>Shutdown ends\<close>

definition at_rest :: "('h, 't, 'v) rt_sys \<Rightarrow> ('h, 't, 'v) rt_sys \<Rightarrow> bool" where
  "at_rest y z \<longleftrightarrow> sy_main z = sy_main y \<and> sy_tasks z = sy_tasks y \<and> rt_ctx (sy_rt z) = rt_ctx (sy_rt y) \<and> cts z = cts y"

lemma at_rest_refl [simp]: "at_rest y y"
  by (simp add: at_rest_def)

lemma at_rest_trans: "at_rest x y \<Longrightarrow> at_rest y z \<Longrightarrow> at_rest x z"
  by (simp add: at_rest_def)

definition sh_can :: "('h, 't, 'v) rt_sys \<Rightarrow> ('h sh_pc \<Rightarrow> bool) \<Rightarrow> bool" where
  "sh_can y P \<longleftrightarrow> (\<exists>z. own_steps y z \<and> at_rest y z \<and> P (sy_sh z))"

lemma sh_can_step: "shutdown_step y z \<Longrightarrow> at_rest y z \<Longrightarrow> sh_can z P \<Longrightarrow> sh_can y P"
  unfolding sh_can_def by (blast intro: own_steps_Cons own_shutdown at_rest_trans)

lemma sh_can_now: "P (sy_sh y) \<Longrightarrow> sh_can y P"
  unfolding sh_can_def by (intro exI [of _ y]) simp

lemma stop_hooks_end: "sy_sh y = ShStop i hs e \<Longrightarrow> sh_can y (\<lambda>p. p = ShNext i)"
proof (induction hs arbitrary: y e)
  case Nil
  show ?case
    by (rule sh_can_step [OF sh_ends [OF Nil]])
      (auto simp: at_rest_def sh_at_def put_ct_def intro: sh_can_now)
next
  case (Cons h hs)
  let ?z = "sh_at (ShStop i hs (keep_first e (hook_error (ct y i) h None)))
         (log_hook i PhStop (hk_name h) (hook_error (ct y i) h None) y)"
  have "sh_can ?z (\<lambda>p. p = ShNext i)"
    by (rule Cons.IH) (simp add: sh_at_def)
  then show ?case
    by (rule sh_can_step [OF sh_stop_hook [OF Cons.prems], rotated])
      (simp add: at_rest_def sh_at_def log_hook_def)
qed

lemma idle_wait_group:
  assumes "reach rt_new rt_step y" and "sy_tasks y = []" and "i < cts y"
  shows "ct_wg (ct y i) = 0"
  using runtime_tasks.reach_inv [OF assms(1)] assms(2,3) by (simp add: tasks_inv_def task_inv_def)

lemma stopping_hooks_end:
  "reach rt_new rt_step y \<Longrightarrow> sy_tasks y = [] \<Longrightarrow> sy_sh y = ShStopping i hs stops e \<Longrightarrow> sh_can y (\<lambda>p. p = ShNext i)"
proof (induction hs arbitrary: y e)
  case Nil
  have "i < cts y"
    using sh_ok_of [OF runtime_control.reach_inv [OF Nil(1)] Nil(3)] by simp
  then have wg: "ct_wg (ct y i) = 0"
    by (rule idle_wait_group [OF Nil(1,2)])
  show ?case
    by (rule sh_can_step [OF sh_waits [OF Nil(3) wg]])
      (auto simp: at_rest_def sh_at_def intro: stop_hooks_end)
next
  case (Cons h hs)
  let ?z = "sh_at (ShStopping i hs stops (keep_first e (hook_error (ct y i) h None)))
         (log_hook i PhStopping (hk_name h) (hook_error (ct y i) h None) y)"
  have step: "shutdown_step y ?z"
    by (rule sh_stopping_hook [OF Cons.prems(3)])
  have "sh_can ?z (\<lambda>p. p = ShNext i)"
    by (rule Cons.IH [OF reach_step [OF Cons.prems(1) by_shutdown [OF step]]])
      (simp_all add: sh_at_def log_hook_def Cons.prems(2))
  then show ?case
    by (rule sh_can_step [OF step, rotated]) (simp add: at_rest_def sh_at_def log_hook_def)
qed

lemma sh_can_trans:
  fixes y :: "('h, 't, 'v) rt_sys"
  assumes "reach rt_new rt_step y" and "sy_tasks y = []" and "sh_can y P"
    and "\<And>z :: ('h, 't, 'v) rt_sys. reach rt_new rt_step z \<Longrightarrow> sy_tasks z = [] \<Longrightarrow> P (sy_sh z) \<Longrightarrow> sh_can z Q"
  shows "sh_can y Q"
proof -
  obtain x where x: "own_steps y x" "at_rest y x" "P (sy_sh x)"
    using assms(3) by (auto simp: sh_can_def)
  then have "sh_can x Q"
    using own_reach [OF x(1) assms(1)] assms(2) by (intro assms(4)) (simp_all add: at_rest_def)
  then obtain z where "own_steps x z" "at_rest x z" "Q (sy_sh z)"
    by (auto simp: sh_can_def)
  then show ?thesis
    using x unfolding sh_can_def by (blast intro: rtranclp_trans at_rest_trans)
qed

lemma containers_end:
  "reach rt_new rt_step y \<Longrightarrow> sy_tasks y = [] \<Longrightarrow> sy_sh y = ShNext k \<Longrightarrow> sh_can y (\<lambda>p. p = ShDone)"
proof (induction k arbitrary: y)
  case 0
  show ?case
    by (rule sh_can_step [OF sh_done [OF 0(3)]]) (auto simp: at_rest_def sh_at_def intro: sh_can_now)
next
  case (Suc i)
  have next_i: "sh_can y (\<lambda>p. p = ShNext i)"
  proof (cases "container_shutdown_begin (ct y i)")
    case None
    show ?thesis
      by (rule sh_can_step [OF sh_skips [OF Suc.prems(3) None]]) (auto simp: at_rest_def sh_at_def intro: sh_can_now)
  next
    case (Some r)
    obtain c stopping stops where r: "r = (c, stopping, stops)" by (cases r)
    let ?z = "sh_at (ShStopping i (rev stopping) (rev stops) None) (put_ct i c y)"
    have step: "shutdown_step y ?z"
      using Some r by (intro sh_stops [OF Suc.prems(3)]) simp
    have "sh_can ?z (\<lambda>p. p = ShNext i)"
      by (rule stopping_hooks_end [OF reach_step [OF Suc.prems(1) by_shutdown [OF step]]])
        (simp_all add: sh_at_def put_ct_def Suc.prems(2))
    then show ?thesis
      by (rule sh_can_step [OF step, rotated]) (simp add: at_rest_def sh_at_def put_ct_def)
  qed
  show ?case
    by (rule sh_can_trans [OF Suc.prems(1,2) next_i]) (rule Suc.IH)
qed

lemma shutdown_can_end:
  assumes "reach rt_new rt_step y" and "sy_tasks y = []" and "\<not> live y" and "\<not> early (sy_main y)"
  shows "sh_can y (\<lambda>p. p = ShDone)"
proof (cases "sy_sh y")
  case ShIdle
  have "rt_startupDone (sy_rt y)"
    using runtime_control.reach_inv [OF assms(1)] assms(4) by (simp add: ctl_inv_def)
  then have step: "shutdown_step y (sh_at (ShNext (cts y)) y)"
    using ShIdle assms(3,4) by (intro sh_begins) auto
  have "sh_can (sh_at (ShNext (cts y)) y) (\<lambda>p. p = ShDone)"
    by (rule containers_end [OF reach_step [OF assms(1) by_shutdown [OF step]]])
      (simp_all add: sh_at_def assms(2))
  then show ?thesis
    by (rule sh_can_step [OF step, rotated]) (simp add: at_rest_def sh_at_def)
next
  case (ShNext k)
  then show ?thesis by (rule containers_end [OF assms(1,2)])
next
  case (ShStopping i hs stops e)
  show ?thesis
    by (rule sh_can_trans [OF assms(1,2) stopping_hooks_end [OF assms(1,2) ShStopping]]) (rule containers_end)
next
  case (ShStop i hs e)
  show ?thesis
    by (rule sh_can_trans [OF assms(1,2) stop_hooks_end [OF ShStop]]) (rule containers_end)
next
  case ShDone
  then show ?thesis by (rule sh_can_now)
qed

section \<open>Run returns\<close>

definition can_return :: "('h, 't, 'v) rt_sys \<Rightarrow> bool" where
  "can_return y \<longleftrightarrow> (\<exists>z res. own_steps y z \<and> sy_main z = MainReturned res)"

lemma can_return_steps: "own_steps y z \<Longrightarrow> can_return z \<Longrightarrow> can_return y"
  unfolding can_return_def by (blast intro: rtranclp_trans)

lemma can_return_step: "main_step y z \<Longrightarrow> can_return z \<Longrightarrow> can_return y"
  by (rule can_return_steps [OF own_steps1 [OF own_main]])

lemma returns_from_shutdown:
  assumes "reach rt_new rt_step y" and "sy_tasks y = []" and "\<not> live y" and "sy_main y = MainShutdown err"
  shows "can_return y"
proof -
  obtain z where z: "own_steps y z" "at_rest y z" "sy_sh z = ShDone"
    using shutdown_can_end [OF assms(1-3)] assms(4) by (auto simp: sh_can_def)
  have "main_step z (main_at (MainReturned (if err \<noteq> None then err else rt_stopErr (sy_rt z)))
         (z\<lparr>sy_rt := (sy_rt z)\<lparr>rt_state := RuntimeStopped\<rparr>\<rparr>))"
    using z assms(4) by (intro main_returns) (simp_all add: at_rest_def)
  then have "can_return z"
    unfolding can_return_def by (intro exI conjI own_steps1 own_main) (assumption, rule main_at_rest(1))
  then show ?thesis by (rule can_return_steps [OF z(1)])
qed

lemma returns_from_cancel:
  assumes "reach rt_new rt_step y" and "sy_tasks y = []" and "sy_main y = MainCancelTasks err"
  shows "can_return y"
proof -
  let ?z = "main_at (MainShutdown err) (put_ctx (cancel_cause None (rt_ctx (sy_rt y))) y)"
  have step: "main_step y ?z"
    by (rule cancels_tasks [OF assms(3)])
  have "can_return ?z"
    by (rule returns_from_shutdown [OF reach_step [OF assms(1) by_main [OF step]]])
      (simp_all add: put_ctx_def assms(2) cancel_cause_done del: not_None_eq)
  then show ?thesis by (rule can_return_step [OF step])
qed

lemma returns_from_wait:
  assumes "reach rt_new rt_step y" and "sy_tasks y = []" and "sy_main y = MainWait"
  shows "can_return y"
proof -
  have "rn_wg (rt_runner (sy_rt y)) = []"
    using runtime_tasks.reach_inv [OF assms(1)] assms(2) by (simp add: tasks_inv_def task_inv_def)
  then obtain r err where wait: "runner_Wait (rt_runner (sy_rt y)) = Some (r, err)"
    by (simp add: runner_Wait_def)
  have step: "main_step y (main_at (MainCancelTasks err) (put_runner r y))"
    by (rule waited [OF assms(3) wait])
  have "can_return (main_at (MainCancelTasks err) (put_runner r y))"
    by (rule returns_from_cancel [OF reach_step [OF assms(1) by_main [OF step]]])
      (simp_all add: put_runner_def assms(2))
  then show ?thesis by (rule can_return_step [OF step])
qed

lemma returns_late:
  assumes "reach rt_new rt_step y" and "\<not> early (sy_main y)"
  shows "can_return y"
proof -
  obtain z where z: "own_steps y z" "waiting y z" "sy_tasks z = []"
    using tasks_can_end by blast
  have rz: "reach rt_new rt_step z" and main: "sy_main z = sy_main y"
    using own_reach [OF z(1) assms(1)] z(2) by (simp_all add: waiting_def)
  have "can_return z"
  proof (cases "sy_main z")
    case MainWait
    then show ?thesis by (rule returns_from_wait [OF rz z(3)])
  next
    case (MainCancelTasks err)
    then show ?thesis by (rule returns_from_cancel [OF rz z(3)])
  next
    case (MainShutdown err)
    then have "\<not> live z"
      using runtime_over.reach_inv [OF rz] by (simp add: over_inv_def)
    then show ?thesis using MainShutdown by (rule returns_from_shutdown [OF rz z(3)])
  next
    case (MainReturned res)
    then show ?thesis unfolding can_return_def by blast
  qed (use assms(2) main in simp_all)
  then show ?thesis by (rule can_return_steps [OF z(1)])
qed

lemma returns_begun:
  assumes "reach rt_new rt_step y" and "sy_main y \<noteq> MainSetup"
  shows "can_return y"
proof (cases "early (sy_main y)")
  case False
  then show ?thesis by (rule returns_late [OF assms(1)])
next
  case True
  then obtain x where x: "own_steps y x" "sy_main x = MainStarted"
    using startup_can_end [OF assms(1) _ assms(2)] by (auto simp: to_started_def)
  let ?z = "main_at MainWait (x\<lparr>sy_rt := (sy_rt x)\<lparr>rt_startupDone := True\<rparr>\<rparr>)"
  have step: "main_step x ?z"
    by (rule started [OF x(2)])
  have "can_return ?z"
    by (rule returns_late [OF reach_step [OF own_reach [OF x(1) assms(1)] by_main [OF step]]]) simp
  then show ?thesis
    by (rule can_return_steps [OF x(1) can_return_step [OF step]])
qed

text \<open>
  C12: \<open>Run\<close> is never stuck. From every reachable state after \<open>Run\<close> has begun, whatever
  hooks, tasks, callers and contexts have done so far, there is a way on to the return of
  \<open>Run\<close> that consists of its own steps, of those of the shutdown and of those of the tasks:
  the remaining hooks and the tasks return, and then the wait groups, the runner and the
  shutdown let \<open>Run\<close> go. The parent context does not have to end, no deadline or signal has
  to come and nobody has to call anything; a context that has ended already is no obstacle.
\<close>

theorem runtime_can_return:
  assumes "reach rt_new rt_step y" and "sy_main y \<noteq> MainSetup"
  shows "\<exists>z res. own_step\<^sup>*\<^sup>* y z \<and> reach rt_new rt_step z \<and> sy_main z = MainReturned res \<and>
    sy_parent z = sy_parent y"
proof -
  obtain z res where z: "own_steps y z" "sy_main z = MainReturned res"
    using returns_begun [OF assms] by (auto simp: can_return_def)
  then have "sy_parent z = sy_parent y"
    using own_steps_parent [OF z(1) assms(2)] by simp
  then show ?thesis
    using z own_reach [OF z(1) assms(1)] by blast
qed

lemma runtime_can_return_witness:
  "\<exists>z :: demo_sys. \<exists>res. reach rt_new rt_step z \<and> sy_main z = MainReturned res \<and>
     ctx_err (sy_parent z) = None"
proof -
  let ?y = "demo_live MainWait (demo_ct ContainerRunning False [''w''] 1) (Some TaskBody)"
  have "sy_main ?y \<noteq> MainSetup" "ctx_err (sy_parent ?y) = None"
    by (simp_all add: demo_defs)
  with runtime_can_return [OF demo_running_reach this(1)] show ?thesis by metis
qed

end
