(* ===== verification/Gx_Runtime_States.thy ===== *)
theory Gx_Runtime_States imports Gx_Runtime_Demo begin

text \<open>
  The states of a container in the order of their constants, and that no step of a run takes
  a container back to an earlier one.
\<close>

section \<open>The order of the states\<close>

fun ct_rank :: "ct_state \<Rightarrow> nat" where
  "ct_rank ContainerSetup = 0"
| "ct_rank ContainerInitializing = 1"
| "ct_rank ContainerInitialized = 2"
| "ct_rank ContainerStarting = 3"
| "ct_rank ContainerRunning = 4"
| "ct_rank ContainerStopping = 5"
| "ct_rank ContainerStopped = 6"

lemma ct_rank_inj: "ct_rank s = ct_rank t \<longleftrightarrow> s = t"
  by (cases s; cases t) simp_all

instantiation ct_state :: linorder
begin

definition less_eq_ct_state :: "ct_state \<Rightarrow> ct_state \<Rightarrow> bool" where
  "less_eq_ct_state s t \<longleftrightarrow> ct_rank s \<le> ct_rank t"

definition less_ct_state :: "ct_state \<Rightarrow> ct_state \<Rightarrow> bool" where
  "less_ct_state s t \<longleftrightarrow> ct_rank s < ct_rank t"

instance
  by standard (auto simp: less_eq_ct_state_def less_ct_state_def ct_rank_inj)

end

lemma ct_state_le: "s \<le> t \<longleftrightarrow> ct_rank s \<le> ct_rank t"
  by (rule less_eq_ct_state_def)

lemma ct_state_bounds [simp]: "ContainerSetup \<le> s" "s \<le> ContainerStopped"
  by (cases s; simp add: ct_state_le)+

section \<open>No way back\<close>

definition advances :: "('h, 't, 'v) rt_sys \<Rightarrow> ('h, 't, 'v) rt_sys \<Rightarrow> bool" where
  "advances y z \<longleftrightarrow> cts y \<le> cts z \<and> (\<forall>i < cts y. ct_state (ct y i) \<le> ct_state (ct z i))"

lemma advances_refl [simp]: "advances y y"
  by (simp add: advances_def)

lemma advances_trans: "advances x y \<Longrightarrow> advances y z \<Longrightarrow> advances x z"
  unfolding advances_def by (meson less_le_trans order_trans)

lemma advances_same: "rt_containers (sy_rt z) = rt_containers (sy_rt y) \<Longrightarrow> advances y z"
  by (simp add: advances_def)

lemma advances_put:
  "rt_containers (sy_rt z) = (rt_containers (sy_rt y))[i := c] \<Longrightarrow> ct_state (ct y i) \<le> ct_state c \<Longrightarrow> advances y z"
  by (auto simp: advances_def nth_upd)

lemma begin_states:
  "container_init_begin c = Ret (c', hs) \<Longrightarrow> ct_state c = ContainerSetup \<and> ct_state c' = ContainerInitializing"
  "container_start_begin c = Ret (c', hs) \<Longrightarrow> ct_state c = ContainerInitialized \<and> ct_state c' = ContainerStarting"
  "container_shutdown_begin c = Some (c', ss, ts) \<Longrightarrow> ct_state c \<noteq> ContainerStopped \<and> ct_state c' = ContainerStopping"
  by (auto simp: container_init_begin_def container_start_begin_def container_shutdown_begin_def split: if_splits)

lemma containers_frame [simp]:
  "rt_containers (sy_rt (main_at p y)) = rt_containers (sy_rt y)" "rt_containers (sy_rt (sh_at q y)) = rt_containers (sy_rt y)"
  "rt_containers (sy_rt (put_runner r y)) = rt_containers (sy_rt y)" "rt_containers (sy_rt (put_ctx x y)) = rt_containers (sy_rt y)"
  "rt_containers (sy_rt (log_hook i ph n e y)) = rt_containers (sy_rt y)"
  "rt_containers (sy_rt (report_error e y)) = rt_containers (sy_rt y)" "rt_containers (sy_rt (launch i hs y)) = rt_containers (sy_rt y)"
  "rt_containers (sy_rt (set_task k tp y)) = rt_containers (sy_rt y)"
  "rt_containers (sy_rt (put_ct i c y)) = (rt_containers (sy_rt y))[i := c]"
  by (simp_all add: rt_put_defs)

lemma main_step_advances:
  assumes "main_step y z" and inv: "ctl_inv y"
  shows "advances y z"
  using assms(1)
proof cases
  case (init_begins i c hs)
  then show ?thesis using begin_states(1) [of "ct y i" c hs] by (intro advances_put [of _ _ i c]) (simp_all add: ct_state_le)
next
  case (init_ends i)
  have "ct_state (ct y i) = ContainerInitializing"
    using main_ok_of [OF inv init_ends(2)] by auto
  then show ?thesis using init_ends
    by (intro advances_put [of _ _ i "container_init_end (rt_ctx (sy_rt y)) (ct y i)"])
      (simp_all add: ct_state_le container_init_end_def)
next
  case (start_begins i c hs)
  then show ?thesis using begin_states(2) [of "ct y i" c hs] by (intro advances_put [of _ _ i c]) (simp_all add: ct_state_le)
next
  case (start_ends i c r hs)
  have "ct_state (ct y i) = ContainerStarting"
    using main_ok_of [OF inv start_ends(2)] by auto
  moreover have "ct_state c \<in> {ct_state (ct y i), ContainerRunning}"
    using start_ends(3) by (auto simp: container_start_end_def Let_def split: if_splits prod.splits)
  ultimately show ?thesis using start_ends
    by (intro advances_put [of _ _ i c]) (auto simp: ct_state_le)
qed (auto intro: advances_same simp: runtime_Run_begin_def split: option.splits if_splits)

lemma shutdown_step_advances:
  assumes "shutdown_step y z"
  shows "advances y z"
  using assms
proof cases
  case (sh_stops i c stopping stops)
  then show ?thesis using begin_states(3) [of "ct y i" c stopping stops]
    by (intro advances_put [of _ _ i c]) (cases "ct_state (ct y i)"; simp add: ct_state_le)+
next
  case (sh_ends i e)
  then show ?thesis
    by (intro advances_put [of _ _ i "container_shutdown_end (ct y i)"]) (simp_all add: container_shutdown_end_def)
qed (auto intro: advances_same)

lemma task_step_advances:
  assumes "task_step y z"
  shows "advances y z"
  using assms
proof cases
  case (task_stops k t err)
  then show ?thesis
    by (intro advances_put [of _ _ "tk_ct t" "container_stopTask (tk_name t) (ct y (tk_ct t))"])
      (simp_all add: container_stopTask_def)
next
  case (task_done k t err)
  then show ?thesis
    by (intro advances_put [of _ _ "tk_ct t" "(ct y (tk_ct t))\<lparr>ct_wg := ct_wg (ct y (tk_ct t)) - 1\<rparr>"]) simp_all
qed (auto intro: advances_same)

lemma api_step_advances:
  assumes "api_step y z"
  shows "advances y z"
  using assms
proof cases
  case (attaches name r)
  then show ?thesis by (auto dest!: attach_cases simp: advances_def nth_append)
next
  case (creates name f r)
  then show ?thesis by (auto dest!: create_cases simp: advances_def nth_append)
next
  case (sets_global t v r)
  then show ?thesis by (auto dest!: global_set_cases intro: advances_same)
next
  case (registers i name f c t v)
  then show ?thesis by (intro advances_put [of _ _ i c]) (auto dest: container_api_state)
next
  case (registers_task i name f c)
  then show ?thesis by (intro advances_put [of _ _ i c]) (auto dest: container_api_state)
next
  case (launches_task i name f c r)
  then show ?thesis by (intro advances_put [of _ _ i c]) (auto dest: container_api_state)
qed

lemma rt_step_advances: "ctl_inv y \<Longrightarrow> rt_step y z \<Longrightarrow> advances y z"
  by (auto elim!: rt_step.cases context_step.cases
      intro: main_step_advances shutdown_step_advances task_step_advances api_step_advances advances_same)

text \<open>
  C24: Along every run no container goes back to an earlier state and none is removed, whatever
  hooks, tasks, callers and contexts do.
\<close>

theorem containers_only_advance:
  assumes "reach rt_new rt_step y" and "rt_step\<^sup>*\<^sup>* y z" and "i < cts y"
  shows "i < cts z \<and> ct_state (ct y i) \<le> ct_state (ct z i)"
proof -
  have "advances y z \<and> reach rt_new rt_step z"
    using assms(2)
  proof (induction rule: rtranclp_induct)
    case (step x z)
    have "advances x z"
      by (rule rt_step_advances [OF runtime_control.reach_inv]) (use step in auto)
    then show ?case using step by (auto intro: advances_trans reach_step)
  qed (simp add: assms(1))
  then show ?thesis using assms(3) by (auto simp: advances_def)
qed

lemma containers_only_advance_witness:
  "\<exists>y z :: demo_sys. ct_state (ct y 0) = ContainerSetup \<and> ct_state (ct z 0) = ContainerInitializing \<and>
     rt_step\<^sup>*\<^sup>* y z \<and> 0 < cts z \<and> ct_state (ct y 0) \<le> ct_state (ct z 0)"
proof -
  let ?z = "demo_live (MainInitHooks 0 []) (demo_ct ContainerInitializing True [] 0) None"
  have run: "rt_step\<^sup>*\<^sup>* demo_setup ?z"
    using by_main [OF demo_init(1)] by_main [OF demo_init(2)] by (meson rtranclp.simps)
  have facts: "0 < cts demo_setup" "ct_state (ct demo_setup 0) = ContainerSetup"
    "ct_state (ct ?z 0) = ContainerInitializing"
    by (simp_all add: demo_defs)
  show ?thesis
    using containers_only_advance [OF demo_setup_reach run facts(1)] run facts(2,3) by blast
qed

end
