(* ===== verification/Gx_Runtime_Watch.thy ===== *)
theory Gx_Runtime_Watch imports Gx_Runtime_Data begin

text \<open>
  The watchdog of the shutdown, \<open>Runtime.watchShutdown\<close>: it only reads the runtime, so it is
  a step relation of its own, beside a clock and a runtime that change as they like.
\<close>

section \<open>The goroutine\<close>

datatype watch_pc = WatchStart | WatchArm | WatchTimer | WatchLog | WatchTick | WatchReturned

text \<open>
  The clock, the time of the start, when the timer fires and the ticker next ticks, whether a
  tick waits in the ticker's channel (it holds one, further ticks are dropped), whether the
  channel \<open>done\<close> is closed, and the lines of each report.
\<close>

record watch =
  w_pc :: watch_pc
  w_now :: int
  w_started :: int
  w_timer :: int
  w_next :: int
  w_pending :: bool
  w_done :: bool
  w_log :: "(int \<times> int \<times> string \<times> string) list list"

definition new_watch :: "int \<Rightarrow> watch" where
  "new_watch now = \<lparr>w_pc = WatchStart, w_now = now, w_started = 0, w_timer = 0, w_next = 0,
     w_pending = False, w_done = False, w_log = []\<rparr>"

inductive watch_step :: "('h, 't, 'v) runtime \<Rightarrow> watch \<Rightarrow> watch \<Rightarrow> bool" for r where
  watch_clock: "0 \<le> d \<Longrightarrow> watch_step r w (w\<lparr>w_now := w_now w + d\<rparr>)"
| watch_close: "watch_step r w (w\<lparr>w_done := True\<rparr>)"
| watch_tick: "w_pc w \<in> {WatchLog, WatchTick} \<Longrightarrow> w_next w \<le> w_now w \<Longrightarrow>
     watch_step r w (w\<lparr>w_pending := True, w_next := w_next w + rt_shutdownTimeout r\<rparr>)"
| watch_begin: "w_pc w = WatchStart \<Longrightarrow> watch_step r w (w\<lparr>w_pc := WatchArm, w_started := w_now w\<rparr>)"
| watch_arm: "w_pc w = WatchArm \<Longrightarrow>
     watch_step r w (w\<lparr>w_pc := WatchTimer, w_timer := w_now w + rt_shutdownTimeout r\<rparr>)"
| watch_fire: "w_pc w = WatchTimer \<Longrightarrow> w_timer w \<le> w_now w \<Longrightarrow>
     watch_step r w (w\<lparr>w_pc := WatchLog, w_next := w_now w + rt_shutdownTimeout r, w_pending := False\<rparr>)"
| watch_report: "w_pc w = WatchLog \<Longrightarrow> logShutdownTimeout (w_now w - w_started w) r = (ls, again) \<Longrightarrow>
     watch_step r w (w\<lparr>w_pc := if again then WatchTick else WatchReturned, w_log := w_log w @ [ls]\<rparr>)"
| watch_receive: "w_pc w = WatchTick \<Longrightarrow> w_pending w \<Longrightarrow>
     watch_step r w (w\<lparr>w_pc := WatchLog, w_pending := False\<rparr>)"
| watch_return: "w_pc w \<in> {WatchTimer, WatchTick} \<Longrightarrow> w_done w \<Longrightarrow>
     watch_step r w (w\<lparr>w_pc := WatchReturned\<rparr>)"

text \<open>Runs, in which the runtime changes between the steps but not its timeout.\<close>

inductive watch_run :: "int \<Rightarrow> int \<Rightarrow> ('h, 't, 'v) runtime \<times> watch \<Rightarrow> bool" for T t0 where
  watch_run_new: "watch_run T t0 (r, new_watch t0)"
| watch_run_step: "watch_run T t0 (r, w) \<Longrightarrow> rt_shutdownTimeout r' = T \<Longrightarrow> watch_step r' w w' \<Longrightarrow>
     watch_run T t0 (r', w')"

section \<open>When it reports\<close>

text \<open>A line of the \<open>k\<close>-th report, counted from one.\<close>

definition report_line :: "int \<Rightarrow> nat \<Rightarrow> int \<times> int \<times> string \<times> string \<Rightarrow> bool" where
  "report_line T k l \<longleftrightarrow> fst l = T \<and> T dvd fst (snd l) \<and> int k * T \<le> fst (snd l)"

lemma truncate_multiple:
  assumes "0 < T" and "int k * T \<le> d"
  shows "T dvd duration_Truncate d T" and "int k * T \<le> duration_Truncate d T"
proof -
  have "0 \<le> int k * T" using assms(1) by simp
  then have "0 \<le> d" using assms(2) by linarith
  then have eq: "duration_Truncate d T = d div T * T"
    using assms(1) by (cases "d = 0") (simp_all add: duration_Truncate_def minus_mod_eq_div_mult)
  show "T dvd duration_Truncate d T" by (simp add: eq)
  have "int k \<le> d div T"
    using zdiv_mono1 [OF assms(2,1)] assms(1) by simp
  then show "int k * T \<le> duration_Truncate d T" using assms(1) by (simp add: eq)
qed

lemma report_lines:
  assumes "0 < T" and "int k * T \<le> d" and "rt_shutdownTimeout r = T"
    and "logShutdownTimeout d r = (ls, again)" and "l \<in> set ls"
  shows "report_line T k l"
  using assms truncate_multiple [OF assms(1,2)]
  by (auto simp: logShutdownTimeout_def report_line_def Let_def split: if_splits)

text \<open>
  Before the report with number \<open>k\<close> that many timeouts have passed since the start, and
  the ticker is never early for the next one.
\<close>

definition after :: "int \<Rightarrow> int \<Rightarrow> nat \<Rightarrow> int" where
  "after T start k = start + int k * T"

lemma after_simps [simp]: "after T s 0 = s" "after T s (Suc k) = after T s k + T"
  by (simp_all add: after_def algebra_simps)

definition watch_ok :: "int \<Rightarrow> watch \<Rightarrow> bool" where
  "watch_ok T w \<longleftrightarrow>
     (case w_pc w of
        WatchStart \<Rightarrow> w_log w = []
      | WatchArm \<Rightarrow> w_log w = [] \<and> w_started w \<le> w_now w
      | WatchTimer \<Rightarrow> w_log w = [] \<and> w_started w + T \<le> w_timer w
      | WatchLog \<Rightarrow>
          after T (w_started w) (length (w_log w)) + T \<le> w_now w \<and> after T (w_started w) (length (w_log w)) + 2 * T \<le> w_next w \<and>
          (w_pending w \<longrightarrow> after T (w_started w) (length (w_log w)) + 2 * T \<le> w_now w \<and>
             after T (w_started w) (length (w_log w)) + 3 * T \<le> w_next w)
      | WatchTick \<Rightarrow>
          after T (w_started w) (length (w_log w)) + T \<le> w_next w \<and>
          (w_pending w \<longrightarrow> after T (w_started w) (length (w_log w)) + T \<le> w_now w \<and>
             after T (w_started w) (length (w_log w)) + 2 * T \<le> w_next w)
      | WatchReturned \<Rightarrow> True)"

lemma watch_ok_step:
  assumes "watch_ok T w" and "watch_step r w w'" and "rt_shutdownTimeout r = T" and "0 < T"
  shows "watch_ok T w'"
  using assms(2,1,3,4)
proof (cases rule: watch_step.cases)
  case watch_begin then show ?thesis by (simp add: watch_ok_def) (use assms(1) watch_begin in \<open>simp add: watch_ok_def\<close>)
next
  case (watch_clock d) then show ?thesis using assms(1) by (auto simp: watch_ok_def split: watch_pc.splits)
next
  case watch_close then show ?thesis using assms(1) by (auto simp: watch_ok_def split: watch_pc.splits)
next
  case watch_tick then show ?thesis using assms by (auto simp: watch_ok_def)
next
  case watch_arm then show ?thesis using assms by (simp add: watch_ok_def)
next
  case watch_fire then show ?thesis using assms by (simp add: watch_ok_def)
next
  case (watch_report ls again) then show ?thesis using assms by (auto simp: watch_ok_def)
next
  case watch_receive then show ?thesis using assms by (simp add: watch_ok_def)
next
  case watch_return then show ?thesis by (simp add: watch_ok_def)
qed

lemma watch_run_ok:
  assumes "watch_run T t0 y" and "0 < T"
  shows "watch_ok T (snd y)"
  using assms
proof (induction rule: watch_run.induct)
  case (watch_run_new r)
  then show ?case by (simp add: new_watch_def watch_ok_def)
next
  case (watch_run_step r w r' w')
  then show ?case by (auto intro: watch_ok_step)
qed

section \<open>The properties\<close>

lemma watch_log_step:
  assumes "watch_ok T w" and "watch_step r w w'" and "rt_shutdownTimeout r = T" and "0 < T"
    and "k < length (w_log w')" and "l \<in> set (w_log w' ! k)"
  shows "report_line T (Suc k) l \<or> (k < length (w_log w) \<and> l \<in> set (w_log w ! k))"
  using assms(2)
proof (cases rule: watch_step.cases)
  case (watch_report ls again)
  show ?thesis
  proof (cases "k < length (w_log w)")
    case True
    then show ?thesis using assms(6) watch_report by (simp add: nth_append)
  next
    case False
    then have k: "k = length (w_log w)" and l: "l \<in> set ls"
      using assms(5,6) watch_report by (auto simp: nth_append split: if_splits)
    have "int (Suc k) * T \<le> w_now w - w_started w"
      using assms(1) watch_report k by (simp add: watch_ok_def after_def algebra_simps)
    then show ?thesis
      using report_lines [OF assms(4) _ assms(3)] watch_report l by blast
  qed
qed (use assms(5,6) in simp_all)

text \<open>
  However the clock and the runtime move, the report with number \<open>k\<close> (counted from zero)
  is not made before \<open>k + 1\<close> timeouts, and every line of it names the timeout and an
  elapsed time that is a multiple of it and at least that long.
\<close>

theorem watchdog_reports:
  assumes "watch_run T t0 (r, w)" and "0 < T" and "k < length (w_log w)" and "l \<in> set (w_log w ! k)"
  shows "fst l = T \<and> T dvd fst (snd l) \<and> int (k + 1) * T \<le> fst (snd l)"
proof -
  have "report_line T (Suc k) l"
    using assms
  proof (induction "(r, w)" arbitrary: r w rule: watch_run.induct)
    case (watch_run_step r w r' w')
    have "watch_ok T w" using watch_run_ok [OF watch_run_step(1) assms(2)] by simp
    from watch_log_step [OF this watch_run_step(4,3) assms(2) watch_run_step(6,7)]
    show ?case using watch_run_step(2) assms(2) by blast
  qed (simp add: new_watch_def)
  then show ?thesis by (simp add: report_line_def)
qed

end
