(* ===== verification/Gx_Strings.thy ===== *)
theory Gx_Strings imports Gx_Prelude "HOL-Library.Sublist" "HOL-Library.Char_ord" begin

text \<open>
  Go strings are byte strings; a \<open>char\<close> is a byte. The functions of \<open>strings\<close> and
  \<open>strconv\<close> the package uses, on bytes. White space is what \<open>unicode.IsSpace\<close> accepts,
  as the UTF-8 encodings of those runes; such an encoding is never part of a longer one.
\<close>

section \<open>White space\<close>

definition bytes :: "nat list \<Rightarrow> string" where
  "bytes ns = map char_of ns"

definition space_runes :: "string list" where
  "space_runes =
     map bytes
       ([[9], [10], [11], [12], [13], [32], [194, 133], [194, 160], [225, 154, 128]] @
        map (\<lambda>n. [226, 128, n]) ([128..<139] @ [168, 169, 175]) @
        [[226, 129, 159], [227, 128, 128]])"

lemma space_runes_nonempty: "r \<in> set space_runes \<Longrightarrow> r \<noteq> []"
  by (auto simp: space_runes_def bytes_def)

text \<open>\<open>TrimLeft\<close> and \<open>TrimRight\<close> of white space, and \<open>strings.TrimSpace\<close>.\<close>

function trim_left :: "string \<Rightarrow> string" where
  "trim_left s =
     (case find (\<lambda>r. prefix r s) space_runes of
        None \<Rightarrow> s
      | Some r \<Rightarrow> trim_left (drop (length r) s))"
  by pat_completeness auto

lemma find_space: "find P space_runes = Some r \<Longrightarrow> P r \<and> 0 < length r"
  by (auto simp: find_Some_iff dest: space_runes_nonempty [OF nth_mem])

termination trim_left
  by (relation "measure length") (auto dest!: find_space simp: prefix_def)

function trim_right :: "string \<Rightarrow> string" where
  "trim_right s =
     (case find (\<lambda>r. suffix r s) space_runes of
        None \<Rightarrow> s
      | Some r \<Rightarrow> trim_right (take (length s - length r) s))"
  by pat_completeness auto

termination trim_right
  by (relation "measure length") (auto dest!: find_space simp: suffix_def)

declare trim_left.simps [simp del] trim_right.simps [simp del]

definition TrimSpace :: "string \<Rightarrow> string" where
  "TrimSpace s = trim_right (trim_left s)"

definition trimmed :: "string \<Rightarrow> bool" where
  "trimmed s \<longleftrightarrow> list_all (\<lambda>r. \<not> prefix r s \<and> \<not> suffix r s) space_runes"

lemma trim_left_done: "r \<in> set space_runes \<Longrightarrow> \<not> prefix r (trim_left s)"
proof (induction s rule: trim_left.induct)
  case (1 s)
  show ?case
  proof (cases "find (\<lambda>r. prefix r s) space_runes")
    case None
    then have "trim_left s = s"
      by (simp add: trim_left.simps [of s])
    then show ?thesis
      using None 1(2) by (auto simp: find_None_iff)
  next
    case (Some q)
    then show ?thesis
      using 1(1) [OF Some] 1(2) by (simp add: trim_left.simps [of s])
  qed
qed

lemma trim_right_done: "r \<in> set space_runes \<Longrightarrow> \<not> suffix r (trim_right s)"
proof (induction s rule: trim_right.induct)
  case (1 s)
  show ?case
  proof (cases "find (\<lambda>r. suffix r s) space_runes")
    case None
    then have "trim_right s = s"
      by (simp add: trim_right.simps [of s])
    then show ?thesis
      using None 1(2) by (auto simp: find_None_iff)
  next
    case (Some q)
    then show ?thesis
      using 1(1) [OF Some] 1(2) by (simp add: trim_right.simps [of s])
  qed
qed

lemma trim_right_prefix: "prefix (trim_right s) s"
proof (induction s rule: trim_right.induct)
  case (1 s)
  show ?case
  proof (cases "find (\<lambda>r. suffix r s) space_runes")
    case None
    then show ?thesis by (simp add: trim_right.simps [of s])
  next
    case (Some q)
    then show ?thesis
      using 1 [OF Some] by (simp add: trim_right.simps [of s]) (meson prefix_order.trans take_is_prefix)
  qed
qed

lemma trim_left_suffix: "suffix (trim_left s) s"
proof (induction s rule: trim_left.induct)
  case (1 s)
  show ?case
  proof (cases "find (\<lambda>r. prefix r s) space_runes")
    case None
    then show ?thesis by (simp add: trim_left.simps [of s])
  next
    case (Some q)
    then show ?thesis
      using 1 [OF Some] by (simp add: trim_left.simps [of s]) (meson suffix_drop suffix_order.trans)
  qed
qed

text \<open>What is left has no white space at its ends, and is a contiguous part of the input.\<close>

lemma TrimSpace_trimmed: "trimmed (TrimSpace s)"
  using trim_left_done [of _ s] trim_right_done [of _ "trim_left s"] trim_right_prefix [of "trim_left s"]
  by (auto simp: trimmed_def TrimSpace_def list_all_iff dest: prefix_order.trans)

lemma TrimSpace_id:
  assumes "trimmed s"
  shows "TrimSpace s = s"
proof -
  have "find (\<lambda>r. prefix r s) space_runes = None" "find (\<lambda>r. suffix r s) space_runes = None"
    using assms by (auto simp: trimmed_def list_all_iff find_None_iff)
  then have "trim_left s = s" "trim_right s = s"
    by (simp_all add: trim_left.simps [of s] trim_right.simps [of s])
  then show ?thesis
    by (simp add: TrimSpace_def)
qed

lemma TrimSpace_sub: "sublist (TrimSpace s) s"
proof -
  obtain a where a: "s = a @ trim_left s"
    using trim_left_suffix [of s] by (auto simp: suffix_def)
  obtain b where b: "trim_left s = TrimSpace s @ b"
    using trim_right_prefix [of "trim_left s"] by (auto simp: prefix_def TrimSpace_def)
  have "s = a @ TrimSpace s @ b"
    using a b by simp
  then show ?thesis by (metis sublist_def)
qed

text \<open>
  A byte that is in no white space rune comes first after trimming exactly if only white
  space stands before it.
\<close>

lemma space_runes_prefix_free:
  assumes "r \<in> set space_runes" "r' \<in> set space_runes" "prefix r s" "prefix r' s"
  shows "r = r'"
proof -
  have "list_all (\<lambda>r. list_all (\<lambda>r'. prefix r r' \<longrightarrow> r = r') space_runes) space_runes"
    by code_simp
  then show ?thesis
    using assms prefix_same_cases [of r s r'] by (auto simp: list_all_iff)
qed

lemma find_space_iff:
  assumes "r \<in> set space_runes" "prefix r s"
  shows "find (\<lambda>r. prefix r s) space_runes = Some r"
proof -
  obtain r' where r': "find (\<lambda>r. prefix r s) space_runes = Some r'"
    using assms by (cases "find (\<lambda>r. prefix r s) space_runes") (auto simp: find_None_iff)
  then have "r' \<in> set space_runes" "prefix r' s"
    by (auto simp: find_Some_iff)
  then show ?thesis
    using r' space_runes_prefix_free [OF assms(1) _ assms(2)] by simp
qed

lemma trim_left_rune:
  assumes "r \<in> set space_runes"
  shows "trim_left (r @ s) = trim_left s"
proof -
  have "find (\<lambda>x. prefix x (r @ s)) space_runes = Some r"
    by (rule find_space_iff [OF assms]) simp
  then have "trim_left (r @ s) = trim_left (drop (length r) (r @ s))"
    by (subst trim_left.simps) (simp only: option.case)
  then show ?thesis
    by simp
qed

lemma trim_left_none: "find (\<lambda>r. prefix r s) space_runes = None \<Longrightarrow> trim_left s = s"
  by (subst trim_left.simps) (simp only: option.case)

lemma trim_left_some:
  "find (\<lambda>r. prefix r s) space_runes = Some r \<Longrightarrow> trim_left s = trim_left (drop (length r) s)"
  by (subst trim_left.simps) (simp only: option.case)

lemma trim_left_Nil [simp]: "trim_left [] = []"
  by (rule trim_left_none) (auto simp: find_None_iff dest: space_runes_nonempty)

lemma trim_left_split: "\<exists>ws. s = ws @ trim_left s \<and> trim_left ws = []"
proof (induction s rule: trim_left.induct)
  case (1 s)
  show ?case
  proof (cases "find (\<lambda>r. prefix r s) space_runes")
    case None
    then show ?thesis
      by (intro exI [of _ "[]"]) (simp add: trim_left_none)
  next
    case (Some r)
    then have r: "r \<in> set space_runes" "s = r @ drop (length r) s"
      by (auto simp: find_Some_iff prefix_def)
    obtain ws where ws: "drop (length r) s = ws @ trim_left (drop (length r) s)" "trim_left ws = []"
      using 1 [OF Some] by blast
    have "s = (r @ ws) @ trim_left s"
      using r(2) ws(1) trim_left_some [OF Some] by (metis append.assoc)
    moreover have "trim_left (r @ ws) = []"
      using ws(2) by (simp add: trim_left_rune [OF r(1)])
    ultimately show ?thesis by blast
  qed
qed

lemma trim_left_white: "trim_left ws = [] \<Longrightarrow> trim_left (ws @ s) = trim_left s"
proof (induction ws rule: trim_left.induct)
  case (1 ws)
  show ?case
  proof (cases "find (\<lambda>r. prefix r ws) space_runes")
    case None
    then show ?thesis using 1(2) by (simp add: trim_left_none)
  next
    case (Some r)
    then have r: "r \<in> set space_runes" "ws = r @ drop (length r) ws"
      by (auto simp: find_Some_iff prefix_def)
    have "trim_left (drop (length r) ws @ s) = trim_left s"
      using 1(1) [OF Some] 1(2) trim_left_some [OF Some] by simp
    then show ?thesis
      using trim_left_rune [OF r(1), of "drop (length r) ws @ s"] r(2) by (metis append.assoc)
  qed
qed

lemma trim_right_keeps:
  "c \<in> set s \<Longrightarrow> \<forall>r \<in> set space_runes. c \<notin> set r \<Longrightarrow> c \<in> set (trim_right s)"
proof (induction s rule: trim_right.induct)
  case (1 s)
  show ?case
  proof (cases "find (\<lambda>r. suffix r s) space_runes")
    case None
    then show ?thesis using 1 by (simp add: trim_right.simps [of s])
  next
    case (Some r)
    then have r: "r \<in> set space_runes" "suffix r s"
      by (auto simp: find_Some_iff)
    then have "c \<in> set (take (length s - length r) s)"
      using 1(2,3) by (auto simp: suffix_def)
    then show ?thesis
      using 1 Some by (simp add: trim_right.simps [of s])
  qed
qed

lemma TrimSpace_starts:
  assumes "\<forall>r \<in> set space_runes. c \<notin> set r"
  shows "prefix [c] (TrimSpace s) \<longleftrightarrow> (\<exists>ws t. s = ws @ c # t \<and> trim_left ws = [])"
proof
  assume "prefix [c] (TrimSpace s)"
  then have "prefix [c] (trim_left s)"
    unfolding TrimSpace_def by (rule prefix_order.trans) (rule trim_right_prefix)
  then obtain t where "trim_left s = c # t"
    by (auto simp: prefix_def)
  then show "\<exists>ws t. s = ws @ c # t \<and> trim_left ws = []"
    using trim_left_split [of s] by metis
next
  assume "\<exists>ws t. s = ws @ c # t \<and> trim_left ws = []"
  then obtain ws t where s: "s = ws @ c # t" "trim_left ws = []"
    by blast
  have "find (\<lambda>r. prefix r (c # t)) space_runes = None"
    using assms by (auto simp: find_None_iff prefix_Cons dest: space_runes_nonempty)
  then have "trim_left s = c # t"
    using s by (simp add: trim_left_white trim_left_none)
  moreover have "c \<in> set (trim_right (c # t))"
    using assms by (simp add: trim_right_keeps)
  ultimately show "prefix [c] (TrimSpace s)"
    using trim_right_prefix [of "c # t"] by (cases "trim_right (c # t)") (auto simp: TrimSpace_def)
qed

section \<open>Splitting\<close>

text \<open>\<open>strings.SplitSeq\<close> with a one-byte separator: always at least one part.\<close>

fun split_on :: "char \<Rightarrow> string \<Rightarrow> string list" where
  "split_on c [] = [[]]"
| "split_on c (x # xs) =
     (if x = c then [] # split_on c xs
      else case split_on c xs of [] \<Rightarrow> [[x]] | p # ps \<Rightarrow> (x # p) # ps)"

definition join :: "char \<Rightarrow> string list \<Rightarrow> string" where
  "join c parts = (case parts of [] \<Rightarrow> [] | p # ps \<Rightarrow> p @ concat (map (\<lambda>q. c # q) ps))"

lemma split_on_nonempty [simp]: "split_on c s \<noteq> []"
  by (cases s) (auto split: list.splits)

lemma split_on_free: "p \<in> set (split_on c s) \<Longrightarrow> c \<notin> set p"
proof (induction s arbitrary: p)
  case (Cons x xs)
  then show ?case by (cases "split_on c xs") (auto split: if_splits)
qed simp

lemma split_on_append:
  "c \<notin> set p \<Longrightarrow> split_on c (p @ c # s) = p # split_on c s"
  by (induction p) (auto split: list.splits)

lemma split_on_id: "c \<notin> set p \<Longrightarrow> split_on c p = [p]"
  by (induction p) auto

lemma split_join:
  "\<forall>p \<in> set (q # ps). c \<notin> set p \<Longrightarrow> split_on c (join c (q # ps)) = q # ps"
proof (induction ps arbitrary: q)
  case Nil
  then show ?case by (simp add: join_def split_on_id)
next
  case (Cons r rs)
  have "join c (q # r # rs) = q @ c # join c (r # rs)"
    by (simp add: join_def)
  then show ?case
    using Cons by (simp add: split_on_append)
qed

lemma join_split: "join c (split_on c s) = s"
proof (induction s)
  case (Cons x xs)
  then show ?case
    by (cases "split_on c xs") (auto simp: join_def)
qed (simp add: join_def)

section \<open>Lower case\<close>

text \<open>
  \<open>strings.ToLower\<close>, as far as an ASCII pattern can tell: ASCII letters, and the two other
  runes whose lower case is ASCII (the dotted capital I and the Kelvin sign). Any other
  rune has a lower case outside ASCII and is kept.
\<close>

definition lower_byte :: "char \<Rightarrow> char" where
  "lower_byte c = (if CHR ''A'' \<le> c \<and> c \<le> CHR ''Z'' then char_of (of_char c + 32 :: nat) else c)"

fun ToLower :: "string \<Rightarrow> string" where
  "ToLower (a # b # c # s) =
     (if [a, b] = bytes [196, 176] then CHR ''i'' # ToLower (c # s)
      else if [a, b, c] = bytes [226, 132, 170] then CHR ''k'' # ToLower s
      else lower_byte a # ToLower (b # c # s))"
| "ToLower [a, b] = (if [a, b] = bytes [196, 176] then ''i'' else [lower_byte a, lower_byte b])"
| "ToLower [a] = [lower_byte a]"
| "ToLower [] = []"

section \<open>Numbers and truth values\<close>

definition ParseBool :: "string \<Rightarrow> bool option" where
  "ParseBool s =
     (if s \<in> {''1'', ''t'', ''T'', ''TRUE'', ''true'', ''True''} then Some True
      else if s \<in> {''0'', ''f'', ''F'', ''FALSE'', ''false'', ''False''} then Some False
      else None)"

definition is_digit :: "char \<Rightarrow> bool" where
  "is_digit c \<longleftrightarrow> CHR ''0'' \<le> c \<and> c \<le> CHR ''9''"

definition digit_val :: "char \<Rightarrow> int" where
  "digit_val c = int (of_char c) - 48"

definition decimal :: "string \<Rightarrow> int" where
  "decimal ds = foldl (\<lambda>n d. n * 10 + digit_val d) 0 ds"

text \<open>\<open>strconv.Atoi\<close> for 64-bit \<open>int\<close>: a sign, digits, and the range check.\<close>

definition Atoi :: "string \<Rightarrow> int option" where
  "Atoi s =
     (let neg = (s \<noteq> [] \<and> hd s = CHR ''-'');
          ds = (if s \<noteq> [] \<and> (hd s = CHR ''-'' \<or> hd s = CHR ''+'') then tl s else s)
      in if ds = [] \<or> \<not> list_all is_digit ds then None
         else let n = (if neg then - decimal ds else decimal ds)
              in if - (2 ^ 63) \<le> n \<and> n < 2 ^ 63 then Some n else None)"

text \<open>The decimal notation of a number, as \<open>strconv.Itoa\<close> writes it.\<close>

fun digits :: "nat \<Rightarrow> string" where
  "digits n = (if n < 10 then [char_of (48 + n)] else digits (n div 10) @ [char_of (48 + n mod 10)])"

declare digits.simps [simp del]

definition Itoa :: "int \<Rightarrow> string" where
  "Itoa n = (if n < 0 then CHR ''-'' # digits (nat (- n)) else digits (nat n))"

lemma digit_char:
  assumes "d < 10"
  shows "is_digit (char_of (48 + d)) \<and> digit_val (char_of (48 + d)) = int d"
proof -
  have "of_char (char_of (48 + d) :: char) = 48 + d"
    using assms by simp
  then show ?thesis
    using assms by (simp add: is_digit_def digit_val_def less_eq_char_def)
qed

lemma decimal_snoc: "decimal (ds @ [d]) = decimal ds * 10 + digit_val d"
  by (simp add: decimal_def)

lemma digits_ok: "digits n \<noteq> [] \<and> list_all is_digit (digits n) \<and> decimal (digits n) = int n"
proof (induction n rule: digits.induct)
  case (1 n)
  show ?case
  proof (cases "n < 10")
    case True
    then show ?thesis
      using digit_char [of n] by (simp add: digits.simps [of n] decimal_def)
  next
    case False
    have "int (n div 10) * 10 + int (n mod 10) = int n"
      by presburger
    then show ?thesis
      using False 1 digit_char [of "n mod 10"] by (simp add: digits.simps [of n] decimal_snoc)
  qed
qed

lemma digit_not_sign: "is_digit c \<Longrightarrow> c \<noteq> CHR ''-'' \<and> c \<noteq> CHR ''+''"
  by (auto simp: is_digit_def less_eq_char_def)

lemma Atoi_Itoa:
  assumes "- (2 ^ 63) \<le> n" and "n < 2 ^ 63"
  shows "Atoi (Itoa n) = Some n"
proof (cases "n < 0")
  case True
  then show ?thesis
    using assms digits_ok [of "nat (- n)"] by (simp add: Atoi_def Itoa_def Let_def)
next
  case False
  obtain d ds where ds: "digits (nat n) = d # ds" "is_digit d"
    using digits_ok [of "nat n"] by (cases "digits (nat n)") auto
  then show ?thesis
    using assms False digits_ok [of "nat n"] digit_not_sign [OF ds(2)]
    by (simp add: Atoi_def Itoa_def Let_def)
qed

end
