(* ===== verification/Gx_Env.thy ===== *)
theory Gx_Env imports Gx_Strings begin

text \<open>
  \<open>env/env.go\<close>: typed reading of environment variables. The environment is a partial
  function. \<open>strconv.ParseFloat\<close> and \<open>time.ParseDuration\<close>, whose results are floating-point
  computations, are the parameter \<open>parse\<close> of the operations that use them.
\<close>

section \<open>Operations\<close>

type_synonym environment = "string \<rightharpoonup> string"

definition env_Bool :: "environment \<Rightarrow> string \<Rightarrow> bool \<Rightarrow> bool" where
  "env_Bool env key fallback =
     (case env key of
        None \<Rightarrow> fallback
      | Some v \<Rightarrow> (case ParseBool v of None \<Rightarrow> fallback | Some b \<Rightarrow> b))"

definition env_Duration :: "(string \<Rightarrow> int option) \<Rightarrow> environment \<Rightarrow> string \<Rightarrow> int \<Rightarrow> int" where
  "env_Duration parse env key fallback =
     (case env key of
        None \<Rightarrow> fallback
      | Some v \<Rightarrow> (case parse v of None \<Rightarrow> fallback | Some d \<Rightarrow> d))"

definition env_Float64 :: "(string \<Rightarrow> 'f option) \<Rightarrow> environment \<Rightarrow> string \<Rightarrow> 'f \<Rightarrow> 'f" where
  "env_Float64 parse env key fallback =
     (case env key of
        None \<Rightarrow> fallback
      | Some v \<Rightarrow> (case parse v of None \<Rightarrow> fallback | Some f \<Rightarrow> f))"

definition env_Int :: "environment \<Rightarrow> string \<Rightarrow> int \<Rightarrow> int" where
  "env_Int env key fallback =
     (case env key of
        None \<Rightarrow> fallback
      | Some v \<Rightarrow> (case Atoi v of None \<Rightarrow> fallback | Some i \<Rightarrow> i))"

definition env_must :: "environment \<Rightarrow> string \<Rightarrow> string go" where
  "env_must env key =
     (case env key of
        None \<Rightarrow> Panic (''required env var missing or empty: '' @ key)
      | Some v \<Rightarrow> if v = [] then Panic (''required env var missing or empty: '' @ key) else Ret v)"

definition env_MustBool :: "environment \<Rightarrow> string \<Rightarrow> bool go" where
  "env_MustBool env key =
     go_bind (env_must env key) (\<lambda>v.
       case ParseBool v of None \<Rightarrow> Panic (''invalid bool value for env var: '' @ key) | Some b \<Rightarrow> Ret b)"

definition env_MustDuration :: "(string \<Rightarrow> int option) \<Rightarrow> environment \<Rightarrow> string \<Rightarrow> int go" where
  "env_MustDuration parse env key =
     go_bind (env_must env key) (\<lambda>v.
       case parse v of None \<Rightarrow> Panic (''invalid duration value for env var: '' @ key) | Some d \<Rightarrow> Ret d)"

definition env_MustFloat64 :: "(string \<Rightarrow> 'f option) \<Rightarrow> environment \<Rightarrow> string \<Rightarrow> 'f go" where
  "env_MustFloat64 parse env key =
     go_bind (env_must env key) (\<lambda>v.
       case parse v of None \<Rightarrow> Panic (''invalid float64 value for env var: '' @ key) | Some f \<Rightarrow> Ret f)"

definition env_MustInt :: "environment \<Rightarrow> string \<Rightarrow> int go" where
  "env_MustInt env key =
     go_bind (env_must env key) (\<lambda>v.
       case Atoi v of None \<Rightarrow> Panic (''invalid int value for env var: '' @ key) | Some i \<Rightarrow> Ret i)"

definition env_MustString :: "environment \<Rightarrow> string \<Rightarrow> string go" where
  "env_MustString env key = env_must env key"

fun trim_parts :: "string list \<Rightarrow> string list \<Rightarrow> string list" where
  "trim_parts [] parts = parts"
| "trim_parts (v # vs) parts =
     (let v' = TrimSpace v in trim_parts vs (if v' \<noteq> [] then parts @ [v'] else parts))"

definition splitAndTrim :: "string \<Rightarrow> char \<Rightarrow> string list" where
  "splitAndTrim s sep = trim_parts (split_on sep s) []"

definition env_MustStrings :: "environment \<Rightarrow> string \<Rightarrow> string list go" where
  "env_MustStrings env key = go_bind (env_must env key) (\<lambda>v. Ret (splitAndTrim v CHR '',''))"

definition env_String :: "environment \<Rightarrow> string \<Rightarrow> string \<Rightarrow> string" where
  "env_String env key fallback = (case env key of None \<Rightarrow> fallback | Some v \<Rightarrow> v)"

definition env_Strings :: "environment \<Rightarrow> string \<Rightarrow> string list \<Rightarrow> string list" where
  "env_Strings env key fallback =
     (case env key of None \<Rightarrow> fallback | Some v \<Rightarrow> splitAndTrim v CHR '','')"

section \<open>Facts\<close>

lemma trim_parts_eq: "trim_parts vs parts = parts @ filter (\<lambda>v. v \<noteq> []) (map TrimSpace vs)"
  by (induction vs arbitrary: parts) (simp_all add: Let_def)

lemma splitAndTrim_eq: "splitAndTrim s sep = filter (\<lambda>v. v \<noteq> []) (map TrimSpace (split_on sep s))"
  by (simp add: splitAndTrim_def trim_parts_eq)

lemma TrimSpace_free: "c \<notin> set s \<Longrightarrow> c \<notin> set (TrimSpace s)"
  using set_mono_sublist [OF TrimSpace_sub, of s] by blast

lemma trim_empty [simp]: "TrimSpace [] = []"
  by (rule TrimSpace_id) (auto simp: trimmed_def list_all_iff dest: space_runes_nonempty)

lemma must_cases: "env_must env key = Ret v \<longleftrightarrow> env key = Some v \<and> v \<noteq> []"
  by (auto simp: env_must_def split: option.splits if_splits)

lemma must_panics: "(\<exists>m. env_must env key = Panic m) \<longleftrightarrow> env key = None \<or> env key = Some []"
  by (auto simp: env_must_def split: option.splits)

section \<open>Properties\<close>

text \<open>
  C40: Lists survive a round trip. Reading a variable that holds the elements of a list joined
  by commas gives back that list, for elements that are trimmed, not empty and free of
  commas; and whatever the variable holds, the elements read are of that kind.
\<close>

theorem env_strings_roundtrip:
  assumes "env key = Some v"
  shows "(\<forall>p \<in> set (env_Strings env key fallback). p \<noteq> [] \<and> trimmed p \<and> CHR '','' \<notin> set p) \<and>
    (\<forall>ps. (\<forall>p \<in> set ps. p \<noteq> [] \<and> trimmed p \<and> CHR '','' \<notin> set p) \<and> v = join CHR '','' ps \<longrightarrow>
       env_Strings env key fallback = ps \<and> (ps \<noteq> [] \<longrightarrow> env_MustStrings env key = Ret ps))"
proof -
  have read: "env_Strings env key fallback = splitAndTrim v CHR '',''"
    by (simp add: env_Strings_def assms)
  have lst: "splitAndTrim v CHR '','' = ps"
    if ps: "\<forall>p \<in> set ps. p \<noteq> [] \<and> trimmed p \<and> CHR '','' \<notin> set p" and v: "v = join CHR '','' ps" for ps
  proof (cases ps)
    case Nil
    then show ?thesis using v by (simp add: splitAndTrim_eq join_def)
  next
    case (Cons q qs)
    then have "split_on CHR '','' v = ps"
      using ps v by (simp add: split_join)
    moreover have "map TrimSpace ps = ps"
      using ps by (simp add: map_idI TrimSpace_id)
    ultimately show ?thesis
      using ps by (simp add: splitAndTrim_eq filter_id_conv)
  qed
  have must: "env_MustStrings env key = Ret (splitAndTrim v CHR '','')"
    if "ps \<noteq> []" "\<forall>p \<in> set ps. p \<noteq> [] \<and> trimmed p \<and> CHR '','' \<notin> set p" "v = join CHR '','' ps" for ps
  proof -
    have "v \<noteq> []"
      using that by (cases ps) (simp_all add: join_def)
    then show ?thesis
      by (simp add: env_MustStrings_def env_must_def assms)
  qed
  have kind: "p \<noteq> [] \<and> trimmed p \<and> CHR '','' \<notin> set p" if "p \<in> set (splitAndTrim v CHR '','')" for p
    using that by (auto simp: splitAndTrim_eq TrimSpace_trimmed dest: split_on_free TrimSpace_free)
  show ?thesis
    unfolding read using kind lst must by metis
qed

lemma env_strings_roundtrip_witness:
  "env_Strings [''K'' \<mapsto> ''ab,c''] ''K'' [] = [''ab'', ''c'']"
proof -
  let ?env = "[''K'' \<mapsto> ''ab,c'']" and ?ps = "[''ab'', ''c'']"
  have "trimmed ''ab''" and "trimmed ''c''"
    by code_simp+
  then have "\<forall>p \<in> set ?ps. p \<noteq> [] \<and> trimmed p \<and> CHR '','' \<notin> set p"
    by simp
  moreover have "''ab,c'' = join CHR '','' ?ps"
    by (simp add: join_def)
  ultimately show ?thesis
    using env_strings_roundtrip [of ?env "''K''" "''ab,c''" "[]", THEN conjunct2, rule_format, of ?ps]
    by simp
qed

text \<open>
  Integers survive a round trip: a variable with the decimal notation of any 64-bit
  \<open>int\<close> reads as that number, in \<open>Int\<close> and \<open>MustInt\<close>; a missing variable gives the
  fallback, and \<open>Int\<close> never returns anything outside the range but the fallback.
\<close>

theorem env_int_roundtrip:
  assumes "- (2 ^ 63) \<le> n" and "n < 2 ^ 63" and "env key = Some (Itoa n)" and "env other = None"
  shows "env_Int env key fallback = n \<and> env_MustInt env key = Ret n \<and>
    env_Int env other fallback = fallback \<and> (\<exists>m. env_MustInt env other = Panic m)"
proof -
  have "Itoa n \<noteq> []"
    using digits_ok by (simp add: Itoa_def)
  then show ?thesis
    using assms Atoi_Itoa [OF assms(1,2)]
    by (simp add: env_Int_def env_MustInt_def env_must_def)
qed

lemma env_int_roundtrip_witness:
  "env_Int [''N'' \<mapsto> Itoa (- 42)] ''N'' 7 = - 42 \<and> env_Int [''N'' \<mapsto> Itoa (- 42)] ''M'' 7 = 7"
  using env_int_roundtrip [of "- 42" "[''N'' \<mapsto> Itoa (- 42)]" "''N''" "''M''" 7] by simp

text \<open>
  The required readers panic exactly when the optional ones would use their fallback or
  the value is empty: \<open>MustBool\<close> returns what \<open>Bool\<close> returns for either fallback, or
  panics when the variable is missing, empty or not one of the twelve truth values;
  \<open>MustString\<close> panics on an empty value, which \<open>String\<close> returns as it is.
\<close>

theorem env_required:
  "(case env_MustBool env key of
      Ret b \<Rightarrow> env_Bool env key True = b \<and> env_Bool env key False = b
    | Panic m \<Rightarrow> env_Bool env key True \<and> \<not> env_Bool env key False) \<and>
   (case env_MustString env key of
      Ret v \<Rightarrow> v \<noteq> [] \<and> env_String env key fallback = v
    | Panic m \<Rightarrow> env_String env key fallback = (if env key = None then fallback else []))"
  by (auto simp: env_MustBool_def env_Bool_def env_must_def env_MustString_def env_String_def
      ParseBool_def split: go.split option.splits)

end
