(* ===== verification/Gx_Web_Error.thy ===== *)
theory Gx_Web_Error imports Gx_Strings begin

text \<open>
  \<open>web/error.go\<close>: errors with an HTTP status. An error is a tree of wrapped errors with its
  text at every node; \<open>statusError\<close> is the type of the package, \<open>CustomStatus\<close> any other
  type that implements \<open>StatusError\<close>. \<open>errors.AsType\<close> searches the tree in pre-order.
\<close>

section \<open>Errors\<close>

datatype web_error =
    Plain string
  | MaxBytesError int
  | ErrServerClosed
  | statusError (se_err: web_error) (se_status: int)
  | CustomStatus string int
  | Wrapped string web_error
  | Joined "web_error list"

text \<open>The method \<open>Error\<close> of each type.\<close>

fun web_Error_text :: "web_error \<Rightarrow> string" where
  "web_Error_text (Plain t) = t"
| "web_Error_text (MaxBytesError n) = ''http: request body too large''"
| "web_Error_text ErrServerClosed = ''http: Server closed''"
| "web_Error_text (statusError e s) = web_Error_text e"
| "web_Error_text (CustomStatus t s) = t"
| "web_Error_text (Wrapped t e) = t"
| "web_Error_text (Joined es) = join (char_of (10 :: nat)) (map web_Error_text es)"

text \<open>The method \<open>Status\<close>, for the types that have it.\<close>

fun web_Status :: "web_error \<Rightarrow> int option" where
  "web_Status (statusError e s) = Some s"
| "web_Status (CustomStatus t s) = Some s"
| "web_Status (Plain t) = None"
| "web_Status (MaxBytesError n) = None"
| "web_Status ErrServerClosed = None"
| "web_Status (Wrapped t e) = None"
| "web_Status (Joined es) = None"

text \<open>
  \<open>Unwrap\<close>: \<open>statusError\<close> and errors made with \<open>%w\<close> have one wrapped error, joined
  errors have several, the others have none.
\<close>

fun web_Unwrap :: "web_error \<Rightarrow> web_error list" where
  "web_Unwrap (statusError e s) = [e]"
| "web_Unwrap (Wrapped t e) = [e]"
| "web_Unwrap (Joined es) = es"
| "web_Unwrap (Plain t) = []"
| "web_Unwrap (MaxBytesError n) = []"
| "web_Unwrap ErrServerClosed = []"
| "web_Unwrap (CustomStatus t s) = []"

text \<open>\<open>errors.AsType\<close>: the error itself, or the first match among the wrapped ones.\<close>

function errors_AsType :: "(web_error \<Rightarrow> bool) \<Rightarrow> web_error \<Rightarrow> web_error option"
  and errors_AsType_list :: "(web_error \<Rightarrow> bool) \<Rightarrow> web_error list \<Rightarrow> web_error option" where
  "errors_AsType is e = (if is e then Some e else errors_AsType_list is (web_Unwrap e))"
| "errors_AsType_list is [] = None"
| "errors_AsType_list is (e # es) =
     (case errors_AsType is e of Some x \<Rightarrow> Some x | None \<Rightarrow> errors_AsType_list is es)"
  by pat_completeness auto

lemma size_list_double: "size_list (\<lambda>e. Suc (2 * size e)) es = 2 * size_list size (es :: web_error list)"
  by (induction es) auto

termination errors_AsType
proof (relation "measure (\<lambda>x. case x of Inl (_, e) \<Rightarrow> Suc (2 * size e)
      | Inr (_, es) \<Rightarrow> size_list (\<lambda>e. Suc (2 * size e)) es)")
  show "(Inr (is, web_Unwrap e), Inl (is, e)) \<in> measure (\<lambda>x. case x of Inl (_, e) \<Rightarrow> Suc (2 * size e)
      | Inr (_, es) \<Rightarrow> size_list (\<lambda>e. Suc (2 * size e)) es)" for "is" e
    by (cases e) (auto simp: size_list_double)
qed auto

declare errors_AsType.simps [simp del]

text \<open>The two types the package asks for.\<close>

definition is_StatusError :: "web_error \<Rightarrow> bool" where
  "is_StatusError e \<longleftrightarrow> web_Status e \<noteq> None"

definition is_MaxBytesError :: "web_error \<Rightarrow> bool" where
  "is_MaxBytesError e \<longleftrightarrow> (\<exists>n. e = MaxBytesError n)"

lemma is_MaxBytesError_code [code]:
  "is_MaxBytesError e = (case e of MaxBytesError n \<Rightarrow> True | _ \<Rightarrow> False)"
  by (auto simp: is_MaxBytesError_def split: web_error.splits)

lemma AsType_sound:
  "errors_AsType is e = Some x \<Longrightarrow> is x"
  "errors_AsType_list is es = Some x \<Longrightarrow> is x"
proof (induction "is" e and "is" es rule: errors_AsType_errors_AsType_list.induct)
  case (1 "is" e)
  then show ?case by (auto simp: errors_AsType.simps [of "is" e] split: if_splits)
qed (auto split: option.splits)

section \<open>Constructors\<close>

definition web_Error :: "int \<Rightarrow> string \<Rightarrow> web_error" where
  "web_Error status txt = statusError (Plain txt) status"

text \<open>
  \<open>Errorf\<close>: the error of \<open>fmt.Errorf\<close>, whose text is the parameter \<open>txt\<close> and which wraps the
  error given for \<open>%w\<close>, if there is one.
\<close>

definition web_Errorf :: "int \<Rightarrow> string \<Rightarrow> web_error option \<Rightarrow> web_error" where
  "web_Errorf status txt wrapped =
     statusError (case wrapped of None \<Rightarrow> Plain txt | Some e \<Rightarrow> Wrapped txt e) status"

definition web_ErrorWrap :: "int \<Rightarrow> web_error option \<Rightarrow> web_error option" where
  "web_ErrorWrap status err =
     (case err of None \<Rightarrow> None | Some e \<Rightarrow> Some (statusError e status))"

text \<open>\<open>http.StatusText\<close>.\<close>

definition status_texts :: "(int \<times> string) list" where
  "status_texts =
    [(100, ''Continue''), (101, ''Switching Protocols''), (102, ''Processing''), (103, ''Early Hints''),
     (200, ''OK''), (201, ''Created''), (202, ''Accepted''), (203, ''Non-Authoritative Information''),
     (204, ''No Content''), (205, ''Reset Content''), (206, ''Partial Content''), (207, ''Multi-Status''),
     (208, ''Already Reported''), (226, ''IM Used''),
     (300, ''Multiple Choices''), (301, ''Moved Permanently''), (302, ''Found''), (303, ''See Other''),
     (304, ''Not Modified''), (305, ''Use Proxy''), (307, ''Temporary Redirect''), (308, ''Permanent Redirect''),
     (400, ''Bad Request''), (401, ''Unauthorized''), (402, ''Payment Required''), (403, ''Forbidden''),
     (404, ''Not Found''), (405, ''Method Not Allowed''), (406, ''Not Acceptable''),
     (407, ''Proxy Authentication Required''), (408, ''Request Timeout''), (409, ''Conflict''), (410, ''Gone''),
     (411, ''Length Required''), (412, ''Precondition Failed''), (413, ''Request Entity Too Large''),
     (414, ''Request URI Too Long''), (415, ''Unsupported Media Type''),
     (416, ''Requested Range Not Satisfiable''), (417, ''Expectation Failed''), (418, ''I'' @ [CHR 0x27] @ ''m a teapot''),
     (421, ''Misdirected Request''), (422, ''Unprocessable Entity''), (423, ''Locked''),
     (424, ''Failed Dependency''), (425, ''Too Early''), (426, ''Upgrade Required''),
     (428, ''Precondition Required''), (429, ''Too Many Requests''),
     (431, ''Request Header Fields Too Large''), (451, ''Unavailable For Legal Reasons''),
     (500, ''Internal Server Error''), (501, ''Not Implemented''), (502, ''Bad Gateway''),
     (503, ''Service Unavailable''), (504, ''Gateway Timeout''), (505, ''HTTP Version Not Supported''),
     (506, ''Variant Also Negotiates''), (507, ''Insufficient Storage''), (508, ''Loop Detected''),
     (510, ''Not Extended''), (511, ''Network Authentication Required'')]"

definition StatusText :: "int \<Rightarrow> string" where
  "StatusText code = (case map_of status_texts code of None \<Rightarrow> [] | Some t \<Rightarrow> t)"

definition web_ErrorStatus :: "int list \<Rightarrow> web_error" where
  "web_ErrorStatus status =
     (let httpStatus = (if length status > 0 then hd status else 500);
          txt = StatusText httpStatus;
          txt = (if txt = [] then StatusText 500 else txt)
      in web_Error httpStatus (ToLower txt))"

section \<open>Facts\<close>

lemma AsType_status_error [simp]: "errors_AsType is_StatusError (statusError e s) = Some (statusError e s)"
  by (simp add: errors_AsType.simps is_StatusError_def)

lemma AsType_custom [simp]: "errors_AsType is_StatusError (CustomStatus t s) = Some (CustomStatus t s)"
  by (simp add: errors_AsType.simps is_StatusError_def)

lemma AsType_plain [simp]:
  "errors_AsType is_StatusError (Plain t) = None"
  "errors_AsType is_StatusError (MaxBytesError n) = None"
  by (simp_all add: errors_AsType.simps is_StatusError_def)

lemma AsType_wrapped [simp]:
  "errors_AsType is_StatusError (Wrapped t e) = errors_AsType is_StatusError e"
  by (simp add: errors_AsType.simps [of _ "Wrapped t e"] is_StatusError_def split: option.splits)

lemma AsType_status: "errors_AsType is_StatusError e = Some x \<Longrightarrow> \<exists>s. web_Status x = Some s"
  using AsType_sound(1) [of is_StatusError e x] by (auto simp: is_StatusError_def)

end
