(* ===== verification/Gx_Web_Writer.thy ===== *)
theory Gx_Web_Writer imports Gx_Web_Error begin

text \<open>
  The \<open>responseWriter\<close> of \<open>web/context.go\<close>: the writer around an \<open>http.ResponseWriter\<close> that
  remembers whether the header has been written. The wrapped writer is described by which
  optional interfaces it has and what its methods return, and by the log of the calls made
  on it, each with the header map at that moment. The methods of one writer are called one
  at a time, as \<open>http.ResponseWriter\<close> demands, so a compare-and-swap is a test and a set.
\<close>

section \<open>The wrapped writer\<close>

type_synonym header = "string \<rightharpoonup> string"

datatype wcall = CWriteHeader int | CWrite string | CFlush | CHijack | CPush string | CTooLarge

record underlying =
  u_Flusher :: bool
  u_Hijacker :: "web_error option option"
  u_Pusher :: "(string \<Rightarrow> web_error option) option"
  u_Write :: "(wcall \<times> header) list \<Rightarrow> string \<Rightarrow> int \<times> web_error option"

record responseWriter =
  rw_header :: header
  rw_calls :: "(wcall \<times> header) list"
  headerWritten :: bool

definition wrap_writer :: "header \<Rightarrow> responseWriter" where
  "wrap_writer h = \<lparr>rw_header = h, rw_calls = [], headerWritten = False\<rparr>"

definition rw_call :: "wcall \<Rightarrow> responseWriter \<Rightarrow> responseWriter" where
  "rw_call c w = w\<lparr>rw_calls := rw_calls w @ [(c, rw_header w)]\<rparr>"

definition header_Set :: "string \<Rightarrow> string \<Rightarrow> responseWriter \<Rightarrow> responseWriter" where
  "header_Set k v w = w\<lparr>rw_header := (rw_header w)(k \<mapsto> v)\<rparr>"

section \<open>Methods\<close>

definition rw_Flush :: "underlying \<Rightarrow> responseWriter \<Rightarrow> responseWriter" where
  "rw_Flush u w = (if u_Flusher u then rw_call CFlush (w\<lparr>headerWritten := True\<rparr>) else w)"

definition rw_Hijack :: "underlying \<Rightarrow> responseWriter \<Rightarrow> responseWriter \<times> web_error option" where
  "rw_Hijack u w =
     (case u_Hijacker u of
        None \<Rightarrow> (w, Some (Plain ''hijacker not supported''))
      | Some r \<Rightarrow> (rw_call CHijack w, r))"

definition rw_Push :: "underlying \<Rightarrow> string \<Rightarrow> responseWriter \<Rightarrow> responseWriter \<times> web_error option" where
  "rw_Push u target w =
     (case u_Pusher u of
        Some p \<Rightarrow> (rw_call (CPush target) w, p target)
      | None \<Rightarrow> (w, Some (Plain ''feature not supported'')))"

definition rw_Write :: "underlying \<Rightarrow> string \<Rightarrow> responseWriter \<Rightarrow> responseWriter \<times> int \<times> web_error option" where
  "rw_Write u b w =
     (let w = (if \<not> headerWritten w then rw_call (CWriteHeader 200) (w\<lparr>headerWritten := True\<rparr>) else w)
      in (rw_call (CWrite b) w, u_Write u (rw_calls w) b))"

definition rw_WriteHeader :: "int \<Rightarrow> responseWriter \<Rightarrow> responseWriter" where
  "rw_WriteHeader status w =
     (if status \<ge> 100 \<and> status < 200 \<and> status \<noteq> 101 then
        if \<not> headerWritten w then rw_call (CWriteHeader status) w else w
      else if \<not> headerWritten w then rw_call (CWriteHeader status) (w\<lparr>headerWritten := True\<rparr>)
      else w)"

text \<open>
  The calls a user of the writer can make, the header map included. The last one is
  made by the reader of \<open>Bind\<close>, on the wrapped writer, when the body is over its limit.
\<close>

datatype wop =
    OHeader string string
  | OWriteHeader int
  | OWrite string
  | OFlush
  | OHijack
  | OPush string
  | OTooLarge

fun wop_step :: "underlying \<Rightarrow> wop \<Rightarrow> responseWriter \<Rightarrow> responseWriter" where
  "wop_step u (OHeader k v) w = header_Set k v w"
| "wop_step u (OWriteHeader s) w = rw_WriteHeader s w"
| "wop_step u (OWrite b) w = fst (rw_Write u b w)"
| "wop_step u OFlush w = rw_Flush u w"
| "wop_step u OHijack w = fst (rw_Hijack u w)"
| "wop_step u (OPush t) w = fst (rw_Push u t w)"
| "wop_step u OTooLarge w = rw_call CTooLarge w"

definition wop_run :: "underlying \<Rightarrow> wop list \<Rightarrow> responseWriter \<Rightarrow> responseWriter" where
  "wop_run u ops w = fold (wop_step u) ops w"

section \<open>What the client receives\<close>

text \<open>
  How \<open>net/http\<close> reads a log of calls: 1xx codes other than 101 are sent on their own; the
  head of the response is fixed by the first other \<open>WriteHeader\<close>, or by a \<open>Write\<close> or
  \<open>Flush\<close> that comes before it, which means 200; a later \<open>WriteHeader\<close> is superfluous.
\<close>

definition informational :: "int \<Rightarrow> bool" where
  "informational s \<longleftrightarrow> 100 \<le> s \<and> s \<le> 199 \<and> s \<noteq> 101"

fun commits :: "wcall \<Rightarrow> int option" where
  "commits (CWriteHeader s) = (if informational s then None else Some s)"
| "commits (CWrite b) = Some 200"
| "commits CFlush = Some 200"
| "commits CHijack = None"
| "commits (CPush t) = None"
| "commits CTooLarge = None"

fun sent_head :: "(wcall \<times> header) list \<Rightarrow> (int \<times> header) option" where
  "sent_head [] = None"
| "sent_head ((c, h) # cs) = (case commits c of None \<Rightarrow> sent_head cs | Some s \<Rightarrow> Some (s, h))"

fun is_WriteHeader :: "wcall \<Rightarrow> bool" where
  "is_WriteHeader (CWriteHeader s) = True"
| "is_WriteHeader _ = False"

fun no_superfluous :: "(wcall \<times> header) list \<Rightarrow> bool" where
  "no_superfluous [] = True"
| "no_superfluous ((c, h) # cs) =
     (if commits c = None then no_superfluous cs else list_all (\<lambda>(c, _). \<not> is_WriteHeader c) cs)"

definition sent_body :: "(wcall \<times> header) list \<Rightarrow> string" where
  "sent_body cs = concat (map (\<lambda>(c, _). case c of CWrite b \<Rightarrow> b | _ \<Rightarrow> []) cs)"

text \<open>
  The reference: which operation of the user decides the head, and with which header map.
\<close>

fun intended_head :: "underlying \<Rightarrow> header \<Rightarrow> wop list \<Rightarrow> (int \<times> header) option" where
  "intended_head u h [] = None"
| "intended_head u h (OHeader k v # ops) = intended_head u (h(k \<mapsto> v)) ops"
| "intended_head u h (OWriteHeader s # ops) = (if informational s then intended_head u h ops else Some (s, h))"
| "intended_head u h (OWrite b # ops) = Some (200, h)"
| "intended_head u h (OFlush # ops) = (if u_Flusher u then Some (200, h) else intended_head u h ops)"
| "intended_head u h (OHijack # ops) = intended_head u h ops"
| "intended_head u h (OPush t # ops) = intended_head u h ops"
| "intended_head u h (OTooLarge # ops) = intended_head u h ops"

definition intended_body :: "wop list \<Rightarrow> string" where
  "intended_body ops = concat (map (\<lambda>c. case c of OWrite b \<Rightarrow> b | _ \<Rightarrow> []) ops)"

section \<open>The writer keeps the protocol\<close>

definition rw_ok :: "responseWriter \<Rightarrow> bool" where
  "rw_ok w \<longleftrightarrow> no_superfluous (rw_calls w) \<and> (headerWritten w \<longleftrightarrow> sent_head (rw_calls w) \<noteq> None)"

lemmas rw_defs = rw_call_def header_Set_def rw_Flush_def rw_Hijack_def rw_Push_def rw_Write_def
  rw_WriteHeader_def Let_def

lemma sent_head_append:
  "sent_head (xs @ ys) = (case sent_head xs of None \<Rightarrow> sent_head ys | Some r \<Rightarrow> Some r)"
  by (induction xs rule: sent_head.induct) (auto split: option.splits)

lemma no_superfluous_append:
  "no_superfluous (xs @ ys) \<longleftrightarrow> no_superfluous xs \<and>
     (if sent_head xs = None then no_superfluous ys else list_all (\<lambda>(c, _). \<not> is_WriteHeader c) ys)"
  by (induction xs rule: no_superfluous.induct) (auto split: option.splits)

lemma sent_body_append [simp]: "sent_body (xs @ ys) = sent_body xs @ sent_body ys"
  by (simp add: sent_body_def)

lemma sent_body_simps [simp]:
  "sent_body [] = []"
  "sent_body ((c, h) # cs) = (case c of CWrite b \<Rightarrow> b | _ \<Rightarrow> []) @ sent_body cs"
  by (simp_all add: sent_body_def)

lemma rw_ok_wrap [simp]: "rw_ok (wrap_writer h)"
  by (simp add: rw_ok_def wrap_writer_def)

lemma rw_ok_step: "rw_ok w \<Longrightarrow> rw_ok (wop_step u op w)"
  by (cases op)
    (auto simp: rw_ok_def rw_defs sent_head_append no_superfluous_append informational_def
      split: option.splits)

lemma rw_ok_run: "rw_ok w \<Longrightarrow> rw_ok (wop_run u ops w)"
  unfolding wop_run_def by (induction ops arbitrary: w) (simp_all add: rw_ok_step)

lemma head_frozen_step:
  "sent_head (rw_calls w) = Some r \<Longrightarrow> sent_head (rw_calls (wop_step u op w)) = Some r"
  by (cases op) (auto simp: rw_defs sent_head_append split: option.splits)

lemma head_frozen:
  "sent_head (rw_calls w) = Some r \<Longrightarrow> sent_head (rw_calls (wop_run u ops w)) = Some r"
  unfolding wop_run_def by (induction ops arbitrary: w) (simp_all add: head_frozen_step)

lemma head_intended:
  "rw_ok w \<Longrightarrow> \<not> headerWritten w \<Longrightarrow>
     sent_head (rw_calls (wop_run u ops w)) = intended_head u (rw_header w) ops"
proof (induction ops arbitrary: w)
  case Nil
  then have "sent_head (rw_calls w) = None"
    by (cases "sent_head (rw_calls w)") (simp_all add: rw_ok_def)
  then show ?case by (simp add: wop_run_def)
next
  case (Cons op ops)
  let ?w = "wop_step u op w"
  have run: "wop_run u (op # ops) w = wop_run u ops ?w"
    by (simp add: wop_run_def)
  have ok: "rw_ok ?w"
    by (rule rw_ok_step [OF Cons.prems(1)])
  have none: "sent_head (rw_calls w) = None"
    using Cons.prems by (cases "sent_head (rw_calls w)") (simp_all add: rw_ok_def)
  show ?case
  proof (cases "headerWritten ?w")
    case True
    then obtain r where "sent_head (rw_calls ?w) = Some r" "intended_head u (rw_header w) (op # ops) = Some r"
      using Cons.prems(2) none
      by (cases op) (auto simp: rw_defs sent_head_append informational_def split: option.splits if_splits)
    then show ?thesis
      by (simp add: run head_frozen)
  next
    case False
    then have "intended_head u (rw_header w) (op # ops) = intended_head u (rw_header ?w) ops"
      using Cons.prems(2)
      by (cases op) (auto simp: rw_defs informational_def split: option.splits if_splits)
    then show ?thesis
      using Cons.IH [OF ok False] by (simp add: run)
  qed
qed

lemma body_step: "sent_body (rw_calls (wop_step u op w)) = sent_body (rw_calls w) @ intended_body [op]"
  by (cases op) (auto simp: rw_defs intended_body_def split: option.splits)

lemma body_run: "sent_body (rw_calls (wop_run u ops w)) = sent_body (rw_calls w) @ intended_body ops"
proof (induction ops arbitrary: w)
  case (Cons op ops)
  have "wop_run u (op # ops) w = wop_run u ops (wop_step u op w)"
    by (simp add: wop_run_def)
  then show ?case
    by (simp add: Cons.IH body_step) (simp add: intended_body_def)
qed (simp add: wop_run_def intended_body_def)

section \<open>Properties\<close>

text \<open>
  C22: Whatever a handler does with its writer, in whatever order, the wrapped writer sees a
  well-formed response: no superfluous \<open>WriteHeader\<close>, and a head that is the one asked for
  first, namely the first status code that is not informational, or 200 if a \<open>Write\<close> or an
  effective \<open>Flush\<close> came before, with the header map of that moment. The body is what was
  written, in order, and \<open>headerWritten\<close> tells exactly whether the head is fixed.
\<close>

theorem web_writer_protocol:
  "let w = wop_run u ops (wrap_writer h)
   in no_superfluous (rw_calls w) \<and>
      sent_head (rw_calls w) = intended_head u h ops \<and>
      sent_body (rw_calls w) = intended_body ops \<and>
      (headerWritten w \<longleftrightarrow> intended_head u h ops \<noteq> None)"
proof -
  have "rw_ok (wop_run u ops (wrap_writer h))"
    by (simp add: rw_ok_run)
  moreover have "sent_head (rw_calls (wop_run u ops (wrap_writer h))) = intended_head u h ops"
    using head_intended [of "wrap_writer h" u ops] by (simp add: wrap_writer_def rw_ok_def)
  ultimately show ?thesis
    by (simp add: Let_def rw_ok_def body_run) (simp add: wrap_writer_def)
qed

end
