(* ===== verification/Gx_Web_Context.thy ===== *)
theory Gx_Web_Context imports Gx_Web_Writer begin

text \<open>
  The \<open>Context\<close> of \<open>web/context.go\<close>: the request with its context values, the options, and
  the response writer. The writer and the log are shared by the contexts made for one
  request, and \<open>c_app\<close> is the state the handlers of an application share, so they are the part
  of the state that is handed on. Outside services are decoders and the
  fields of \<open>web_env\<close>: the wrapped writer, the JSON encoder, and the resolution
  of a relative URL in \<open>http.Redirect\<close>.
\<close>

section \<open>Data\<close>

text \<open>
  The bytes of a body, and how it ends: \<open>None\<close> is the end of the file. A request carries the
  values of its context and those of the wildcards of its route.
\<close>

record body =
  bd_data :: string
  bd_end :: "web_error option"

record request =
  rq_Method :: string
  rq_Host :: string
  rq_RequestURI :: string
  rq_Proto :: string
  rq_RemoteAddr :: string
  rq_TLS :: bool
  rq_ContentType :: string
  rq_query :: "string list"
  rq_Body :: body
  rq_values :: "(string \<times> string) list"
  rq_path :: "(string \<times> string) list"

text \<open>
  A value for the JSON encoder: what the code builds of maps, structs (as their members),
  slices and basic types, a time by its instant, and any other value by a number.
\<close>

datatype json_value =
    JNull
  | JBool bool
  | JNum int
  | JString string
  | JTime int
  | JList "json_value list"
  | JObject "(string \<times> json_value) list"
  | JValue nat

abbreviation JErrorMap :: "string \<Rightarrow> json_value" where
  "JErrorMap txt \<equiv> JObject [(''error'', JString txt)]"

text \<open>
  \<open>json.UnmarshalRead\<close> for the type of its target: the value or the error, and whether the
  body was read to its end.
\<close>

type_synonym 'v decoder = "body \<Rightarrow> (web_error + 'v) \<times> bool"

record web_env =
  we_writer :: underlying
  we_Marshal :: "bool \<Rightarrow> json_value \<Rightarrow> web_error + string"
  we_resolve :: "request \<Rightarrow> string \<Rightarrow> string"

datatype log_level = LevelInfo | LevelWarn | LevelError

type_synonym log_entry = "log_level \<times> string \<times> string option"

record context_options =
  co_errorHandler :: "nat option"
  co_logger :: bool
  co_logPrefix :: string
  co_maxReadSize :: int

record 'w wctx =
  c_Request :: request
  c_values :: "(string \<times> string) list"
  c_opts :: context_options
  c_writer :: responseWriter
  c_log :: "log_entry list"
  c_app :: 'w

definition DefaultMaxReadSize :: int where
  "DefaultMaxReadSize = 5 * 1024 * 1024"

text \<open>The \<open>http.ResponseWriter\<close> a context is made from: a bare one, or one made here before.\<close>

datatype http_writer = Bare header | Own responseWriter

definition newContext ::
  "http_writer \<Rightarrow> request \<Rightarrow> context_options \<Rightarrow> log_entry list \<Rightarrow> 'w \<Rightarrow> 'w wctx" where
  "newContext w r opts log app =
     \<lparr>c_Request = r, c_values = rq_values r, c_opts = opts,
      c_writer = (case w of Own rw \<Rightarrow> rw | Bare h \<Rightarrow> wrap_writer h), c_log = log, c_app = app\<rparr>"

definition NewContext :: "http_writer \<Rightarrow> request \<Rightarrow> log_entry list \<Rightarrow> 'w \<Rightarrow> 'w wctx" where
  "NewContext w r log app =
     newContext w r \<lparr>co_errorHandler = None, co_logger = False, co_logPrefix = [],
       co_maxReadSize = DefaultMaxReadSize\<rparr> log app"

section \<open>Context values\<close>

definition c_Get :: "string \<Rightarrow> 'w wctx \<Rightarrow> string option" where
  "c_Get key c = map_of (c_values c) key"

definition c_Set :: "string \<Rightarrow> string \<Rightarrow> 'w wctx \<Rightarrow> 'w wctx" where
  "c_Set key v c =
     (let ctx = (key, v) # c_values c
      in c\<lparr>c_values := ctx, c_Request := (c_Request c)\<lparr>rq_values := ctx\<rparr>\<rparr>)"

lemma c_Get_Set: "c_Get k (c_Set key v c) = (if k = key then Some v else c_Get k c)"
  by (simp add: c_Get_def c_Set_def Let_def)

definition c_Context :: "'w wctx \<Rightarrow> (string \<times> string) list" where
  "c_Context c = c_values c"

definition c_Writer :: "'w wctx \<Rightarrow> responseWriter" where
  "c_Writer c = c_writer c"

text \<open>\<open>PathValue\<close> of the request; empty for a name the route does not have.\<close>

definition c_PathValue :: "string \<Rightarrow> 'w wctx \<Rightarrow> string" where
  "c_PathValue name c = (case map_of (rq_path (c_Request c)) name of None \<Rightarrow> [] | Some v \<Rightarrow> v)"

section \<open>Responses\<close>

definition c_put :: "responseWriter \<Rightarrow> 'w wctx \<Rightarrow> 'w wctx" where
  "c_put w c = c\<lparr>c_writer := w\<rparr>"

definition c_Status :: "int \<Rightarrow> 'w wctx \<Rightarrow> 'w wctx" where
  "c_Status status c = c_put (rw_WriteHeader status (c_writer c)) c"

definition c_Write :: "web_env \<Rightarrow> string \<Rightarrow> 'w wctx \<Rightarrow> 'w wctx \<times> web_error option" where
  "c_Write E b c = (let (w, n, err) = rw_Write (we_writer E) b (c_writer c) in (c_put w c, err))"

text \<open>The optional \<open>status ...int\<close> argument of the writers below.\<close>

definition c_opt_Status :: "int list \<Rightarrow> 'w wctx \<Rightarrow> 'w wctx" where
  "c_opt_Status status c = (if length status > 0 then c_Status (hd status) c else c)"

definition c_HTML :: "web_env \<Rightarrow> string \<Rightarrow> int list \<Rightarrow> 'w wctx \<Rightarrow> 'w wctx \<times> web_error option" where
  "c_HTML E s status c =
     (let c = c_put (header_Set ''Content-Type'' ''text/html; charset=utf-8'' (c_writer c)) c;
          c = c_opt_Status status c
      in c_Write E s c)"

definition c_String :: "web_env \<Rightarrow> string \<Rightarrow> int list \<Rightarrow> 'w wctx \<Rightarrow> 'w wctx \<times> web_error option" where
  "c_String E s status c =
     (let c = c_put (header_Set ''Content-Type'' ''text/plain; charset=utf-8'' (c_writer c)) c;
          c = c_opt_Status status c
      in c_Write E s c)"

definition c_JSON :: "web_env \<Rightarrow> json_value \<Rightarrow> int list \<Rightarrow> 'w wctx \<Rightarrow> 'w wctx \<times> web_error option" where
  "c_JSON E v status c =
     (case we_Marshal E (''pretty'' \<in> set (rq_query (c_Request c))) v of
        Inl err \<Rightarrow> (c, Some err)
      | Inr data \<Rightarrow>
          (let c = c_put (header_Set ''Content-Type'' ''application/json'' (c_writer c)) c;
               c = c_opt_Status status c
           in c_Write E data c))"

text \<open>\<open>http.Redirect\<close> on the resolved URL.\<close>

definition hex_digit :: "nat \<Rightarrow> char" where
  "hex_digit n = (if n < 10 then char_of (48 + n) else char_of (87 + n))"

definition hexEscapeNonASCII :: "string \<Rightarrow> string" where
  "hexEscapeNonASCII s =
     concat (map (\<lambda>c. let n = of_char c :: nat in
       if n \<ge> 128 then [CHR ''%'', hex_digit (n div 16), hex_digit (n mod 16)] else [c]) s)"

definition htmlEscape :: "string \<Rightarrow> string" where
  "htmlEscape s =
     concat (map (\<lambda>c. if c = CHR ''&'' then ''&amp;'' else if c = CHR ''<'' then ''&lt;''
       else if c = CHR ''>'' then ''&gt;'' else if c = CHR 0x22 then ''&#34;''
       else if c = CHR 0x27 then ''&#39;'' else [c]) s)"

definition http_Redirect :: "web_env \<Rightarrow> request \<Rightarrow> string \<Rightarrow> int \<Rightarrow> responseWriter \<Rightarrow> responseWriter" where
  "http_Redirect E r url code w =
     (let url = we_resolve E r url;
          hadCT = (rw_header w ''Content-Type'' \<noteq> None);
          w = header_Set ''Location'' (hexEscapeNonASCII url) w;
          w = (if \<not> hadCT \<and> (rq_Method r = ''GET'' \<or> rq_Method r = ''HEAD'')
               then header_Set ''Content-Type'' ''text/html; charset=utf-8'' w else w);
          w = rw_WriteHeader code w
      in if \<not> hadCT \<and> rq_Method r = ''GET''
         then fst (rw_Write (we_writer E)
                (''<a href='' @ [CHR 0x22] @ htmlEscape url @ [CHR 0x22] @ ''>'' @ StatusText code @ ''</a>.'' @
                 [char_of (10 :: nat), char_of (10 :: nat)]) w)
         else w)"

definition c_Redirect :: "web_env \<Rightarrow> string \<Rightarrow> int list \<Rightarrow> 'w wctx \<Rightarrow> 'w wctx" where
  "c_Redirect E url status c =
     (let httpStatus = (if length status > 0 then hd status else 303)
      in c_put (http_Redirect E (c_Request c) url httpStatus (c_writer c)) c)"

definition responseWritten :: "'w wctx \<Rightarrow> bool" where
  "responseWritten c = headerWritten (c_writer c)"

section \<open>Binding a request body\<close>

text \<open>
  \<open>http.MaxBytesReader\<close>: at most the limit is passed on; if the body has more, the reader
  ends with a \<open>MaxBytesError\<close> and, when it is read to that point, tells the writer.
\<close>

definition MaxBytesReader :: "int \<Rightarrow> body \<Rightarrow> body" where
  "MaxBytesReader limit b =
     (if int (length (bd_data b)) \<le> limit then b
      else \<lparr>bd_data = take (nat limit) (bd_data b), bd_end = Some (MaxBytesError limit)\<rparr>)"

definition CutPrefix :: "string \<Rightarrow> string \<Rightarrow> string \<times> bool" where
  "CutPrefix s p = (if prefix p s then (drop (length p) s, True) else (s, False))"

definition json_content_type :: "string \<Rightarrow> bool" where
  "json_content_type header =
     (let contentType = ToLower (TrimSpace header);
          (suf, isJSONContentType) = CutPrefix contentType ''application/json''
      in \<not> (\<not> isJSONContentType \<or> (suf \<noteq> [] \<and> \<not> prefix '';'' (TrimSpace suf))))"

definition c_bind :: "'v decoder \<Rightarrow> bool \<Rightarrow> 'w wctx \<Rightarrow> 'w wctx \<times> (web_error + 'v)" where
  "c_bind decode validateContentType c =
     (if validateContentType \<and> \<not> json_content_type (rq_ContentType (c_Request c))
      then (c, Inl (web_Error 400 ''invalid content type, expected application/json''))
      else
        let limit = co_maxReadSize (c_opts c);
            r = (if limit > 0 then MaxBytesReader limit (rq_Body (c_Request c)) else rq_Body (c_Request c));
            (res, at_end) = decode r;
            c = (if limit > 0 \<and> int (length (bd_data (rq_Body (c_Request c)))) > limit \<and> at_end
                 then c_put (rw_call CTooLarge (c_writer c)) c else c)
        in case res of
             Inr v \<Rightarrow> (c, Inr v)
           | Inl err \<Rightarrow>
               if errors_AsType is_MaxBytesError err \<noteq> None
               then (c, Inl (statusError err 413))
               else (c, Inl (web_Error 400 ''invalid json body'')))"

definition c_Bind :: "'v decoder \<Rightarrow> 'w wctx \<Rightarrow> 'w wctx \<times> (web_error + 'v)" where
  "c_Bind decode c = c_bind decode True c"

definition c_BindAnyContentType :: "'v decoder \<Rightarrow> 'w wctx \<Rightarrow> 'w wctx \<times> (web_error + 'v)" where
  "c_BindAnyContentType decode c = c_bind decode False c"

section \<open>Logging\<close>

definition requestURL :: "'w wctx \<Rightarrow> string" where
  "requestURL c =
     (let scheme = (if rq_TLS (c_Request c) then ''https'' else ''http'')
      in scheme @ ''://'' @ rq_Host (c_Request c) @ rq_RequestURI (c_Request c))"

definition request_line :: "'w wctx \<Rightarrow> string" where
  "request_line c =
     co_logPrefix (c_opts c) @ '': '' @ rq_Method (c_Request c) @ '' '' @ requestURL c @ '' '' @
     rq_Proto (c_Request c) @ '' from '' @ rq_RemoteAddr (c_Request c)"

definition logError :: "int \<Rightarrow> web_error \<Rightarrow> 'w wctx \<Rightarrow> 'w wctx" where
  "logError status err c =
     (if \<not> co_logger (c_opts c) then c
      else let level = (if status \<ge> 400 \<and> status < 500 then LevelWarn else LevelError)
           in c\<lparr>c_log := c_log c @
                [(level, request_line c @ '' ('' @ Itoa status @ '')'', Some (web_Error_text err))]\<rparr>)"

definition logErrorResponseWrite :: "web_error \<Rightarrow> 'w wctx \<Rightarrow> 'w wctx" where
  "logErrorResponseWrite err c =
     (if \<not> co_logger (c_opts c) then c
      else c\<lparr>c_log := c_log c @
             [(LevelError, co_logPrefix (c_opts c) @ '': failed to write error response'',
               Some (web_Error_text err))]\<rparr>)"

definition logRequest :: "'w wctx \<Rightarrow> 'w wctx" where
  "logRequest c =
     (if \<not> co_logger (c_opts c) then c
      else c\<lparr>c_log := c_log c @ [(LevelInfo, request_line c, None)]\<rparr>)"

section \<open>Facts\<close>

text \<open>
  What \<open>Bind\<close> accepts as a content type: the media type alone, or followed by parameters,
  with white space before the semicolon.
\<close>

definition json_media :: "string \<Rightarrow> bool" where
  "json_media t \<longleftrightarrow>
     t = ''application/json'' \<or>
     (\<exists>ws params. t = ''application/json'' @ ws @ CHR '';'' # params \<and> trim_left ws = [])"

lemma json_content_type_iff: "json_content_type header \<longleftrightarrow> json_media (ToLower (TrimSpace header))"
proof -
  have "\<forall>r \<in> set space_runes. CHR '';'' \<notin> set r"
    by code_simp
  note starts = TrimSpace_starts [OF this]
  show ?thesis
  proof (cases "prefix ''application/json'' (ToLower (TrimSpace header))")
    case True
    then obtain suf where suf: "ToLower (TrimSpace header) = ''application/json'' @ suf"
      by (auto simp: prefix_def)
    then have "json_content_type header \<longleftrightarrow> suf = [] \<or> prefix [CHR '';''] (TrimSpace suf)"
      by (simp add: json_content_type_def CutPrefix_def Let_def)
    then show ?thesis
      using suf by (simp add: starts json_media_def)
  next
    case False
    then show ?thesis
      by (auto simp: json_content_type_def CutPrefix_def Let_def json_media_def)
  qed
qed

text \<open>Every response method is a sequence of calls of the writer.\<close>

definition writes :: "web_env \<Rightarrow> responseWriter \<Rightarrow> responseWriter \<Rightarrow> bool" where
  "writes E w w' \<longleftrightarrow> (\<exists>ops. w' = wop_run (we_writer E) ops w)"

lemma writes_refl [simp, intro]: "writes E w w"
  unfolding writes_def by (intro exI [of _ "[]"]) (simp add: wop_run_def)

lemma writes_trans [trans]: "writes E a b \<Longrightarrow> writes E b c \<Longrightarrow> writes E a c"
  unfolding writes_def wop_run_def by (metis comp_apply fold_append)

lemma writes_op: "writes E w (wop_step (we_writer E) op w)"
  unfolding writes_def by (intro exI [of _ "[op]"]) (simp add: wop_run_def)

lemma writes_WriteHeader: "writes E w (rw_WriteHeader s w)"
  using writes_op [of E w "OWriteHeader s"] by simp

lemma writes_Set: "writes E w (header_Set k v w)"
  using writes_op [of E w "OHeader k v"] by simp

lemma writes_Write: "writes E w (fst (rw_Write (we_writer E) b w))"
  using writes_op [of E w "OWrite b"] by simp

lemma writes_ok: "writes E w w' \<Longrightarrow> rw_ok w \<Longrightarrow> rw_ok w'"
  by (auto simp: writes_def rw_ok_run)

lemma writes_c_Write: "writes E (c_writer c) (c_writer (fst (c_Write E b c)))"
  using writes_Write [of E "c_writer c" b]
  by (cases "rw_Write (we_writer E) b (c_writer c)") (simp add: c_Write_def c_put_def)

lemma writes_opt_Status: "writes E (c_writer c) (c_writer (c_opt_Status status c))"
  by (simp add: c_opt_Status_def c_Status_def c_put_def writes_WriteHeader)

lemma c_writer_put [simp]: "c_writer (c_put w c) = w"
  by (simp add: c_put_def)

lemma writes_HTML: "writes E (c_writer c) (c_writer (fst (c_HTML E s status c)))"
  unfolding c_HTML_def Let_def
  by (rule writes_trans [OF writes_trans [OF _ writes_opt_Status] writes_c_Write]) (simp add: writes_Set)

lemma writes_String: "writes E (c_writer c) (c_writer (fst (c_String E s status c)))"
  unfolding c_String_def Let_def
  by (rule writes_trans [OF writes_trans [OF _ writes_opt_Status] writes_c_Write]) (simp add: writes_Set)

lemma writes_JSON: "writes E (c_writer c) (c_writer (fst (c_JSON E v status c)))"
proof (cases "we_Marshal E (''pretty'' \<in> set (rq_query (c_Request c))) v")
  case (Inr data)
  have "writes E (c_writer c) (c_writer (fst (c_Write E data (c_opt_Status status
      (c_put (header_Set ''Content-Type'' ''application/json'' (c_writer c)) c)))))"
    by (rule writes_trans [OF writes_trans [OF _ writes_opt_Status] writes_c_Write]) (simp add: writes_Set)
  then show ?thesis using Inr by (simp add: c_JSON_def Let_def)
qed (simp add: c_JSON_def)

lemma writes_Redirect: "writes E (c_writer c) (c_writer (c_Redirect E url status c))"
  unfolding c_Redirect_def http_Redirect_def Let_def c_writer_put
  by (auto intro: writes_trans [OF writes_Set] writes_trans [OF writes_WriteHeader] writes_WriteHeader
      writes_Write writes_trans [OF writes_trans [OF writes_Set writes_Set]]
      writes_trans [OF writes_trans [OF writes_trans [OF writes_Set writes_Set] writes_WriteHeader]])

lemma writes_bind: "writes E (c_writer c) (c_writer (fst (c_bind decode check c)))"
  using writes_op [of E "c_writer c" OTooLarge]
  by (simp add: c_bind_def Let_def split: prod.split sum.split)

section \<open>Properties\<close>

text \<open>
  C23: \<open>Bind\<close> never touches the response and has one outcome per case. A content type other
  than \<open>application/json\<close> with optional parameters is refused with 400 before the body is
  read. Otherwise the decoder sees at most the configured number of bytes; its value is
  returned, an error with a \<open>MaxBytesError\<close> in its tree becomes 413 and wraps it, any other
  becomes 400. A body over the limit never binds, if the decoder reads to the end and fails
  when reading fails, as \<open>json.UnmarshalRead\<close> documents.
\<close>

theorem web_bind_outcomes:
  assumes reports: "\<forall>b err. bd_end b = Some err \<longrightarrow> (\<exists>x. fst (decode b) = Inl x)"
  shows "let (c', res) = c_bind decode check c;
             limit = co_maxReadSize (c_opts c);
             whole = rq_Body (c_Request c);
             seen = (if limit > 0 then MaxBytesReader limit whole else whole)
         in sent_head (rw_calls (c_writer c')) = sent_head (rw_calls (c_writer c)) \<and>
            sent_body (rw_calls (c_writer c')) = sent_body (rw_calls (c_writer c)) \<and>
            (limit > 0 \<longrightarrow> int (length (bd_data seen)) \<le> limit) \<and>
            (if check \<and> \<not> json_media (ToLower (TrimSpace (rq_ContentType (c_Request c))))
             then c' = c \<and> (\<exists>e. res = Inl e \<and> web_Status e = Some 400)
             else case fst (decode seen) of
                    Inr v \<Rightarrow> res = Inr v \<and> (limit > 0 \<longrightarrow> int (length (bd_data whole)) \<le> limit)
                  | Inl err \<Rightarrow> (\<exists>e. res = Inl e \<and>
                      (if errors_AsType is_MaxBytesError err \<noteq> None then e = statusError err 413
                       else web_Status e = Some 400)))"
proof -
  let ?limit = "co_maxReadSize (c_opts c)" and ?whole = "rq_Body (c_Request c)"
  have fits: "int (length (bd_data ?whole)) \<le> ?limit"
    if "fst (decode (MaxBytesReader ?limit ?whole)) = Inr v" for v
  proof (rule ccontr)
    assume "\<not> int (length (bd_data ?whole)) \<le> ?limit"
    then have "bd_end (MaxBytesReader ?limit ?whole) = Some (MaxBytesError ?limit)"
      by (simp add: MaxBytesReader_def)
    then show False
      using reports that by (metis Inl_Inr_False)
  qed
  have short: "0 < ?limit \<Longrightarrow> int (length (bd_data (MaxBytesReader ?limit ?whole))) \<le> ?limit"
    by (simp add: MaxBytesReader_def)
  have quiet: "sent_head (rw_calls (rw_call CTooLarge w)) = sent_head (rw_calls w)"
    "sent_body (rw_calls (rw_call CTooLarge w)) = sent_body (rw_calls w)" for w
    by (simp_all add: rw_call_def sent_head_append split: option.split)
  show ?thesis
  proof (cases "check \<and> \<not> json_content_type (rq_ContentType (c_Request c))")
    case True
    then show ?thesis
      using short by (simp add: c_bind_def json_content_type_iff web_Error_def Let_def)
  next
    case False
    let ?seen = "if ?limit > 0 then MaxBytesReader ?limit ?whole else ?whole"
    obtain res at_end where r: "decode ?seen = (res, at_end)"
      by fastforce
    show ?thesis
      using False short r fits
      by (cases res) (auto simp: c_bind_def json_content_type_iff web_Error_def Let_def quiet split: if_splits)
  qed
qed

text \<open>A decoder that accepts the body \<open>7\<close> alone and reports how reading ended.\<close>

definition example_decode :: "nat decoder" where
  "example_decode b =
     (case bd_end b of
        None \<Rightarrow> (if bd_data b = ''7'' then Inr 7 else Inl (Plain ''syntax''), True)
      | Some e \<Rightarrow> (Inl (Wrapped ''read'' e), True))"

definition example_env :: web_env where
  "example_env =
     \<lparr>we_writer = \<lparr>u_Flusher = True, u_Hijacker = None, u_Pusher = None, u_Write = (\<lambda>cs b. (int (length b), None))\<rparr>,
      we_Marshal = (\<lambda>pretty v. Inr ''7''),
      we_resolve = (\<lambda>r url. url)\<rparr>"

definition example_request :: "string \<Rightarrow> string \<Rightarrow> request" where
  "example_request ct data =
     \<lparr>rq_Method = ''POST'', rq_Host = ''h'', rq_RequestURI = ''/'', rq_Proto = ''HTTP/1.1'', rq_RemoteAddr = ''a'',
      rq_TLS = False, rq_ContentType = ct, rq_query = [], rq_Body = \<lparr>bd_data = data, bd_end = None\<rparr>,
      rq_values = [], rq_path = []\<rparr>"

definition example_ctx :: "int \<Rightarrow> string \<Rightarrow> string \<Rightarrow> unit wctx" where
  "example_ctx limit ct data =
     newContext (Bare Map.empty) (example_request ct data)
       \<lparr>co_errorHandler = None, co_logger = False, co_logPrefix = [], co_maxReadSize = limit\<rparr> [] ()"

lemma web_bind_outcomes_witness:
  "snd (c_bind example_decode False (example_ctx 2 [] ''777'')) =
     Inl (statusError (Wrapped ''read'' (MaxBytesError 2)) 413) \<and>
   snd (c_bind example_decode False (example_ctx 2 [] ''7'')) = Inr 7"
proof -
  have reports: "\<forall>b err. bd_end b = Some err \<longrightarrow> (\<exists>x. fst (example_decode b) = Inl x)"
    by (auto simp: example_decode_def)
  have "errors_AsType is_MaxBytesError (Wrapped ''read'' (MaxBytesError 2)) \<noteq> None"
    by (simp add: errors_AsType.simps is_MaxBytesError_def)
  then have "snd (c_bind example_decode False (example_ctx 2 [] ''777'')) =
     Inl (statusError (Wrapped ''read'' (MaxBytesError 2)) 413)"
    using web_bind_outcomes [where decode = example_decode and check = False and c = "example_ctx 2 [] ''777''", OF reports]
    by (cases "c_bind example_decode False (example_ctx 2 [] ''777'')")
      (simp add: Let_def example_decode_def example_ctx_def example_request_def newContext_def MaxBytesReader_def)
  moreover have "snd (c_bind example_decode False (example_ctx 2 [] ''7'')) = Inr 7"
    using web_bind_outcomes [where decode = example_decode and check = False and c = "example_ctx 2 [] ''7''", OF reports]
    by (cases "c_bind example_decode False (example_ctx 2 [] ''7'')")
      (simp add: Let_def example_decode_def example_ctx_def example_request_def newContext_def MaxBytesReader_def)
  ultimately show ?thesis ..
qed

end
