(* ===== verification/Gx_Web_Server.thy ===== *)
theory Gx_Web_Server imports Gx_Web_Context begin

text \<open>
  \<open>web/server.go\<close> and \<open>web/test.go\<close>: handlers and their errors, middleware, the server with
  its options and routes, and the path of a request through them. A handler is a function
  from a context to the context it leaves and its error; \<open>'w\<close> is the type of the state the
  handlers of an application share, which a request finds and leaves in its context. Outside services are the error
  handlers, named by a number, and \<open>http.ServeMux\<close>.
\<close>

section \<open>Handlers\<close>

type_synonym 'w handler = "'w wctx \<Rightarrow> 'w wctx \<times> web_error option"
type_synonym 'w middleware = "'w handler \<Rightarrow> 'w handler"
type_synonym 'w error_handlers = "nat \<Rightarrow> 'w wctx \<Rightarrow> web_error \<Rightarrow> 'w wctx"

definition as_status_error :: "web_error \<Rightarrow> web_error" where
  "as_status_error hErr =
     (case errors_AsType is_StatusError hErr of Some sErr \<Rightarrow> sErr | None \<Rightarrow> statusError hErr 500)"

definition response_status :: "web_error \<Rightarrow> int" where
  "response_status err =
     (let status = (case web_Status err of Some s \<Rightarrow> s | None \<Rightarrow> 0)
      in if status < 400 \<or> status > 599 then 500 else status)"

definition Serve :: "web_env \<Rightarrow> 'w error_handlers \<Rightarrow> 'w handler \<Rightarrow> 'w wctx \<Rightarrow> 'w wctx" where
  "Serve E EH h c =
     (case h c of
        (c, None) \<Rightarrow> c
      | (c, Some hErr) \<Rightarrow>
          (let err = as_status_error hErr;
               status = response_status err;
               c = logError status err c
           in if responseWritten c then c
              else case co_errorHandler (c_opts c) of
                     Some k \<Rightarrow> EH k c err
                   | None \<Rightarrow>
                       (case c_JSON E (JErrorMap (web_Error_text err)) [status] c of
                          (c, None) \<Rightarrow> c
                        | (c, Some e) \<Rightarrow> logErrorResponseWrite e c)))"

definition handler_ServeHTTP ::
  "web_env \<Rightarrow> 'w error_handlers \<Rightarrow> 'w handler \<Rightarrow> http_writer \<Rightarrow> request \<Rightarrow> log_entry list \<Rightarrow> 'w \<Rightarrow> 'w wctx" where
  "handler_ServeHTTP E EH h w r log app = Serve E EH h (NewContext w r log app)"

fun chain :: "'w handler \<Rightarrow> 'w middleware list \<Rightarrow> 'w handler" where
  "chain h [] = h"
| "chain h (m # ms) = chain (m h) ms"

section \<open>The server\<close>

record options =
  op_Addr :: string
  op_CertFile :: string
  op_CertKeyFile :: string
  op_IdleTimeout :: int
  op_Logger :: bool
  op_LogPrefix :: string
  op_ErrorHandler :: "nat option"
  op_MaxReadSize :: int
  op_MaxHeaderBytes :: int
  op_MaxHeaderValueCount :: int
  op_ReadHeaderTimeout :: int
  op_ReadTimeout :: int
  op_ShutdownTimeout :: int
  op_WriteTimeout :: int

record http_server =
  hs_Addr :: string
  hs_IdleTimeout :: int
  hs_MaxHeaderBytes :: int
  hs_MaxHeaderValueCount :: int
  hs_ReadHeaderTimeout :: int
  hs_ReadTimeout :: int
  hs_WriteTimeout :: int

text \<open>
  \<open>s_chain\<close> is the value of the \<open>sync.OnceValue\<close>: what the middleware makes of the handler
  that serves from the mux, fixed when it is first asked for.
\<close>

record 'w server =
  s_contextOpts :: context_options
  s_middleware :: "'w middleware list"
  s_chain :: "'w middleware option"
  s_mux :: "(string \<times> 'w handler) list"
  s_opts :: options
  s_server :: http_server
  s_stopping :: bool
  s_log :: "log_entry list"

definition second :: int where
  "second = 10 ^ 9"

definition DefaultShutdownTimeout :: int where
  "DefaultShutdownTimeout = 2 * second"

definition default_options :: "options \<Rightarrow> options" where
  "default_options opts =
     (let opts = (if op_LogPrefix opts = [] then opts\<lparr>op_LogPrefix := ''http''\<rparr> else opts);
          opts = (if op_ReadHeaderTimeout opts = 0 then opts\<lparr>op_ReadHeaderTimeout := 3 * second\<rparr> else opts);
          opts = (if op_ReadTimeout opts = 0 then opts\<lparr>op_ReadTimeout := 5 * second\<rparr> else opts);
          opts = (if op_WriteTimeout opts = 0 then opts\<lparr>op_WriteTimeout := 5 * second\<rparr> else opts)
      in if op_ShutdownTimeout opts = 0 then opts\<lparr>op_ShutdownTimeout := DefaultShutdownTimeout\<rparr> else opts)"

definition NewServer :: "options \<Rightarrow> 'w server" where
  "NewServer opts =
     (let opts = default_options opts;
          contextOpts = \<lparr>co_errorHandler = op_ErrorHandler opts, co_logger = op_Logger opts,
            co_logPrefix = op_LogPrefix opts, co_maxReadSize = DefaultMaxReadSize\<rparr>;
          contextOpts =
            (if op_MaxReadSize opts > 0 then contextOpts\<lparr>co_maxReadSize := op_MaxReadSize opts\<rparr>
             else if op_MaxReadSize opts < 0 then contextOpts\<lparr>co_maxReadSize := 0\<rparr>
             else contextOpts)
      in \<lparr>s_contextOpts = contextOpts, s_middleware = [], s_chain = None, s_mux = [], s_opts = opts,
          s_server = \<lparr>hs_Addr = op_Addr opts, hs_IdleTimeout = op_IdleTimeout opts,
            hs_MaxHeaderBytes = op_MaxHeaderBytes opts, hs_MaxHeaderValueCount = op_MaxHeaderValueCount opts,
            hs_ReadHeaderTimeout = op_ReadHeaderTimeout opts, hs_ReadTimeout = op_ReadTimeout opts,
            hs_WriteTimeout = op_WriteTimeout opts\<rparr>,
          s_stopping = False, s_log = []\<rparr>)"

definition server_Use :: "'w middleware list \<Rightarrow> 'w server \<Rightarrow> 'w server" where
  "server_Use ms s = s\<lparr>s_middleware := s_middleware s @ ms\<rparr>"

text \<open>
  \<open>http.ServeMux\<close>: which patterns it rejects (\<open>Handle\<close> panics on them), which one a request
  matches, with the request the handler is given, and its answer when none matches.
\<close>

record mux_env =
  mx_rejects :: "string list \<Rightarrow> string \<Rightarrow> bool"
  mx_match :: "string list \<Rightarrow> request \<Rightarrow> (string \<times> request) option"
  mx_none :: "request \<Rightarrow> responseWriter \<Rightarrow> responseWriter"

definition server_Handle :: "mux_env \<Rightarrow> string \<Rightarrow> 'w handler \<Rightarrow> 'w middleware list \<Rightarrow> 'w server \<Rightarrow> 'w server go" where
  "server_Handle M pattern h ms s =
     (let h = chain h ms
      in if mx_rejects M (map fst (s_mux s)) pattern then Panic (''http: invalid pattern '' @ pattern)
         else Ret (s\<lparr>s_mux := s_mux s @ [(pattern, h)]\<rparr>))"

definition server_DELETE :: "mux_env \<Rightarrow> string \<Rightarrow> 'w handler \<Rightarrow> 'w middleware list \<Rightarrow> 'w server \<Rightarrow> 'w server go" where
  "server_DELETE M pattern = server_Handle M (''DELETE '' @ pattern)"

definition server_GET :: "mux_env \<Rightarrow> string \<Rightarrow> 'w handler \<Rightarrow> 'w middleware list \<Rightarrow> 'w server \<Rightarrow> 'w server go" where
  "server_GET M pattern = server_Handle M (''GET '' @ pattern)"

definition server_PATCH :: "mux_env \<Rightarrow> string \<Rightarrow> 'w handler \<Rightarrow> 'w middleware list \<Rightarrow> 'w server \<Rightarrow> 'w server go" where
  "server_PATCH M pattern = server_Handle M (''PATCH '' @ pattern)"

definition server_POST :: "mux_env \<Rightarrow> string \<Rightarrow> 'w handler \<Rightarrow> 'w middleware list \<Rightarrow> 'w server \<Rightarrow> 'w server go" where
  "server_POST M pattern = server_Handle M (''POST '' @ pattern)"

definition server_PUT :: "mux_env \<Rightarrow> string \<Rightarrow> 'w handler \<Rightarrow> 'w middleware list \<Rightarrow> 'w server \<Rightarrow> 'w server go" where
  "server_PUT M pattern = server_Handle M (''PUT '' @ pattern)"

definition server_Mux :: "'w server \<Rightarrow> (string \<times> 'w handler) list" where
  "server_Mux s = s_mux s"

text \<open>
  \<open>s.mux.ServeHTTP(c.Writer(), c.Request)\<close>: the handler of the matching route gets a context
  of its own, over the same writer.
\<close>

definition mux_handler :: "web_env \<Rightarrow> 'w error_handlers \<Rightarrow> mux_env \<Rightarrow> 'w server \<Rightarrow> 'w handler" where
  "mux_handler E EH M s c =
     (case mx_match M (map fst (s_mux s)) (c_Request c) of
        None \<Rightarrow> (c_put (mx_none M (c_Request c) (c_writer c)) c, None)
      | Some (p, r) \<Rightarrow>
          (case map_of (s_mux s) p of
             None \<Rightarrow> (c_put (mx_none M (c_Request c) (c_writer c)) c, None)
           | Some h \<Rightarrow>
               (let c' = Serve E EH h (newContext (Own (c_writer c)) r (s_contextOpts s) (c_log c) (c_app c))
                in (c\<lparr>c_writer := c_writer c', c_log := c_log c', c_app := c_app c'\<rparr>, None))))"

text \<open>The loop over \<open>slices.Backward(s.middleware)\<close>, and the \<open>OnceValue\<close> around it.\<close>

fun wrap_all :: "'w middleware list \<Rightarrow> 'w handler \<Rightarrow> 'w handler" where
  "wrap_all [] h = h"
| "wrap_all (m # ms) h = wrap_all ms (m h)"

definition middlewareChain :: "'w server \<Rightarrow> 'w server \<times> 'w middleware" where
  "middlewareChain s =
     (case s_chain s of
        Some f \<Rightarrow> (s, f)
      | None \<Rightarrow> (let f = wrap_all (rev (s_middleware s)) in (s\<lparr>s_chain := Some f\<rparr>, f)))"

definition serveHTTP ::
  "web_env \<Rightarrow> 'w error_handlers \<Rightarrow> mux_env \<Rightarrow> http_writer \<Rightarrow> request \<Rightarrow> 'w \<Rightarrow> 'w server \<Rightarrow>
   'w server \<times> 'w wctx" where
  "serveHTTP E EH M w r app s =
     (let c = newContext w r (s_contextOpts s) (s_log s) app;
          c = logRequest c;
          (s, f) = middlewareChain s;
          c = Serve E EH (f (mux_handler E EH M s)) c
      in (s\<lparr>s_log := c_log c\<rparr>, c))"

definition server_Handler ::
  "web_env \<Rightarrow> 'w error_handlers \<Rightarrow> mux_env \<Rightarrow> 'w server \<Rightarrow> http_writer \<Rightarrow> request \<Rightarrow> 'w \<Rightarrow>
   'w server \<times> 'w wctx" where
  "server_Handler E EH M s w r app = serveHTTP E EH M w r app s"

section \<open>Starting and stopping\<close>

definition logInfo :: "string \<Rightarrow> 'w server \<Rightarrow> 'w server" where
  "logInfo msg s =
     (if \<not> co_logger (s_contextOpts s) then s
      else s\<lparr>s_log := s_log s @ [(LevelInfo, op_LogPrefix (s_opts s) @ '': '' @ msg, None)]\<rparr>)"

text \<open>
  \<open>Start\<close> up to the call that listens, which is with TLS exactly if both files are named,
  and from its return, with the state of that moment.
\<close>

definition server_Start_begin :: "'w server \<Rightarrow> 'w server \<times> bool" where
  "server_Start_begin s =
     (logInfo ''starting server'' s, op_CertFile (s_opts s) \<noteq> [] \<and> op_CertKeyFile (s_opts s) \<noteq> [])"

definition server_Start_end :: "web_error option \<Rightarrow> 'w server \<Rightarrow> web_error option" where
  "server_Start_end err s =
     (case err of
        None \<Rightarrow> None
      | Some e \<Rightarrow> if errors_AsType (\<lambda>e. e = ErrServerClosed) e \<noteq> None \<and> s_stopping s then None else Some e)"

definition server_Stop :: "(int \<Rightarrow> web_error option) \<Rightarrow> 'w server \<Rightarrow> 'w server \<times> web_error option" where
  "server_Stop shutdown s =
     (let s = s\<lparr>s_stopping := True\<rparr>;
          s = logInfo ''stopping server'' s
      in case shutdown (op_ShutdownTimeout (s_opts s)) of
           Some err \<Rightarrow> (s, Some err)
         | None \<Rightarrow> (logInfo ''stopped server'' s, None))"

section \<open>The test server\<close>

text \<open>
  A server behind \<open>httptest.Server\<close>, which is its address and whether it has been closed;
  \<open>url\<close> is the address it is given.
\<close>

record 'w test_server =
  ts_server :: "'w server"
  ts_test_URL :: string
  ts_closed :: bool

definition NewTestServer :: "string \<Rightarrow> options \<Rightarrow> options list \<Rightarrow> 'w test_server" where
  "NewTestServer url zero_opts opts =
     (let o' = zero_opts\<lparr>op_Addr := '':0''\<rparr>;
          o' = (if length opts > 0 then hd opts else o');
          s = NewServer o'
      in \<lparr>ts_server = s, ts_test_URL = url, ts_closed = False\<rparr>)"

definition test_server_Handle ::
  "mux_env \<Rightarrow> string \<Rightarrow> 'w handler \<Rightarrow> 'w middleware list \<Rightarrow> 'w test_server \<Rightarrow> 'w test_server go" where
  "test_server_Handle M pattern h ms t =
     go_bind (server_Handle M pattern h ms (ts_server t)) (\<lambda>s. Ret (t\<lparr>ts_server := s\<rparr>))"

definition test_server_DELETE ::
  "mux_env \<Rightarrow> string \<Rightarrow> 'w handler \<Rightarrow> 'w middleware list \<Rightarrow> 'w test_server \<Rightarrow> 'w test_server go" where
  "test_server_DELETE M pattern = test_server_Handle M (''DELETE '' @ pattern)"

definition test_server_GET ::
  "mux_env \<Rightarrow> string \<Rightarrow> 'w handler \<Rightarrow> 'w middleware list \<Rightarrow> 'w test_server \<Rightarrow> 'w test_server go" where
  "test_server_GET M pattern = test_server_Handle M (''GET '' @ pattern)"

definition test_server_PATCH ::
  "mux_env \<Rightarrow> string \<Rightarrow> 'w handler \<Rightarrow> 'w middleware list \<Rightarrow> 'w test_server \<Rightarrow> 'w test_server go" where
  "test_server_PATCH M pattern = test_server_Handle M (''PATCH '' @ pattern)"

definition test_server_POST ::
  "mux_env \<Rightarrow> string \<Rightarrow> 'w handler \<Rightarrow> 'w middleware list \<Rightarrow> 'w test_server \<Rightarrow> 'w test_server go" where
  "test_server_POST M pattern = test_server_Handle M (''POST '' @ pattern)"

definition test_server_PUT ::
  "mux_env \<Rightarrow> string \<Rightarrow> 'w handler \<Rightarrow> 'w middleware list \<Rightarrow> 'w test_server \<Rightarrow> 'w test_server go" where
  "test_server_PUT M pattern = test_server_Handle M (''PUT '' @ pattern)"

definition test_server_Use :: "'w middleware list \<Rightarrow> 'w test_server \<Rightarrow> 'w test_server" where
  "test_server_Use ms t = t\<lparr>ts_server := server_Use ms (ts_server t)\<rparr>"

definition test_server_Mux :: "'w test_server \<Rightarrow> (string \<times> 'w handler) list" where
  "test_server_Mux t = server_Mux (ts_server t)"

definition test_server_Start :: "'w test_server \<Rightarrow> 'w test_server \<times> web_error option" where
  "test_server_Start t = (t, None)"

definition test_server_Stop :: "'w test_server \<Rightarrow> 'w test_server \<times> web_error option" where
  "test_server_Stop t = (t\<lparr>ts_closed := True\<rparr>, None)"

definition test_server_URL :: "string \<Rightarrow> 'w test_server \<Rightarrow> string" where
  "test_server_URL path t = ts_test_URL t @ path"

end
