(* ===== verification/Gx_Web_Correct.thy ===== *)
theory Gx_Web_Correct imports Gx_Web_Server begin

text \<open>
  What the web package guarantees: how handler errors become responses, in which order
  middleware runs, that every request keeps the response protocol, and that the
  configuration of a server stays well formed.
\<close>

section \<open>Handler errors\<close>

text \<open>\<open>net/http\<close> answers 200 when a handler returns without having fixed a head.\<close>

definition client_status :: "responseWriter \<Rightarrow> int" where
  "client_status w = (case sent_head (rw_calls w) of Some (s, h) \<Rightarrow> s | None \<Rightarrow> 200)"

lemma response_status_range: "400 \<le> response_status err \<and> response_status err \<le> 599"
  by (simp add: response_status_def Let_def split: option.split)

lemma log_keeps [simp]:
  "c_writer (logError s e c) = c_writer c" "c_opts (logError s e c) = c_opts c"
  "c_Request (logError s e c) = c_Request c"
  "c_writer (logErrorResponseWrite e c) = c_writer c" "c_writer (logRequest c) = c_writer c"
  by (simp_all add: logError_def logErrorResponseWrite_def logRequest_def Let_def)

lemma rw_ok_no_head: "rw_ok w \<Longrightarrow> \<not> headerWritten w \<Longrightarrow> sent_head (rw_calls w) = None"
  by (cases "sent_head (rw_calls w)") (simp_all add: rw_ok_def)

lemma JSON_fresh:
  assumes "rw_ok (c_writer c)" and "\<not> headerWritten (c_writer c)" and "400 \<le> status"
    and "we_Marshal E (''pretty'' \<in> set (rq_query (c_Request c))) v = Inr data"
  shows "sent_head (rw_calls (c_writer (fst (c_JSON E v [status] c)))) =
      Some (status, (rw_header (c_writer c))(''Content-Type'' \<mapsto> ''application/json''))"
    and "sent_body (rw_calls (c_writer (fst (c_JSON E v [status] c)))) = sent_body (rw_calls (c_writer c)) @ data"
  using assms rw_ok_no_head [OF assms(1,2)]
  by (simp_all add: c_JSON_def c_opt_Status_def c_Status_def c_Write_def c_put_def rw_defs sent_head_append
      informational_def split: prod.split)

text \<open>
  C5: What the client gets when a handler returns an error. A response that has started is
  left alone. Otherwise a configured error handler is called once, with the first status
  error in the tree of the error, or the error itself as a 500. Without one, the response is
  the JSON document with the text of that error, under its status code if that is a client or
  server error and 500 if not. If that document cannot be encoded nothing is written, and the
  client sees a success: status 200.
\<close>

theorem web_serve_errors:
  assumes "h c = (c1, Some e)" and "rw_ok (c_writer c1)"
  shows "let err = as_status_error e; status = response_status err; c2 = Serve E EH h c
         in 400 \<le> status \<and> status \<le> 599 \<and>
            (web_Status err = Some status \<or> (\<exists>s. web_Status err = Some s \<and> (s < 400 \<or> s > 599) \<and> status = 500)) \<and>
            (if headerWritten (c_writer c1) then c_writer c2 = c_writer c1
             else case co_errorHandler (c_opts c1) of
               Some k \<Rightarrow> c2 = EH k (logError status err c1) err
             | None \<Rightarrow>
                 (case we_Marshal E (''pretty'' \<in> set (rq_query (c_Request c1))) (JErrorMap (web_Error_text err)) of
                    Inr data \<Rightarrow>
                      sent_head (rw_calls (c_writer c2)) =
                        Some (status, (rw_header (c_writer c1))(''Content-Type'' \<mapsto> ''application/json'')) \<and>
                      sent_body (rw_calls (c_writer c2)) = sent_body (rw_calls (c_writer c1)) @ data
                  | Inl failure \<Rightarrow> c_writer c2 = c_writer c1 \<and> client_status (c_writer c2) = 200))"
proof -
  let ?err = "as_status_error e"
  let ?status = "response_status ?err"
  let ?c = "logError ?status ?err c1"
  obtain s where s: "web_Status ?err = Some s"
    using AsType_status [of e] by (cases "errors_AsType is_StatusError e") (auto simp: as_status_error_def)
  then have status: "web_Status ?err = Some ?status \<or> (\<exists>s. web_Status ?err = Some s \<and> (s < 400 \<or> s > 599) \<and> ?status = 500)"
    by (auto simp: response_status_def)
  have serve: "Serve E EH h c =
      (if headerWritten (c_writer c1) then ?c
       else case co_errorHandler (c_opts c1) of
         Some k \<Rightarrow> EH k ?c ?err
       | None \<Rightarrow> (case c_JSON E (JErrorMap (web_Error_text ?err)) [?status] ?c of
            (c, None) \<Rightarrow> c | (c, Some e) \<Rightarrow> logErrorResponseWrite e c))"
    by (simp add: Serve_def assms(1) Let_def responseWritten_def)
  show ?thesis
  proof (cases "headerWritten (c_writer c1) \<or> co_errorHandler (c_opts c1) \<noteq> None")
    case True
    then show ?thesis
      using status response_status_range [of ?err] by (auto simp: serve Let_def)
  next
    case False
    let ?json = "c_JSON E (JErrorMap (web_Error_text ?err)) [?status] ?c"
    have writer: "c_writer (Serve E EH h c) = c_writer (fst ?json)"
      using False by (cases ?json) (auto simp: serve split: option.split)
    show ?thesis
    proof (cases "we_Marshal E (''pretty'' \<in> set (rq_query (c_Request c1))) (JErrorMap (web_Error_text ?err))")
      case (Inl failure)
      then have "c_writer (Serve E EH h c) = c_writer c1"
        unfolding writer by (simp add: c_JSON_def)
      then show ?thesis
        using False Inl status response_status_range [of ?err] rw_ok_no_head [OF assms(2)]
        by (simp add: Let_def client_status_def)
    next
      case (Inr data)
      then show ?thesis
        using False status response_status_range [of ?err] JSON_fresh [of ?c ?status E _ data] assms(2)
        by (simp add: Let_def writer)
    qed
  qed
qed

lemma web_serve_errors_witness:
  "sent_head (rw_calls (c_writer (Serve example_env (\<lambda>k c e. c) (\<lambda>c. (c, Some (Wrapped ''x'' (web_Error 404 ''no''))))
      (example_ctx 0 [] [])))) = Some (404, [''Content-Type'' \<mapsto> ''application/json''])"
proof -
  let ?h = "\<lambda>c :: unit wctx. (c, Some (Wrapped ''x'' (web_Error 404 ''no'')))"
  have "rw_ok (c_writer (example_ctx 0 [] []))"
    by (simp add: example_ctx_def newContext_def)
  from web_serve_errors [of ?h "example_ctx 0 [] []", OF refl this, of example_env "\<lambda>k c e. c"]
  show ?thesis
    by (simp add: Let_def as_status_error_def web_Error_def response_status_def example_ctx_def newContext_def
        wrap_writer_def example_env_def example_request_def)
qed

section \<open>Middleware\<close>

lemma wrap_all_append: "wrap_all (xs @ ys) h = wrap_all ys (wrap_all xs h)"
  by (induction xs arbitrary: h) simp_all

lemma wrap_all_foldr: "wrap_all (rev ms) h = foldr (\<lambda>m. m) ms h"
  by (induction ms) (simp_all add: wrap_all_append)

lemma chain_foldr: "chain h ms = foldr (\<lambda>m. m) (rev ms) h"
  by (induction ms arbitrary: h) simp_all

lemma Use_middleware: "s_middleware (fold server_Use groups s) = s_middleware s @ concat groups"
  by (induction groups arbitrary: s) (simp_all add: server_Use_def)

lemma Use_chain: "s_chain (fold server_Use groups s) = s_chain s"
  by (induction groups arbitrary: s) (simp_all add: server_Use_def)

text \<open>Middleware that does something before and something after the next handler.\<close>

definition bracket :: "('w wctx \<Rightarrow> 'w wctx) \<times> ('w wctx \<Rightarrow> 'w wctx) \<Rightarrow> 'w middleware" where
  "bracket b next c = (let (c', e) = next (fst b c) in (snd b c', e))"

lemma bracket_foldr:
  "foldr (\<lambda>m. m) (map bracket bs) h c = (let (c', e) = h (fold fst bs c) in (foldr snd bs c', e))"
proof (induction bs arbitrary: c)
  case (Cons b bs)
  have "foldr (\<lambda>m. m) (map bracket (b # bs)) h c = bracket b (foldr (\<lambda>m. m) (map bracket bs) h) c"
    by simp
  also have "\<dots> = (let (c', e) = foldr (\<lambda>m. m) (map bracket bs) h (fst b c) in (snd b c', e))"
    by (simp only: bracket_def)
  also have "\<dots> = (let (c', e) = h (fold fst (b # bs) c) in (foldr snd (b # bs) c', e))"
    by (simp only: Cons.IH) (simp add: Let_def split: prod.split)
  finally show ?case .
qed simp

text \<open>
  C29: The order of middleware. The chain of a server equals the nesting of everything given
  to \<open>Use\<close> in the order of the calls, the first outermost; the middleware of a route nests the
  other way round, the last outermost. So code before the next handler runs in the order of
  \<open>Use\<close> and code after it in reverse. The first request fixes the chain: later calls of \<open>Use\<close>
  do not change it.
\<close>

theorem web_middleware_order:
  "snd (middlewareChain (fold server_Use groups (NewServer opts))) h = foldr (\<lambda>m. m) (concat groups) h \<and>
   chain h ms = foldr (\<lambda>m. m) (rev ms) h \<and>
   snd (middlewareChain (server_Use (map bracket bs) (NewServer opts))) h c =
     (let (c', e) = h (fold fst bs c) in (foldr snd bs c', e)) \<and>
   chain h (map bracket bs) c = (let (c', e) = h (foldr fst bs c) in (fold snd bs c', e)) \<and>
   snd (middlewareChain (fold server_Use late (fst (middlewareChain s)))) = snd (middlewareChain s)"
proof -
  have new: "s_middleware (NewServer opts) = []" "s_chain (NewServer opts) = None"
    by (simp_all add: NewServer_def Let_def)
  have "snd (middlewareChain (fold server_Use groups (NewServer opts))) h = foldr (\<lambda>m. m) (concat groups) h" for groups
    by (simp add: middlewareChain_def Let_def Use_chain Use_middleware new wrap_all_foldr)
  note order = this this [of "[map bracket bs]"]
  have "chain h (map bracket bs) c = (let (c', e) = h (foldr fst bs c) in (fold snd bs c', e))"
    using bracket_foldr [of "rev bs" h c] by (simp add: chain_foldr rev_map fold_rev foldr_conv_fold)
  moreover have "snd (middlewareChain (fold server_Use late (fst (middlewareChain s)))) = snd (middlewareChain s)"
    by (cases "s_chain s") (simp_all add: middlewareChain_def Let_def Use_chain)
  ultimately show ?thesis
    using order bracket_foldr [of bs h c] by (simp add: chain_foldr)
qed

section \<open>Requests\<close>

text \<open>
  Code outside the package reaches the response only through the methods of the writer:
  a polite handler does, and polite middleware makes polite handlers from polite handlers.
\<close>

definition polite :: "web_env \<Rightarrow> 'w handler \<Rightarrow> bool" where
  "polite E h \<longleftrightarrow> (\<forall>c. writes E (c_writer c) (c_writer (fst (h c))))"

definition polite_middleware :: "web_env \<Rightarrow> 'w middleware \<Rightarrow> bool" where
  "polite_middleware E m \<longleftrightarrow> (\<forall>h. polite E h \<longrightarrow> polite E (m h))"

definition polite_errors :: "web_env \<Rightarrow> 'w error_handlers \<Rightarrow> bool" where
  "polite_errors E EH \<longleftrightarrow> (\<forall>k c e. writes E (c_writer c) (c_writer (EH k c e)))"

definition polite_mux :: "web_env \<Rightarrow> mux_env \<Rightarrow> bool" where
  "polite_mux E M \<longleftrightarrow> (\<forall>r w. writes E w (mx_none M r w))"

definition polite_server :: "web_env \<Rightarrow> 'w server \<Rightarrow> bool" where
  "polite_server E s \<longleftrightarrow>
     list_all (polite_middleware E) (s_middleware s) \<and>
     (\<forall>f. s_chain s = Some f \<longrightarrow> polite_middleware E f) \<and>
     (\<forall>(p, h) \<in> set (s_mux s). polite E h)"

lemma polite_Serve:
  assumes "polite E h" and "polite_errors E EH"
  shows "writes E (c_writer c) (c_writer (Serve E EH h c))"
proof -
  obtain c1 r where h: "h c = (c1, r)" by fastforce
  then have step: "writes E (c_writer c) (c_writer c1)"
    using assms(1) by (metis polite_def fst_conv)
  show ?thesis
  proof (cases r)
    case None
    then show ?thesis using h step by (simp add: Serve_def)
  next
    case (Some e)
    let ?err = "as_status_error e"
    let ?c = "logError (response_status ?err) ?err c1"
    have "writes E (c_writer ?c) (c_writer (fst (c_JSON E (JErrorMap (web_Error_text ?err)) [response_status ?err] ?c)))"
      by (rule writes_JSON)
    then have "writes E (c_writer c1) (c_writer (Serve E EH h c))"
      using assms(2) h Some
      by (auto simp: Serve_def Let_def polite_errors_def split: prod.split option.split)
        (metis log_keeps(1))+
    then show ?thesis by (rule writes_trans [OF step])
  qed
qed

lemma polite_wrap_all:
  "list_all (polite_middleware E) ms \<Longrightarrow> polite E h \<Longrightarrow> polite E (wrap_all ms h)"
  by (induction ms arbitrary: h) (simp_all add: polite_middleware_def)

lemma polite_chain: "list_all (polite_middleware E) ms \<Longrightarrow> polite E h \<Longrightarrow> polite E (chain h ms)"
  by (induction ms arbitrary: h) (simp_all add: polite_middleware_def)

lemma polite_mux_handler:
  assumes "polite_server E s" and "polite_errors E EH" and "polite_mux E M"
  shows "polite E (mux_handler E EH M s)"
  unfolding polite_def
proof
  fix c
  show "writes E (c_writer c) (c_writer (fst (mux_handler E EH M s c)))"
  proof (cases "mx_match M (map fst (s_mux s)) (c_Request c)")
    case None
    then show ?thesis using assms(3) by (simp add: mux_handler_def polite_mux_def)
  next
    case (Some pr)
    obtain p r where pr: "pr = (p, r)" by fastforce
    show ?thesis
    proof (cases "map_of (s_mux s) p")
      case None
      then show ?thesis using Some pr assms(3) by (simp add: mux_handler_def polite_mux_def)
    next
      case (Some h)
      then have "polite E h"
        using assms(1) map_of_SomeD by (fastforce simp: polite_server_def)
      then have "writes E (c_writer c)
          (c_writer (Serve E EH h (newContext (Own (c_writer c)) r (s_contextOpts s) (c_log c) (c_app c))))"
        using polite_Serve [OF _ assms(2), of h "newContext (Own (c_writer c)) r (s_contextOpts s) (c_log c) (c_app c)"]
        by (simp add: newContext_def)
      then show ?thesis
        using Some \<open>mx_match M (map fst (s_mux s)) (c_Request c) = Some pr\<close> pr
        by (simp add: mux_handler_def Let_def)
    qed
  qed
qed

lemma polite_middlewareChain:
  assumes "polite_server E s"
  shows "polite_server E (fst (middlewareChain s)) \<and> polite_middleware E (snd (middlewareChain s))"
proof (cases "s_chain s")
  case None
  have "polite_middleware E (wrap_all (rev (s_middleware s)))"
    using assms by (auto simp: polite_server_def polite_middleware_def [of E "wrap_all _"] polite_wrap_all)
  then show ?thesis
    using None assms by (simp add: middlewareChain_def Let_def polite_server_def)
next
  case (Some f)
  then show ?thesis using assms by (simp add: middlewareChain_def polite_server_def)
qed

lemma serveHTTP_writes:
  assumes "polite_server E s" and "polite_errors E EH" and "polite_mux E M"
  shows "writes E (c_writer (newContext w r (s_contextOpts s) (s_log s) app)) (c_writer (snd (serveHTTP E EH M w r app s)))"
    and "polite_server E (fst (serveHTTP E EH M w r app s))"
proof -
  obtain s' f where s': "middlewareChain s = (s', f)" by fastforce
  then have ok: "polite_server E s'" "polite_middleware E f"
    using polite_middlewareChain [OF assms(1)] by simp_all
  then have "polite E (f (mux_handler E EH M s'))"
    using polite_mux_handler [OF ok(1) assms(2,3)] by (simp add: polite_middleware_def)
  from polite_Serve [OF this assms(2)]
  show "writes E (c_writer (newContext w r (s_contextOpts s) (s_log s) app)) (c_writer (snd (serveHTTP E EH M w r app s)))"
    by (simp add: serveHTTP_def s' Let_def) (metis log_keeps(5))
  show "polite_server E (fst (serveHTTP E EH M w r app s))"
    using ok(1) by (simp add: serveHTTP_def s' Let_def polite_server_def)
qed

text \<open>
  C21: Through the whole server, with global middleware, the mux, route middleware, handlers,
  their errors and error handlers, one request makes one response: if that code uses the
  writer only by its methods, the wrapped writer never sees a superfluous \<open>WriteHeader\<close>, and
  the head and the body the client receives are those of one sequence of calls made on the
  writer, starting from the header map of the connection.
\<close>

theorem web_request_protocol:
  assumes "polite_server E s" and "polite_errors E EH" and "polite_mux E M"
  shows "let w = c_writer (snd (serveHTTP E EH M (Bare hm) r app s))
         in no_superfluous (rw_calls w) \<and> (headerWritten w \<longleftrightarrow> sent_head (rw_calls w) \<noteq> None) \<and>
            (\<exists>ops. sent_head (rw_calls w) = intended_head (we_writer E) hm ops \<and>
                   sent_body (rw_calls w) = intended_body ops)"
proof -
  let ?w = "c_writer (snd (serveHTTP E EH M (Bare hm) r app s))"
  have "writes E (wrap_writer hm) ?w"
    using serveHTTP_writes(1) [OF assms, of "Bare hm" r] by (simp add: newContext_def)
  then obtain ops where w: "?w = wop_run (we_writer E) ops (wrap_writer hm)"
    by (auto simp: writes_def)
  have "rw_ok ?w"
    unfolding w by (simp add: rw_ok_run)
  moreover have "sent_head (rw_calls ?w) = intended_head (we_writer E) hm ops"
    unfolding w using head_intended [of "wrap_writer hm" "we_writer E" ops] by (simp add: wrap_writer_def rw_ok_def)
  moreover have "sent_body (rw_calls ?w) = intended_body ops"
    unfolding w body_run by (simp add: wrap_writer_def)
  ultimately show ?thesis
    unfolding Let_def rw_ok_def by blast
qed

definition example_options :: options where
  "example_options =
     \<lparr>op_Addr = [], op_CertFile = [], op_CertKeyFile = [], op_IdleTimeout = 0, op_Logger = False, op_LogPrefix = [],
      op_ErrorHandler = None, op_MaxReadSize = 0, op_MaxHeaderBytes = 0, op_MaxHeaderValueCount = 0,
      op_ReadHeaderTimeout = 0, op_ReadTimeout = 0, op_ShutdownTimeout = 0, op_WriteTimeout = 0\<rparr>"

definition example_mux :: mux_env where
  "example_mux =
     \<lparr>mx_rejects = (\<lambda>ps p. p \<in> set ps), mx_match = (\<lambda>ps r. case ps of [] \<Rightarrow> None | p # _ \<Rightarrow> Some (p, r)),
      mx_none = (\<lambda>r. rw_WriteHeader 404)\<rparr>"

definition example_server :: "unit server" where
  "example_server =
     server_Use [\<lambda>next c. next (c_Set ''user'' ''a'' c)]
       ((NewServer example_options)\<lparr>s_mux := [(''GET /'', \<lambda>c. c_String example_env ''hi'' [201] c)]\<rparr>)"

lemma web_request_protocol_witness:
  "no_superfluous (rw_calls (c_writer (snd (serveHTTP example_env (\<lambda>k c e. c) example_mux (Bare Map.empty)
     (example_request [] []) () example_server))))"
proof -
  have mw: "polite_middleware example_env (\<lambda>next c. next (c_Set ''user'' ''a'' c))"
    unfolding polite_middleware_def polite_def
    by (auto simp: c_Set_def Let_def) (metis (no_types, lifting) wctx.select_convs(4) wctx.surjective wctx.update_convs(1,2))
  have "polite_server example_env example_server"
    using mw
    by (simp add: polite_server_def example_server_def server_Use_def NewServer_def Let_def polite_def writes_String)
  moreover have "polite_errors example_env (\<lambda>k (c :: unit wctx) e. c)" "polite_mux example_env example_mux"
    by (simp_all add: polite_errors_def polite_mux_def example_mux_def writes_WriteHeader)
  ultimately show ?thesis
    using web_request_protocol [of example_env example_server "\<lambda>k c e. c" example_mux Map.empty "example_request [] []" "()"]
    by (simp add: Let_def)
qed

section \<open>The configuration of a server\<close>

text \<open>What can be done with a server, a panic of \<open>Handle\<close> leaving it as it was.\<close>

datatype 'w server_op =
    SUse "'w middleware list"
  | SHandle string "'w handler" "'w middleware list"
  | SRequest http_writer request 'w
  | SStart
  | SStop "int \<Rightarrow> web_error option"

fun server_step :: "web_env \<Rightarrow> 'w error_handlers \<Rightarrow> mux_env \<Rightarrow> 'w server_op \<Rightarrow> 'w server \<Rightarrow> 'w server" where
  "server_step E EH M (SUse ms) s = server_Use ms s"
| "server_step E EH M (SHandle p h ms) s = (case server_Handle M p h ms s of Ret s' \<Rightarrow> s' | Panic m \<Rightarrow> s)"
| "server_step E EH M (SRequest w r app) s = fst (serveHTTP E EH M w r app s)"
| "server_step E EH M SStart s = fst (server_Start_begin s)"
| "server_step E EH M (SStop shutdown) s = fst (server_Stop shutdown s)"

text \<open>
  What the options given to \<open>NewServer\<close> mean: for the contexts of requests, and for the
  \<open>http.Server\<close>. Times are in nanoseconds; a negative one is given on as it is.
\<close>

definition or_else :: "int \<Rightarrow> int \<Rightarrow> int" where
  "or_else given fallback = (if given = 0 then fallback else given)"

definition server_wf :: "options \<Rightarrow> 'w server \<Rightarrow> bool" where
  "server_wf given s \<longleftrightarrow>
     s_contextOpts s =
       \<lparr>co_errorHandler = op_ErrorHandler given, co_logger = op_Logger given,
        co_logPrefix = (if op_LogPrefix given = [] then ''http'' else op_LogPrefix given),
        co_maxReadSize = max 0 (or_else (op_MaxReadSize given) DefaultMaxReadSize)\<rparr> \<and>
     s_server s =
       \<lparr>hs_Addr = op_Addr given, hs_IdleTimeout = op_IdleTimeout given,
        hs_MaxHeaderBytes = op_MaxHeaderBytes given,
        hs_MaxHeaderValueCount = op_MaxHeaderValueCount given,
        hs_ReadHeaderTimeout = or_else (op_ReadHeaderTimeout given) 3000000000,
        hs_ReadTimeout = or_else (op_ReadTimeout given) 5000000000,
        hs_WriteTimeout = or_else (op_WriteTimeout given) 5000000000\<rparr> \<and>
     op_ShutdownTimeout (s_opts s) = or_else (op_ShutdownTimeout given) 2000000000 \<and>
     op_LogPrefix (s_opts s) = co_logPrefix (s_contextOpts s) \<and>
     op_CertFile (s_opts s) = op_CertFile given \<and> op_CertKeyFile (s_opts s) = op_CertKeyFile given"

text \<open>The global middleware of a sequence of operations.\<close>

fun used :: "'w server_op list \<Rightarrow> 'w middleware list" where
  "used [] = []"
| "used (SUse ms # ops) = ms @ used ops"
| "used (op # ops) = used ops"

definition config_same :: "'w server \<Rightarrow> 'w server \<Rightarrow> bool" where
  "config_same s s' \<longleftrightarrow>
     s_contextOpts s' = s_contextOpts s \<and> s_opts s' = s_opts s \<and> s_server s' = s_server s \<and>
     (s_mux s' = s_mux s \<or>
      (\<exists>p h. s_mux s' = s_mux s @ [(p, h)] \<and> (distinct (map fst (s_mux s)) \<longrightarrow> p \<notin> fst ` set (s_mux s))))"

lemma logInfo_keeps [simp]:
  "s_contextOpts (logInfo m s) = s_contextOpts s" "s_opts (logInfo m s) = s_opts s"
  "s_server (logInfo m s) = s_server s" "s_mux (logInfo m s) = s_mux s" "s_stopping (logInfo m s) = s_stopping s"
  by (simp_all add: logInfo_def)

lemma middlewareChain_keeps:
  "config_same s (fst (middlewareChain s)) \<and> s_stopping (fst (middlewareChain s)) = s_stopping s"
  by (simp add: middlewareChain_def config_same_def Let_def split: option.split)

lemma step_config:
  assumes "\<forall>ps p. p \<in> set ps \<longrightarrow> mx_rejects M ps p"
  shows "config_same s (server_step E EH M op s)"
proof (cases op)
  case (SHandle p h ms)
  show ?thesis
  proof (cases "mx_rejects M (map fst (s_mux s)) p")
    case False
    then have "p \<notin> fst ` set (s_mux s)"
      using assms by (metis list.set_map)
    then show ?thesis
      using SHandle False by (simp add: config_same_def server_Handle_def)
  qed (simp add: SHandle config_same_def server_Handle_def)
next
  case (SRequest w r app)
  then show ?thesis
    using middlewareChain_keeps [of s]
    by (cases "middlewareChain s") (simp add: config_same_def serveHTTP_def Let_def)
qed (simp_all add: config_same_def server_Use_def server_Start_begin_def server_Stop_def
      Let_def split: option.split)

lemma step_stopping:
  "s_stopping (server_step E EH M op s) \<longleftrightarrow> s_stopping s \<or> (\<exists>f. op = SStop f)"
  using middlewareChain_keeps [of s]
  by (cases op)
    (auto simp: server_Use_def server_Handle_def serveHTTP_def server_Start_begin_def server_Stop_def
      Let_def split: prod.split option.split)

lemma step_middleware:
  "s_middleware (server_step E EH M op s) = s_middleware s @ used [op]"
proof (cases op)
  case (SRequest w r app)
  have "s_middleware (fst (middlewareChain s)) = s_middleware s"
    by (simp add: middlewareChain_def Let_def split: option.split)
  then show ?thesis
    using SRequest by (cases "middlewareChain s") (simp add: serveHTTP_def Let_def)
qed (auto simp: server_Use_def server_Handle_def server_Start_begin_def server_Stop_def logInfo_def Let_def
    split: option.split)

lemma used_Cons: "used (op # ops) = used [op] @ used ops"
  by (cases op) simp_all

lemma wf_NewServer: "server_wf given (NewServer given)"
  by (simp add: server_wf_def NewServer_def default_options_def Let_def DefaultMaxReadSize_def
      DefaultShutdownTimeout_def second_def or_else_def)

text \<open>What any operations do to a server.\<close>

lemma steps_keep:
  fixes s :: "'w server"
  assumes "\<forall>ps p. p \<in> set ps \<longrightarrow> mx_rejects M ps p" and "distinct (map fst (s_mux s))"
  shows "let s' = fold (server_step E EH M) ops s
    in s_contextOpts s' = s_contextOpts s \<and> s_opts s' = s_opts s \<and> s_server s' = s_server s \<and>
       distinct (map fst (s_mux s')) \<and>
       s_middleware s' = s_middleware s @ used ops \<and>
       (s_stopping s' \<longleftrightarrow> s_stopping s \<or> (\<exists>f. SStop f \<in> set ops))"
  using assms(2)
proof (induction ops arbitrary: s)
  case (Cons op ops)
  let ?t = "server_step E EH M op s"
  have same: "config_same s ?t"
    by (rule step_config [OF assms(1)])
  then have "distinct (map fst (s_mux ?t))"
    using Cons.prems by (auto simp: config_same_def)
  with Cons.IH [of ?t] same show ?case
    by (auto simp: Let_def config_same_def step_middleware step_stopping used_Cons [of op ops])
qed simp

text \<open>
  C30: The configuration of a server is the one its options ask for, from \<open>NewServer\<close> on and
  after any requests, registrations, starts and stops. A positive \<open>MaxReadSize\<close> is the read
  limit of every context, zero stands for the default and a negative value for none; a timeout
  is the one given, or its default if that is zero; prefix, error handler, logger, address,
  TLS files and the limits of \<open>http.Server\<close> are as given. Neither the options of the contexts
  nor a field of \<open>http.Server\<close> ever changes. No pattern is registered twice, the middleware is
  all that was given to \<open>Use\<close>, in order. \<open>Start\<close> listens with TLS exactly if both files are
  named, and turns the error of a closed server into success exactly if \<open>Stop\<close> was called.
\<close>

theorem web_server_well_formed:
  assumes "\<forall>ps p. p \<in> set ps \<longrightarrow> mx_rejects M ps p"
  shows "let s = fold (server_step E EH M) ops (NewServer given)
         in server_wf given s \<and>
            s_contextOpts s = s_contextOpts (NewServer given :: 'w server) \<and>
            s_opts s = s_opts (NewServer given :: 'w server) \<and>
            s_server s = s_server (NewServer given :: 'w server) \<and>
            distinct (map fst (s_mux s)) \<and> s_middleware s = used ops \<and>
            (snd (server_Start_begin s) \<longleftrightarrow> op_CertFile given \<noteq> [] \<and> op_CertKeyFile given \<noteq> []) \<and>
            server_Start_end (Some ErrServerClosed) (s :: 'w server) =
              (if \<exists>f. SStop f \<in> set ops then None else Some ErrServerClosed)"
proof -
  let ?n = "NewServer given :: 'w server"
  have new: "s_mux ?n = []" "s_middleware ?n = []" "\<not> s_stopping ?n" "server_wf given ?n"
    using wf_NewServer [of given] by (simp_all add: NewServer_def Let_def)
  define s where "s = fold (server_step E EH M) ops ?n"
  have same: "s_contextOpts s = s_contextOpts ?n" "s_opts s = s_opts ?n" "s_server s = s_server ?n"
    "distinct (map fst (s_mux s))" "s_middleware s = used ops"
    "s_stopping s \<longleftrightarrow> (\<exists>f. SStop f \<in> set ops)"
    using steps_keep [OF assms, of ?n E EH ops] new(1-3) unfolding s_def [symmetric] by (simp_all add: Let_def)
  have "server_wf given s"
    using new(4) same(1-3) by (simp add: server_wf_def)
  moreover from this have "snd (server_Start_begin s) \<longleftrightarrow> op_CertFile given \<noteq> [] \<and> op_CertKeyFile given \<noteq> []"
    by (simp add: server_Start_begin_def server_wf_def)
  ultimately show ?thesis
    using same by (simp add: Let_def s_def [symmetric] server_Start_end_def errors_AsType.simps)
qed

lemma web_server_well_formed_witness:
  "server_Start_end (Some ErrServerClosed)
     (fold (server_step example_env (\<lambda>k c e. c) example_mux) [SStop (\<lambda>t. None)]
       (NewServer example_options :: unit server)) = None \<and>
   co_maxReadSize (s_contextOpts (fold (server_step example_env (\<lambda>k c e. c) example_mux) [SStop (\<lambda>t. None)]
       (NewServer (example_options\<lparr>op_MaxReadSize := 10\<rparr>) :: unit server))) = 10"
proof -
  have "\<forall>ps p. p \<in> set ps \<longrightarrow> mx_rejects example_mux ps p"
    by (simp add: example_mux_def)
  note wf = web_server_well_formed [OF this, where E = example_env and EH = "\<lambda>k (c :: unit wctx) e. c"
      and ops = "[SStop (\<lambda>t. None)]"]
  show ?thesis
    using wf [of example_options] wf [of "example_options\<lparr>op_MaxReadSize := 10\<rparr>"]
    by (simp add: Let_def server_wf_def or_else_def)
qed

end
