(* ===== verification/Gx_Float.thy ===== *)
theory Gx_Float imports Complex_Main begin

text \<open>
  The floating-point arithmetic the retry delays use: binary64 values as \<open>m * 2 ^ e\<close>,
  rounding to 53 bits with ties to even, and conversion to an integer by truncation. A
  result too small for a normal number is not rounded further; it truncates to zero either
  way. What a conversion gives outside the range of the integer type is left to the
  implementation by the language, and is a parameter.
\<close>

section \<open>Values\<close>

datatype f64 = NaN | Inf bool | Fin int int

definition scale2 :: "int \<Rightarrow> int \<Rightarrow> int" where
  "scale2 m e = (if 0 \<le> e then m * 2 ^ nat e else sgn m * (\<bar>m\<bar> div 2 ^ nat (- e)))"

fun num_bits :: "nat \<Rightarrow> nat" where
  "num_bits n = (if n = 0 then 0 else Suc (num_bits (n div 2)))"

declare num_bits.simps [simp del]

text \<open>Division by \<open>2 ^ k\<close>, to the nearest integer and in a tie to the even one.\<close>

definition round_even :: "nat \<Rightarrow> nat \<Rightarrow> nat" where
  "round_even m k =
     (let q = m div 2 ^ k; r = m mod 2 ^ k
      in if 2 * r > 2 ^ k \<or> (2 * r = 2 ^ k \<and> odd q) then q + 1 else q)"

definition f_round :: "int \<Rightarrow> int \<Rightarrow> f64" where
  "f_round m e =
     (let b = num_bits (nat \<bar>m\<bar>)
      in if b \<le> 53 then Fin m e
         else if int b + e > 1024 then Inf (m < 0)
         else Fin (sgn m * int (round_even (nat \<bar>m\<bar>) (b - 53))) (e + int (b - 53)))"

section \<open>Operations\<close>

definition f_of_int :: "int \<Rightarrow> f64" where
  "f_of_int n = f_round n 0"

fun f_mult :: "f64 \<Rightarrow> f64 \<Rightarrow> f64" where
  "f_mult (Fin m e) (Fin m' e') = f_round (m * m') (e + e')"
| "f_mult (Inf s) (Inf s') = Inf (s \<noteq> s')"
| "f_mult (Inf s) (Fin m e) = (if m = 0 then NaN else Inf (s \<noteq> (m < 0)))"
| "f_mult (Fin m e) (Inf s) = (if m = 0 then NaN else Inf (s \<noteq> (m < 0)))"
| "f_mult _ _ = NaN"

fun f_one_minus :: "f64 \<Rightarrow> f64" where
  "f_one_minus (Fin m e) = (if 0 \<le> e then f_round (1 - m * 2 ^ nat e) 0 else f_round (2 ^ nat (- e) - m) e)"
| "f_one_minus (Inf s) = Inf (\<not> s)"
| "f_one_minus NaN = NaN"

text \<open>\<open>x < n\<close>, \<open>n < x\<close> and \<open>x == n\<close> for a small constant \<open>n\<close>; and the
  comparisons of two numbers; with \<open>NaN\<close> all are false.\<close>

fun f_less_int :: "f64 \<Rightarrow> int \<Rightarrow> bool" where
  "f_less_int (Fin m e) n = (if 0 \<le> e then m * 2 ^ nat e < n else m < n * 2 ^ nat (- e))"
| "f_less_int (Inf s) n = s"
| "f_less_int NaN n = False"

fun f_greater_int :: "f64 \<Rightarrow> int \<Rightarrow> bool" where
  "f_greater_int (Fin m e) n = (if 0 \<le> e then m * 2 ^ nat e > n else m > n * 2 ^ nat (- e))"
| "f_greater_int (Inf s) n = (\<not> s)"
| "f_greater_int NaN n = False"

fun f_is_zero :: "f64 \<Rightarrow> bool" where
  "f_is_zero (Fin m e) = (m = 0)"
| "f_is_zero _ = False"

fun f_eq :: "f64 \<Rightarrow> f64 \<Rightarrow> bool" where
  "f_eq (Fin m e) (Fin m' e') = (m * 2 ^ nat (e - min e e') = m' * 2 ^ nat (e' - min e e'))"
| "f_eq (Inf s) (Inf s') = (s = s')"
| "f_eq _ _ = False"

fun f_less :: "f64 \<Rightarrow> f64 \<Rightarrow> bool" where
  "f_less (Fin m e) (Fin m' e') = (m * 2 ^ nat (e - min e e') < m' * 2 ^ nat (e' - min e e'))"
| "f_less (Inf s) (Inf s') = (s \<and> \<not> s')"
| "f_less (Inf s) (Fin m e) = s"
| "f_less (Fin m e) (Inf s) = (\<not> s)"
| "f_less _ _ = False"

fun f_to_int64 :: "(f64 \<Rightarrow> int) \<Rightarrow> f64 \<Rightarrow> int" where
  "f_to_int64 undef (Fin m e) =
     (let n = scale2 m e in if - (2 ^ 63) \<le> n \<and> n < 2 ^ 63 then n else undef (Fin m e))"
| "f_to_int64 undef x = undef x"

section \<open>Bounds\<close>

text \<open>The value of a finite number, and numbers between zero and an integer.\<close>

definition f_val :: "int \<Rightarrow> int \<Rightarrow> real" where
  "f_val m e = of_int m * 2 powi e"

fun f_within :: "int \<Rightarrow> f64 \<Rightarrow> bool" where
  "f_within n (Fin m e) = (0 \<le> m \<and> f_val m e \<le> of_int n)"
| "f_within n _ = False"

lemma f_val_int: "0 \<le> e \<Longrightarrow> f_val m e = of_int (m * 2 ^ nat e)"
  by (simp add: f_val_def power_int_def)

lemma f_val_neg: "e < 0 \<Longrightarrow> f_val m e = of_int m / of_int (2 ^ nat (- e))"
  by (simp add: f_val_def power_int_def power_one_over)

lemma f_val_nonneg: "0 \<le> m \<Longrightarrow> 0 \<le> f_val m e"
  by (simp add: f_val_def)

lemma num_bits_bounds: "0 < n \<Longrightarrow> 2 ^ (num_bits n - 1) \<le> n \<and> n < 2 ^ num_bits n"
proof (induction n rule: num_bits.induct)
  case (1 n)
  show ?case
  proof (cases "n div 2 = 0")
    case True
    then have "n = 1" using 1(2) by linarith
    moreover have "num_bits 1 = 1"
      by (simp add: num_bits.simps [of "Suc 0"] num_bits.simps [of 0])
    ultimately show ?thesis by simp
  next
    case False
    then have *: "2 ^ (num_bits (n div 2) - 1) \<le> n div 2 \<and> n div 2 < 2 ^ num_bits (n div 2)"
      using 1 by simp
    obtain k where k: "num_bits (n div 2) = Suc k"
      using False by (metis num_bits.simps)
    have "num_bits n = Suc (Suc k)"
      using 1(2) k by (simp add: num_bits.simps [of n])
    then show ?thesis using * k by simp linarith
  qed
qed

lemma round_even_le: "2 ^ k * N \<ge> m \<Longrightarrow> round_even m k \<le> N"
proof -
  assume le: "m \<le> 2 ^ k * N"
  let ?q = "m div 2 ^ k" and ?r = "m mod 2 ^ k"
  have m: "m = 2 ^ k * ?q + ?r" by simp
  have "?q \<le> N"
    using le by (metis div_le_mono nonzero_mult_div_cancel_left power_not_zero zero_neq_numeral)
  moreover have "?q \<noteq> N" if "?r > 0"
    using le m that by (metis add_le_same_cancel1 not_less)
  moreover have "round_even m k = ?q + 1 \<Longrightarrow> ?r > 0"
    by (rule ccontr) (simp add: round_even_def Let_def)
  moreover have "round_even m k = ?q \<or> round_even m k = ?q + 1"
    by (simp add: round_even_def Let_def)
  ultimately show ?thesis by linarith
qed

text \<open>Rounding does not leave the interval from zero to an integer that is exact itself.\<close>

lemma f_round_within:
  assumes "0 \<le> m" and "f_val m e \<le> of_int n" and "n \<le> 2 ^ 53"
  shows "f_within n (f_round m e)"
proof (cases "num_bits (nat m) \<le> 53")
  case True
  then show ?thesis using assms by (simp add: f_round_def)
next
  case False
  define k where "k = num_bits (nat m) - 53"
  define E where "E = e + int k"
  have k: "num_bits (nat m) = 53 + k" "0 < k"
    using False by (simp_all add: k_def)
  have "0 < m"
    using k assms(1) by (cases "m = 0") (simp_all add: num_bits.simps [of 0])
  then have big: "2 ^ (52 + k) \<le> nat m"
    using num_bits_bounds [of "nat m"] k by simp
  have val: "f_val m e = of_int m / 2 ^ k * 2 powi E"
    by (simp add: f_val_def E_def power_int_add field_simps)
  have "(2 :: int) ^ (52 + k) \<le> m"
    using big \<open>0 < m\<close> by (simp add: le_nat_iff)
  then have "real_of_int (2 ^ (52 + k)) \<le> of_int m"
    by (simp only: of_int_le_iff)
  then have mant: "(2 :: real) ^ 52 \<le> of_int m / 2 ^ k"
    by (simp add: power_add field_simps)
  have n: "real_of_int n \<le> of_int (2 ^ 53)"
    using assms(3) by (simp only: of_int_le_iff)
  have "2 ^ 52 * 2 powi E \<le> of_int m / 2 ^ k * (2 :: real) powi E"
    using mant by (rule mult_right_mono) simp
  also have "\<dots> \<le> 2 ^ 53"
    using assms(2) n val by simp
  finally have E: "(2 :: real) powi E \<le> 2" by simp
  have "E \<le> 1"
  proof (rule ccontr)
    assume "\<not> E \<le> 1"
    then have "(2 :: real) powi 2 \<le> 2 powi E"
      by (intro power_int_increasing) simp_all
    then show False using E by simp
  qed
  let ?q = "round_even (nat m) k"
  have round: "f_round m e = Fin (int ?q) E"
    using k \<open>0 < m\<close> \<open>E \<le> 1\<close> by (simp add: f_round_def Let_def E_def)
  have "of_int (int ?q) * 2 powi E \<le> real_of_int n"
  proof (cases "E = 1")
    case True
    have "of_int m / 2 ^ k * 2 \<le> (2 :: real) ^ 53"
      using assms(2) n val True by simp
    then have "real_of_int m \<le> of_int (2 ^ k * 2 ^ 52)"
      by (simp add: field_simps)
    then have m: "m \<le> 2 ^ k * 2 ^ 52"
      by (simp only: of_int_le_iff)
    then have "?q \<le> 2 ^ 52"
      by (intro round_even_le) (simp add: nat_le_iff)
    then have "real ?q * 2 \<le> 2 ^ 53" by simp
    also have "(2 :: real) ^ 53 = 2 * 2 ^ 52" by simp
    also have "\<dots> \<le> 2 * (of_int m / 2 ^ k)"
      using mant by (rule mult_left_mono) simp
    also have "\<dots> = f_val m e"
      using val True by simp
    also note assms(2)
    finally show ?thesis using True by simp
  next
    case False
    with \<open>E \<le> 1\<close> have "E \<le> 0" by simp
    then have pow: "(2 :: real) powi E = 1 / 2 ^ nat (- E)"
      by (cases "E = 0") (simp_all add: power_int_def power_one_over)
    have "real_of_int m \<le> of_int (n * 2 ^ nat (- E) * 2 ^ k)"
      using assms(2) val pow by (simp add: field_simps)
    then have "m \<le> n * 2 ^ nat (- E) * 2 ^ k"
      by (simp only: of_int_le_iff)
    moreover have "0 \<le> n"
      using f_val_nonneg [OF assms(1), of e] assms(2) by simp
    ultimately have "nat m \<le> 2 ^ k * nat (n * 2 ^ nat (- E))"
      by (simp add: nat_le_iff mult.commute)
    then have "?q \<le> nat (n * 2 ^ nat (- E))"
      by (rule round_even_le)
    then have "int ?q \<le> n * 2 ^ nat (- E)"
      using \<open>0 \<le> n\<close> by (simp add: le_nat_iff)
    then have "real_of_int (int ?q) \<le> of_int (n * 2 ^ nat (- E))"
      by (simp only: of_int_le_iff)
    then have "real ?q / 2 ^ nat (- E) \<le> of_int n"
      by (simp add: pos_divide_le_eq)
    then show ?thesis
      unfolding pow by simp
  qed
  then show ?thesis
    by (simp add: round f_val_def)
qed

lemma f_round_small:
  assumes "0 \<le> d" and "d < 2 ^ 53"
  shows "f_round d e = Fin d e"
proof -
  have "num_bits (nat d) \<le> 53"
  proof (rule ccontr)
    assume "\<not> num_bits (nat d) \<le> 53"
    then have "(2 :: nat) ^ 53 \<le> 2 ^ (num_bits (nat d) - 1)"
      by (intro power_increasing) simp_all
    moreover have "0 < nat d"
      using \<open>\<not> num_bits (nat d) \<le> 53\<close> by (cases "d = 0") (use assms(1) in \<open>simp_all add: num_bits.simps [of 0]\<close>)
    ultimately have "2 ^ 53 \<le> nat d"
      using num_bits_bounds [of "nat d"] by linarith
    then show False using assms by simp
  qed
  then show ?thesis
    using assms(1) by (simp add: f_round_def)
qed

text \<open>The operations stay between zero and an integer.\<close>

lemma f_of_int_within: "0 \<le> n \<Longrightarrow> n \<le> 2 ^ 53 \<Longrightarrow> f_within n (f_of_int n)"
  unfolding f_of_int_def by (rule f_round_within) (simp_all add: f_val_def)

lemma f_mult_within:
  assumes "f_within n x" and "f_within 1 y" and "0 \<le> n" and "n \<le> 2 ^ 53"
  shows "f_within n (f_mult x y)" and "f_within n (f_mult y x)"
proof -
  obtain m e where x: "x = Fin m e" "0 \<le> m" "f_val m e \<le> of_int n"
    using assms(1) by (cases x) auto
  obtain m' e' where y: "y = Fin m' e'" "0 \<le> m'" "f_val m' e' \<le> 1"
    using assms(2) by (cases y) auto
  have "f_val m e * f_val m' e' \<le> of_int n * 1"
    using x y assms(3) f_val_nonneg by (intro mult_mono) simp_all
  moreover have "f_val (m * m') (e + e') = f_val m e * f_val m' e'"
    by (simp add: f_val_def power_int_add)
  ultimately have "f_within n (f_round (m * m') (e + e'))"
    using x y assms(4) by (intro f_round_within) simp_all
  then show "f_within n (f_mult x y)" "f_within n (f_mult y x)"
    using x y by (simp_all add: mult.commute add.commute)
qed

lemma f_one_minus_within:
  assumes "f_within 1 x"
  shows "f_within 1 (f_one_minus x)"
proof -
  obtain m e where x: "x = Fin m e" "0 \<le> m" "f_val m e \<le> 1"
    using assms by (cases x) auto
  show ?thesis
  proof (cases "0 \<le> e")
    case True
    have "real_of_int (m * 2 ^ nat e) \<le> of_int 1"
      using x True by (simp only: f_val_int of_int_1)
    then have le: "m * 2 ^ nat e \<le> 1"
      by (simp only: of_int_le_iff)
    moreover have "0 \<le> m * 2 ^ nat e"
      using x by simp
    ultimately have "f_within 1 (f_round (1 - m * 2 ^ nat e) 0)"
      using x(2) by (intro f_round_within) (simp_all add: f_val_def)
    then show ?thesis using x True by simp
  next
    case False
    then have val: "f_val k e = of_int k / 2 ^ nat (- e)" for k
      by (simp add: f_val_neg)
    have "real_of_int m \<le> of_int (2 ^ nat (- e))"
      using x by (simp add: val field_simps)
    then have "m \<le> 2 ^ nat (- e)"
      by (simp only: of_int_le_iff)
    then have "f_within 1 (f_round (2 ^ nat (- e) - m) e)"
      using x(2) by (intro f_round_within) (simp_all add: val field_simps)
    then show ?thesis using x False by simp
  qed
qed

lemma f_to_int64_within:
  assumes "f_within n x" and "n \<le> 2 ^ 53"
  shows "0 \<le> f_to_int64 undef x \<and> f_to_int64 undef x \<le> n"
proof -
  obtain m e where x: "x = Fin m e" "0 \<le> m" "f_val m e \<le> of_int n"
    using assms(1) by (cases x) auto
  have "0 \<le> scale2 m e \<and> scale2 m e \<le> n"
  proof (cases "0 \<le> e")
    case True
    then have "real_of_int (m * 2 ^ nat e) \<le> of_int n"
      using x by (simp only: f_val_int)
    then have "m * 2 ^ nat e \<le> n"
      by (simp only: of_int_le_iff)
    then show ?thesis
      using x(2) True by (simp add: scale2_def)
  next
    case False
    then have "real_of_int m \<le> of_int (n * 2 ^ nat (- e))"
      using x by (simp add: f_val_neg field_simps)
    then have "m \<le> n * 2 ^ nat (- e)"
      by (simp only: of_int_le_iff)
    then have "m div 2 ^ nat (- e) \<le> n"
      by (metis div_by_0 int_div_less_self nonzero_mult_div_cancel_right power_not_zero zdiv_mono1 zero_less_numeral zero_less_power zero_neq_numeral)
    then show ?thesis
      using x(2) False by (cases "m = 0") (simp_all add: scale2_def pos_imp_zdiv_nonneg_iff)
  qed
  then show ?thesis
    using assms(2) x by (simp add: Let_def)
qed

end
