(* ===== verification/Gx_Retry.thy ===== *)
theory Gx_Retry imports Gx_Context Gx_Float begin

text \<open>
  \<open>retry.go\<close>: the options, the loop of \<open>Do\<close> and the delays. What happens around the loop is
  given per attempt: the result of the function, \<open>ctx.Err()\<close> after it, whether the context or
  the timer ends a wait, and the value of \<open>rand.Float64()\<close>. The context is the one \<open>Do\<close>
  derives, so its answers depend on the timeout. A loop that does not end has no result.
\<close>

section \<open>Options\<close>

record retry_options =
  ro_Attempts :: int
  ro_Backoff :: f64
  ro_Delay :: int
  ro_Jitter :: f64
  ro_MaxDelay :: int
  ro_MaxDuration :: int

record retry =
  rt_attempts :: int
  rt_backoff :: f64
  rt_delay :: int
  rt_jitter :: f64
  rt_maxDelay :: int
  rt_maxDuration :: int

definition NewRetry :: "retry_options \<Rightarrow> string + retry" where
  "NewRetry opts =
     (if ro_Attempts opts < 0 then Inl ''attempts must not be negative''
      else if ro_Delay opts < 0 then Inl ''delay must not be negative''
      else if f_less_int (ro_Backoff opts) 0 then Inl ''backoff must not be negative''
      else if f_less_int (ro_Jitter opts) 0 \<or> f_greater_int (ro_Jitter opts) 1
        then Inl ''jitter must be between 0 and 1''
      else if ro_MaxDelay opts < 0 then Inl ''max delay must not be negative''
      else if ro_MaxDuration opts < 0 then Inl ''max duration must not be negative''
      else if ro_Attempts opts = 0 \<and> ro_MaxDuration opts = 0 \<and> ro_Delay opts = 0
        then Inl ''delay is required for unbounded retries''
      else
        let backoff = (if f_is_zero (ro_Backoff opts) then f_of_int 1 else ro_Backoff opts)
        in Inr \<lparr>rt_attempts = ro_Attempts opts, rt_backoff = backoff, rt_delay = ro_Delay opts,
             rt_jitter = ro_Jitter opts, rt_maxDelay = ro_MaxDelay opts, rt_maxDuration = ro_MaxDuration opts\<rparr>)"

section \<open>Delays\<close>

record retry_env =
  re_fn :: "nat \<Rightarrow> error option"
  re_err :: "int option \<Rightarrow> nat \<Rightarrow> error option"
  re_done :: "int option \<Rightarrow> nat \<Rightarrow> int \<Rightarrow> error option"
  re_rand :: "nat \<Rightarrow> f64"
  re_undef :: "f64 \<Rightarrow> int"

definition wrap64 :: "int \<Rightarrow> int" where
  "wrap64 n = (n + 2 ^ 63) mod 2 ^ 64 - 2 ^ 63"

definition jitterDelay :: "retry_env \<Rightarrow> retry \<Rightarrow> nat \<Rightarrow> int \<Rightarrow> int" where
  "jitterDelay W r i delay =
     (if delay = 0 \<or> f_is_zero (rt_jitter r) then delay
      else
        let minDelay = f_to_int64 (re_undef W) (f_mult (f_of_int delay) (f_one_minus (rt_jitter r)))
        in wrap64 (minDelay +
             f_to_int64 (re_undef W) (f_mult (re_rand W i) (f_of_int (wrap64 (delay - minDelay))))))"

definition next_delay :: "retry_env \<Rightarrow> retry \<Rightarrow> int \<Rightarrow> int" where
  "next_delay W r delay =
     (let delay = f_to_int64 (re_undef W) (f_mult (f_of_int delay) (rt_backoff r))
      in if rt_maxDelay r > 0 \<and> delay > rt_maxDelay r then rt_maxDelay r else delay)"

section \<open>The loop\<close>

text \<open>\<open>context.WithTimeout\<close>, when there is a maximal duration.\<close>

definition retry_timeout :: "retry \<Rightarrow> int option" where
  "retry_timeout r = (if rt_maxDuration r > 0 then Some (rt_maxDuration r) else None)"

text \<open>
  From attempt \<open>i\<close> with the current delay and the waits so far: the error returned, the number
  of calls of the function, and the waits the timer was started with.
\<close>

partial_function (option) retry_loop ::
  "retry_env \<Rightarrow> retry \<Rightarrow> nat \<Rightarrow> int \<Rightarrow> int list \<Rightarrow> (error option \<times> nat \<times> int list) option" where
  "retry_loop W r i delay waits =
     (case re_fn W i of
        None \<Rightarrow> Some (None, Suc i, waits)
      | Some err \<Rightarrow>
          if rt_attempts r > 0 \<and> int i = rt_attempts r - 1 then Some (Some err, Suc i, waits)
          else case re_err W (retry_timeout r) i of
            Some e \<Rightarrow> Some (Some e, Suc i, waits)
          | None \<Rightarrow>
              if delay > 0 then
                case re_done W (retry_timeout r) i (jitterDelay W r i delay) of
                  Some e \<Rightarrow> Some (Some e, Suc i, waits @ [jitterDelay W r i delay])
                | None \<Rightarrow> retry_loop W r (Suc i) (next_delay W r delay) (waits @ [jitterDelay W r i delay])
              else retry_loop W r (Suc i) (next_delay W r delay) waits)"

definition retry_Do :: "retry_env \<Rightarrow> retry \<Rightarrow> (error option \<times> nat \<times> int list) option" where
  "retry_Do W r = retry_loop W r 0 (rt_delay r) []"

section \<open>The reference\<close>

text \<open>The delay before the jitter after attempt \<open>i\<close>, and what ends the loop at that attempt.\<close>

fun delay_at :: "retry_env \<Rightarrow> retry \<Rightarrow> nat \<Rightarrow> int" where
  "delay_at W r 0 = rt_delay r"
| "delay_at W r (Suc i) = next_delay W r (delay_at W r i)"

definition outcome_at :: "retry_env \<Rightarrow> retry \<Rightarrow> nat \<Rightarrow> error option option" where
  "outcome_at W r i =
     (case re_fn W i of
        None \<Rightarrow> Some None
      | Some err \<Rightarrow>
          if rt_attempts r > 0 \<and> int i = rt_attempts r - 1 then Some (Some err)
          else case re_err W (retry_timeout r) i of
            Some e \<Rightarrow> Some (Some e)
          | None \<Rightarrow>
              if delay_at W r i > 0 then map_option Some (re_done W (retry_timeout r) i (jitterDelay W r i (delay_at W r i)))
              else None)"

definition waits_upto :: "retry_env \<Rightarrow> retry \<Rightarrow> nat \<Rightarrow> int list" where
  "waits_upto W r n =
     map (\<lambda>i. jitterDelay W r i (delay_at W r i)) (filter (\<lambda>i. delay_at W r i > 0) [0..<n])"

definition waits_after :: "retry_env \<Rightarrow> retry \<Rightarrow> nat \<Rightarrow> int list" where
  "waits_after W r i =
     (if re_fn W i \<noteq> None \<and> \<not> (rt_attempts r > 0 \<and> int i = rt_attempts r - 1) \<and>
         re_err W (retry_timeout r) i = None
      then waits_upto W r (Suc i) else waits_upto W r i)"

lemma waits_upto_simps:
  "waits_upto W r 0 = []"
  "waits_upto W r (Suc n) =
     waits_upto W r n @ (if delay_at W r n > 0 then [jitterDelay W r n (delay_at W r n)] else [])"
  by (simp_all add: waits_upto_def)

lemma loop_body:
  "(case re_fn W i of
      None \<Rightarrow> Some (None, Suc i, waits_upto W r i)
    | Some err \<Rightarrow>
        if rt_attempts r > 0 \<and> int i = rt_attempts r - 1 then Some (Some err, Suc i, waits_upto W r i)
        else case re_err W (retry_timeout r) i of
          Some e \<Rightarrow> Some (Some e, Suc i, waits_upto W r i)
        | None \<Rightarrow>
            if delay_at W r i > 0 then
              case re_done W (retry_timeout r) i (jitterDelay W r i (delay_at W r i)) of
                Some e \<Rightarrow> Some (Some e, Suc i, waits_upto W r i @ [jitterDelay W r i (delay_at W r i)])
              | None \<Rightarrow> f W r (Suc i) (next_delay W r (delay_at W r i))
                  (waits_upto W r i @ [jitterDelay W r i (delay_at W r i)])
            else f W r (Suc i) (next_delay W r (delay_at W r i)) (waits_upto W r i)) =
   (case outcome_at W r i of
      Some res \<Rightarrow> Some (res, Suc i, waits_after W r i)
    | None \<Rightarrow> f W r (Suc i) (delay_at W r (Suc i)) (waits_upto W r (Suc i)))"
  by (auto simp: outcome_at_def waits_after_def waits_upto_simps split: option.split)

lemma loop_step:
  "retry_loop W r i (delay_at W r i) (waits_upto W r i) =
     (case outcome_at W r i of
        Some res \<Rightarrow> Some (res, Suc i, waits_after W r i)
      | None \<Rightarrow> retry_loop W r (Suc i) (delay_at W r (Suc i)) (waits_upto W r (Suc i)))"
  by (subst retry_loop.simps) (rule loop_body)

lemma loop_stops:
  assumes "outcome_at W r (i + n) = Some res" and "\<And>j. i \<le> j \<Longrightarrow> j < i + n \<Longrightarrow> outcome_at W r j = None"
  shows "retry_loop W r i (delay_at W r i) (waits_upto W r i) = Some (res, Suc (i + n), waits_after W r (i + n))"
  using assms
proof (induction n arbitrary: i)
  case 0
  then show ?case by (simp add: loop_step)
next
  case (Suc n)
  have "outcome_at W r i = None"
    using Suc.prems(2) [of i] by simp
  then have "retry_loop W r i (delay_at W r i) (waits_upto W r i) =
      retry_loop W r (Suc i) (delay_at W r (Suc i)) (waits_upto W r (Suc i))"
    by (subst loop_step) simp
  also have "\<dots> = Some (res, Suc (Suc i + n), waits_after W r (Suc i + n))"
    using Suc.prems by (intro Suc.IH) simp_all
  finally show ?case by simp
qed

text \<open>A result comes from the first attempt that ends the loop.\<close>

definition from_first :: "retry_env \<Rightarrow> retry \<Rightarrow> nat \<Rightarrow> int \<Rightarrow> int list \<Rightarrow> error option \<times> nat \<times> int list \<Rightarrow> bool" where
  "from_first W r i d ws y \<longleftrightarrow>
     (d = delay_at W r i \<and> ws = waits_upto W r i \<longrightarrow>
      (\<exists>k \<ge> i. \<exists>res. outcome_at W r k = Some res \<and> y = (res, Suc k, waits_after W r k) \<and>
        (\<forall>j. i \<le> j \<and> j < k \<longrightarrow> outcome_at W r j = None)))"

lemma loop_returns: "retry_loop W r i d ws = Some y \<Longrightarrow> from_first W r i d ws y"
proof (rule retry_loop.raw_induct [where P = from_first], goal_cases)
  case (1 f W r i d ws y)
  note IH = 1(2) and body = 1(3)
  show ?case
    unfolding from_first_def
  proof (intro impI)
    assume "d = delay_at W r i \<and> ws = waits_upto W r i"
    then have eqs: "d = delay_at W r i" "ws = waits_upto W r i" by simp_all
    have step: "(case outcome_at W r i of
        Some res \<Rightarrow> Some (res, Suc i, waits_after W r i)
      | None \<Rightarrow> f W r (Suc i) (delay_at W r (Suc i)) (waits_upto W r (Suc i))) = Some y"
      using body unfolding eqs loop_body .
    show "\<exists>k \<ge> i. \<exists>res. outcome_at W r k = Some res \<and> y = (res, Suc k, waits_after W r k) \<and>
       (\<forall>j. i \<le> j \<and> j < k \<longrightarrow> outcome_at W r j = None)"
    proof (cases "outcome_at W r i")
      case None
      then have "f W r (Suc i) (delay_at W r (Suc i)) (waits_upto W r (Suc i)) = Some y"
        using step by simp
      from IH [OF this] obtain k res where k: "Suc i \<le> k" "outcome_at W r k = Some res"
          "y = (res, Suc k, waits_after W r k)" "\<forall>j. Suc i \<le> j \<and> j < k \<longrightarrow> outcome_at W r j = None"
        unfolding from_first_def by blast
      then have "\<forall>j. i \<le> j \<and> j < k \<longrightarrow> outcome_at W r j = None"
        using None by (metis Suc_leI le_eq_less_or_eq)
      then show ?thesis using k by (intro exI [of _ k]) simp
    next
      case (Some res)
      then show ?thesis using step by (intro exI [of _ i]) auto
    qed
  qed
qed assumption

section \<open>Delays stay in range\<close>












lemma Do_result:
  assumes "retry_Do W r = Some (res, n, waits)"
  shows "\<exists>k. n = Suc k \<and> outcome_at W r k = Some res \<and> waits = waits_after W r k \<and>
    (\<forall>j < k. outcome_at W r j = None)"
proof -
  have "from_first W r 0 (rt_delay r) [] (res, n, waits)"
    using assms unfolding retry_Do_def by (rule loop_returns)
  then show ?thesis
    by (auto simp: from_first_def waits_upto_simps)
qed

lemma Do_stops:
  assumes "outcome_at W r k \<noteq> None"
  shows "\<exists>res n waits. retry_Do W r = Some (res, n, waits) \<and> n \<le> Suc k"
proof -
  define l where "l = (LEAST k. outcome_at W r k \<noteq> None)"
  have l: "outcome_at W r l \<noteq> None" "l \<le> k" "\<And>j. j < l \<Longrightarrow> outcome_at W r j = None"
    unfolding l_def using assms by (auto intro: LeastI Least_le dest: not_less_Least)
  then obtain res where "outcome_at W r (0 + l) = Some res" by auto
  from loop_stops [OF this] l(3) have "retry_Do W r = Some (res, Suc l, waits_after W r l)"
    by (simp add: retry_Do_def waits_upto_simps)
  then show ?thesis using l(2) by simp
qed

lemma outcome_stops:
  "re_fn W j = None \<or> re_err W (retry_timeout r) j \<noteq> None \<or> int j = rt_attempts r - 1 \<and> rt_attempts r > 0 \<Longrightarrow>
     outcome_at W r j \<noteq> None"
  by (auto simp: outcome_at_def split: option.split)

lemma outcome_goes_on:
  "outcome_at W r j = None \<Longrightarrow> re_fn W j \<noteq> None \<and> re_err W (retry_timeout r) j = None"
  by (auto simp: outcome_at_def split: option.splits if_splits)

lemma outcome_result:
  assumes "outcome_at W r k = Some res"
  shows "(res = None \<longleftrightarrow> re_fn W k = None) \<and>
    (res \<noteq> None \<longrightarrow>
       (if rt_attempts r > 0 \<and> int (Suc k) = rt_attempts r then res = re_fn W k
        else res = re_err W (retry_timeout r) k \<or>
             (\<exists>w \<in> set (waits_after W r k). res = re_done W (retry_timeout r) k w)))"
  using assms
  by (auto simp: outcome_at_def waits_after_def waits_upto_simps split: option.splits if_splits) metis+

lemma Do_limited:
  assumes "rt_attempts r > 0"
  shows "\<exists>res n waits. retry_Do W r = Some (res, n, waits) \<and> int n \<le> rt_attempts r"
proof -
  have "outcome_at W r (nat (rt_attempts r - 1)) \<noteq> None"
    using assms by (intro outcome_stops) simp
  from Do_stops [OF this] show ?thesis
    using assms by fastforce
qed

text \<open>
  A function that always fails, in a context that never ends, with the least random value.
\<close>

definition failing_env :: retry_env where
  "failing_env =
     \<lparr>re_fn = (\<lambda>i. Some (NewError i ''failed'')), re_err = (\<lambda>t i. None), re_done = (\<lambda>t i d. None),
      re_rand = (\<lambda>i. Fin 0 0), re_undef = (\<lambda>x. - (2 ^ 63))\<rparr>"




text \<open>
  The check for unbounded retries asks for a delay, but a backoff below one uses it up: from
  a millisecond, halving leaves no delay after twenty attempts, and the loop then spins.
\<close>

definition halving_retry :: retry_options where
  "halving_retry =
     \<lparr>ro_Attempts = 0, ro_Backoff = Fin 1 (- 1), ro_Delay = 10 ^ 6, ro_Jitter = Fin 0 0, ro_MaxDelay = 0,
      ro_MaxDuration = 0\<rparr>"

lemma next_delay_halving:
  assumes "rt_backoff r = Fin 1 (- 1)" and "rt_maxDelay r = 0" and "0 \<le> d" and "d < 2 ^ 53"
  shows "next_delay W r d = d div 2"
proof -
  have "d = 0 \<or> sgn d = 1" using assms(3) by (auto simp: sgn_if)
  then show ?thesis
    using assms by (auto simp: next_delay_def Let_def scale2_def f_of_int_def f_round_small)
qed

lemma delay_at_halving:
  assumes "rt_backoff r = Fin 1 (- 1)" and "rt_maxDelay r = 0" and "0 \<le> rt_delay r" and "rt_delay r < 2 ^ 53"
  shows "delay_at W r n = rt_delay r div 2 ^ n"
proof (induction n)
  case (Suc n)
  have "rt_delay r div 2 ^ n \<le> rt_delay r" "0 \<le> rt_delay r div 2 ^ n"
    using assms(3) int_div_le_self by (force, simp add: pos_imp_zdiv_nonneg_iff)
  with Suc next_delay_halving [OF assms(1,2), of "rt_delay r div 2 ^ n" W] assms(4)
  show ?case by (simp add: power_Suc2 zdiv_zmult2_eq del: power_Suc)
qed simp

lemma halving_uses_up_the_delay:
  "\<exists>r. NewRetry halving_retry = Inr r \<and> (\<forall>n \<ge> 20. delay_at W r n = 0)"
proof -
  define r where "r = projr (NewRetry halving_retry)"
  have r: "NewRetry halving_retry = Inr r"
    by (simp add: r_def NewRetry_def halving_retry_def Let_def)
  have fields: "rt_backoff r = Fin 1 (- 1)" "rt_maxDelay r = 0" "rt_delay r = 10 ^ 6"
    by (simp_all add: r_def NewRetry_def halving_retry_def Let_def)
  have "delay_at W r n = 0" if "20 \<le> n" for n
  proof -
    have "(2 :: int) ^ 20 \<le> 2 ^ n" using that by (intro power_increasing) simp_all
    then show ?thesis
      using fields by (simp add: delay_at_halving)
  qed
  then show ?thesis using r by blast
qed

section \<open>Properties\<close>

text \<open>
  C26: When \<open>Do\<close> returns, and with what. It returns after the first attempt that succeeds, is
  the last one allowed, or finds the context done; before that attempt the function failed
  every time. The result is nil exactly on success, the error of the function if the attempts
  are used up, and else the error of the context. With a limit of attempts it always returns,
  after at most that many calls; without one it returns if the function succeeds or the
  context ends at some attempt.
\<close>

theorem retry_Do_returns:
  "(rt_attempts r > 0 \<longrightarrow> (\<exists>res n waits. retry_Do W r = Some (res, n, waits) \<and> int n \<le> rt_attempts r)) \<and>
   (re_fn W i = None \<or> re_err W (retry_timeout r) i \<noteq> None \<longrightarrow>
      (\<exists>res n waits. retry_Do W r = Some (res, n, waits) \<and> n \<le> Suc i)) \<and>
   (case retry_Do W r of
      None \<Rightarrow> (\<forall>k. re_fn W k \<noteq> None) \<and> rt_attempts r \<le> 0
    | Some (res, n, waits) \<Rightarrow>
        0 < n \<and> (\<forall>j < n - 1. re_fn W j \<noteq> None \<and> re_err W (retry_timeout r) j = None) \<and>
        (res = None \<longleftrightarrow> re_fn W (n - 1) = None) \<and>
        (res \<noteq> None \<longrightarrow>
           (if rt_attempts r > 0 \<and> int n = rt_attempts r then res = re_fn W (n - 1)
            else res = re_err W (retry_timeout r) (n - 1) \<or>
                 (\<exists>w \<in> set waits. res = re_done W (retry_timeout r) (n - 1) w))))"
proof (intro conjI impI)
  assume "rt_attempts r > 0"
  then show "\<exists>res n waits. retry_Do W r = Some (res, n, waits) \<and> int n \<le> rt_attempts r"
    by (rule Do_limited)
next
  assume "re_fn W i = None \<or> re_err W (retry_timeout r) i \<noteq> None"
  then show "\<exists>res n waits. retry_Do W r = Some (res, n, waits) \<and> n \<le> Suc i"
    by (intro Do_stops outcome_stops) blast
next
  show "case retry_Do W r of
      None \<Rightarrow> (\<forall>k. re_fn W k \<noteq> None) \<and> rt_attempts r \<le> 0
    | Some (res, n, waits) \<Rightarrow>
        0 < n \<and> (\<forall>j < n - 1. re_fn W j \<noteq> None \<and> re_err W (retry_timeout r) j = None) \<and>
        (res = None \<longleftrightarrow> re_fn W (n - 1) = None) \<and>
        (res \<noteq> None \<longrightarrow>
           (if rt_attempts r > 0 \<and> int n = rt_attempts r then res = re_fn W (n - 1)
            else res = re_err W (retry_timeout r) (n - 1) \<or>
                 (\<exists>w \<in> set waits. res = re_done W (retry_timeout r) (n - 1) w)))"
  proof (cases "retry_Do W r")
    case None
    then have "re_fn W k \<noteq> None" for k
      using Do_stops [of W r k] outcome_goes_on [of W r k] by fastforce
    moreover have "rt_attempts r \<le> 0"
      using Do_limited [of r W] None by fastforce
    ultimately show ?thesis using None by simp
  next
    case (Some y)
    obtain res n waits where y: "y = (res, n, waits)" by (cases y)
    then obtain k where k: "n = Suc k" "outcome_at W r k = Some res" "waits = waits_after W r k"
        "\<forall>j < k. outcome_at W r j = None"
      using Do_result Some by blast
    have "\<forall>j < k. re_fn W j \<noteq> None \<and> re_err W (retry_timeout r) j = None"
      using k(4) by (intro allI impI outcome_goes_on) simp
    then show ?thesis
      using Some y k outcome_result [OF k(2)] by simp
  qed
qed

definition example_retry :: "int \<Rightarrow> int \<Rightarrow> retry_options" where
  "example_retry delay maxDelay =
     \<lparr>ro_Attempts = 3, ro_Backoff = Fin 0 0, ro_Delay = delay, ro_Jitter = Fin 0 0, ro_MaxDelay = maxDelay,
      ro_MaxDuration = 0\<rparr>"

lemma retry_Do_returns_witness:
  "\<exists>res n waits. retry_Do failing_env (projr (NewRetry (example_retry 10 1))) = Some (res, n, waits) \<and> int n \<le> 3"
proof -
  have "rt_attempts (projr (NewRetry (example_retry 10 1))) = 3"
    by (simp add: NewRetry_def example_retry_def Let_def)
  then show ?thesis
    using retry_Do_returns [of "projr (NewRetry (example_retry 10 1))" failing_env 0] by simp
qed



end
