(* ===== verification/Gx_Values.thy ===== *)
theory Gx_Values imports Gx_Strings Gx_Float Gx_Context begin

text \<open>
  Go values behind \<open>any\<close>, as \<open>reflect\<close> shows them to the assertion packages: a value
  carries its dynamic type, a pointer its address and what it points to, a slice, map, function
  or channel its address or nil. Values are finite, so cyclic ones are left out. With them,
  \<open>reflect.DeepEqual\<close>, the comparisons of \<open>cmp.Ordered\<close>, nil checks and lengths.
\<close>

section \<open>Values\<close>

datatype kind =
    KInvalid | KBool | KInt | KFloat | KString | KArray | KStruct | KSlice | KMap | KPointer | KFunc | KChan
  | KUnsafePointer | KInterface

text \<open>
  A type: the path of its package, its name as \<open>%T\<close> prints it, and the kind, size and array
  length of its element type.
\<close>

datatype gtype =
  GType (ty_path: string) (ty_name: string) (ty_elem: kind) (ty_elem_size: nat) (ty_elem_len: nat)

definition string_type :: gtype where
  "string_type = GType '''' ''string'' KInvalid 0 0"

text \<open>
  A slice has an address, a capacity and its elements, a map an address and its entries (keys
  pairwise different), a function the address of its closure and that of its code, a channel
  an address and the number of values in its buffer.
\<close>

datatype gval =
    VBool gtype bool
  | VInt gtype int
  | VFloat gtype f64
  | VString gtype string
  | VArray gtype "gval list"
  | VStruct gtype "gval list"
  | VSlice gtype "(nat \<times> nat \<times> gval list) option"
  | VMap gtype "(nat \<times> (gval \<times> gval) list) option"
  | VPointer gtype "(nat \<times> gval) option"
  | VFunc gtype "(nat \<times> nat) option"
  | VChan gtype "(nat \<times> nat) option"
  | VUnsafe gtype nat
  | VIface gtype "gval option"

type_synonym any = "gval option"

fun type_of :: "gval \<Rightarrow> gtype" where
  "type_of (VBool t b) = t" | "type_of (VInt t i) = t" | "type_of (VFloat t f) = t" | "type_of (VString t s) = t"
| "type_of (VArray t xs) = t" | "type_of (VStruct t xs) = t" | "type_of (VSlice t s) = t" | "type_of (VMap t m) = t"
| "type_of (VPointer t p) = t" | "type_of (VFunc t f) = t" | "type_of (VChan t c) = t" | "type_of (VUnsafe t a) = t"
| "type_of (VIface t v) = t"

fun kind_of :: "gval \<Rightarrow> kind" where
  "kind_of (VBool t b) = KBool" | "kind_of (VInt t i) = KInt" | "kind_of (VFloat t f) = KFloat"
| "kind_of (VString t s) = KString" | "kind_of (VArray t xs) = KArray" | "kind_of (VStruct t xs) = KStruct"
| "kind_of (VSlice t s) = KSlice" | "kind_of (VMap t m) = KMap" | "kind_of (VPointer t p) = KPointer"
| "kind_of (VFunc t f) = KFunc" | "kind_of (VChan t c) = KChan" | "kind_of (VUnsafe t a) = KUnsafePointer"
| "kind_of (VIface t v) = KInterface"

text \<open>\<open>Kind\<close> of \<open>reflect.ValueOf\<close>, \<open>reflect.TypeOf\<close> and \<open>%T\<close>; a nil interface has no type.\<close>

fun kind_of_any :: "any \<Rightarrow> kind" where
  "kind_of_any None = KInvalid"
| "kind_of_any (Some v) = kind_of v"

definition TypeOf :: "any \<Rightarrow> gtype option" where
  "TypeOf v = map_option type_of v"

definition type_text :: "any \<Rightarrow> string" where
  "type_text v = (case v of None \<Rightarrow> ''<nil>'' | Some x \<Rightarrow> ty_name (type_of x))"

text \<open>
  \<open>IsNil\<close>, \<open>Pointer\<close>, \<open>Len\<close> and \<open>Cap\<close>, for the kinds that have them. \<open>Pointer\<close> of a
  function is the address of its code, which all closures of one literal share.
\<close>

fun v_IsNil :: "gval \<Rightarrow> bool" where
  "v_IsNil (VSlice t s) = (s = None)" | "v_IsNil (VMap t m) = (m = None)" | "v_IsNil (VPointer t p) = (p = None)"
| "v_IsNil (VFunc t f) = (f = None)" | "v_IsNil (VChan t c) = (c = None)" | "v_IsNil (VIface t v) = (v = None)"
| "v_IsNil (VUnsafe t a) = (a = 0)" | "v_IsNil _ = False"

definition addr :: "(nat \<times> 'a) option \<Rightarrow> nat" where
  "addr p = (case p of None \<Rightarrow> 0 | Some (a, _) \<Rightarrow> a)"

fun v_Pointer :: "gval \<Rightarrow> nat" where
  "v_Pointer (VSlice t s) = addr s" | "v_Pointer (VMap t m) = addr m" | "v_Pointer (VPointer t p) = addr p"
| "v_Pointer (VFunc t f) = (case f of None \<Rightarrow> 0 | Some (_, code) \<Rightarrow> code)" | "v_Pointer (VChan t c) = addr c"
| "v_Pointer (VUnsafe t a) = a" | "v_Pointer _ = 0"

fun v_Len :: "gval \<Rightarrow> nat" where
  "v_Len (VString t s) = length s" | "v_Len (VArray t xs) = length xs"
| "v_Len (VSlice t s) = (case s of None \<Rightarrow> 0 | Some (_, _, xs) \<Rightarrow> length xs)"
| "v_Len (VMap t m) = (case m of None \<Rightarrow> 0 | Some (_, es) \<Rightarrow> length es)"
| "v_Len (VChan t c) = (case c of None \<Rightarrow> 0 | Some (_, n) \<Rightarrow> n)"
| "v_Len (VPointer t p) = ty_elem_len t" | "v_Len _ = 0"

fun v_Cap :: "gval \<Rightarrow> nat" where
  "v_Cap (VSlice t s) = (case s of None \<Rightarrow> 0 | Some (_, c, _) \<Rightarrow> c)" | "v_Cap _ = 0"

text \<open>\<open>Index\<close> over a slice or an array and \<open>MapKeys\<close>, each followed by \<open>Interface\<close>.\<close>

fun v_Interface :: "gval \<Rightarrow> any" where
  "v_Interface (VIface t v) = v"
| "v_Interface v = Some v"

fun v_elems :: "gval \<Rightarrow> any list" where
  "v_elems (VArray t xs) = map v_Interface xs"
| "v_elems (VSlice t s) = (case s of None \<Rightarrow> [] | Some (_, _, xs) \<Rightarrow> map v_Interface xs)"
| "v_elems _ = []"

fun v_keys :: "gval \<Rightarrow> any list" where
  "v_keys (VMap t m) = (case m of None \<Rightarrow> [] | Some (_, es) \<Rightarrow> map (v_Interface \<circ> fst) es)"
| "v_keys _ = []"

section \<open>Equality of map keys\<close>

text \<open>The operator \<open>==\<close> on comparable values: by address for pointers and channels.\<close>

fun key_eq :: "gval \<Rightarrow> gval \<Rightarrow> bool" and key_eq_list :: "gval list \<Rightarrow> gval list \<Rightarrow> bool" where
  "key_eq (VBool t a) y = (case y of VBool t' b \<Rightarrow> t = t' \<and> a = b | _ \<Rightarrow> False)"
| "key_eq (VInt t a) y = (case y of VInt t' b \<Rightarrow> t = t' \<and> a = b | _ \<Rightarrow> False)"
| "key_eq (VFloat t a) y = (case y of VFloat t' b \<Rightarrow> t = t' \<and> f_eq a b | _ \<Rightarrow> False)"
| "key_eq (VString t a) y = (case y of VString t' b \<Rightarrow> t = t' \<and> a = b | _ \<Rightarrow> False)"
| "key_eq (VArray t a) y = (case y of VArray t' b \<Rightarrow> t = t' \<and> key_eq_list a b | _ \<Rightarrow> False)"
| "key_eq (VStruct t a) y = (case y of VStruct t' b \<Rightarrow> t = t' \<and> key_eq_list a b | _ \<Rightarrow> False)"
| "key_eq (VPointer t a) y = (case y of VPointer t' b \<Rightarrow> t = t' \<and> map_option fst a = map_option fst b | _ \<Rightarrow> False)"
| "key_eq (VChan t a) y = (case y of VChan t' b \<Rightarrow> t = t' \<and> map_option fst a = map_option fst b | _ \<Rightarrow> False)"
| "key_eq (VUnsafe t a) y = (case y of VUnsafe t' b \<Rightarrow> t = t' \<and> a = b | _ \<Rightarrow> False)"
| "key_eq (VIface t a) y =
     (case y of
        VIface t' b \<Rightarrow>
          t = t' \<and> (case a of None \<Rightarrow> b = None | Some v \<Rightarrow> (case b of None \<Rightarrow> False | Some w \<Rightarrow> key_eq v w))
      | _ \<Rightarrow> False)"
| "key_eq (VSlice t a) y = False"
| "key_eq (VMap t a) y = False"
| "key_eq (VFunc t a) y = False"
| "key_eq_list [] ys = (ys = [])"
| "key_eq_list (x # xs) ys = (case ys of [] \<Rightarrow> False | y # ys' \<Rightarrow> key_eq x y \<and> key_eq_list xs ys')"

text \<open>\<open>MapIndex\<close>: the value of a key, if the map has it.\<close>

fun map_index :: "gval \<Rightarrow> (gval \<times> gval) list \<Rightarrow> gval option" where
  "map_index k [] = None"
| "map_index k ((k', v) # es) = (if key_eq k k' then Some v else map_index k es)"

section \<open>Deep equality\<close>

text \<open>
  \<open>reflect.DeepEqual\<close>. Two slices of the same length, maps of the same length or pointers
  are equal when their addresses are; a nil slice or map differs from an empty one, functions
  are equal only when both are nil. A key different from itself is found in no map.
\<close>

fun deep :: "gval \<Rightarrow> gval \<Rightarrow> bool"
  and deep_list :: "gval list \<Rightarrow> gval list \<Rightarrow> bool"
  and deep_map :: "(gval \<times> gval) list \<Rightarrow> (gval \<times> gval) list \<Rightarrow> bool" where
  "deep (VBool t a) y = (case y of VBool t' b \<Rightarrow> t = t' \<and> a = b | _ \<Rightarrow> False)"
| "deep (VInt t a) y = (case y of VInt t' b \<Rightarrow> t = t' \<and> a = b | _ \<Rightarrow> False)"
| "deep (VFloat t a) y = (case y of VFloat t' b \<Rightarrow> t = t' \<and> f_eq a b | _ \<Rightarrow> False)"
| "deep (VString t a) y = (case y of VString t' b \<Rightarrow> t = t' \<and> a = b | _ \<Rightarrow> False)"
| "deep (VArray t a) y = (case y of VArray t' b \<Rightarrow> t = t' \<and> deep_list a b | _ \<Rightarrow> False)"
| "deep (VStruct t a) y = (case y of VStruct t' b \<Rightarrow> t = t' \<and> deep_list a b | _ \<Rightarrow> False)"
| "deep (VSlice t a) y =
     (case y of
        VSlice t' b \<Rightarrow>
          t = t' \<and> (case a of
             None \<Rightarrow> b = None
           | Some (p, c, xs) \<Rightarrow>
               (case b of
                  None \<Rightarrow> False
                | Some (q, d, ys) \<Rightarrow> length xs = length ys \<and> (p = q \<or> deep_list xs ys)))
      | _ \<Rightarrow> False)"
| "deep (VMap t a) y =
     (case y of
        VMap t' b \<Rightarrow>
          t = t' \<and> (case a of
             None \<Rightarrow> b = None
           | Some (p, es) \<Rightarrow>
               (case b of
                  None \<Rightarrow> False
                | Some (q, fs) \<Rightarrow> length es = length fs \<and> (p = q \<or> deep_map es fs)))
      | _ \<Rightarrow> False)"
| "deep (VPointer t a) y =
     (case y of
        VPointer t' b \<Rightarrow>
          t = t' \<and> (case a of
             None \<Rightarrow> b = None
           | Some (p, v) \<Rightarrow> (case b of None \<Rightarrow> False | Some (q, w) \<Rightarrow> p = q \<or> deep v w))
      | _ \<Rightarrow> False)"
| "deep (VFunc t a) y = (case y of VFunc t' b \<Rightarrow> t = t' \<and> a = None \<and> b = None | _ \<Rightarrow> False)"
| "deep (VChan t a) y = (case y of VChan t' b \<Rightarrow> t = t' \<and> map_option fst a = map_option fst b | _ \<Rightarrow> False)"
| "deep (VUnsafe t a) y = (case y of VUnsafe t' b \<Rightarrow> t = t' \<and> a = b | _ \<Rightarrow> False)"
| "deep (VIface t a) y =
     (case y of
        VIface t' b \<Rightarrow>
          t = t' \<and> (case a of None \<Rightarrow> b = None | Some v \<Rightarrow> (case b of None \<Rightarrow> False | Some w \<Rightarrow> deep v w))
      | _ \<Rightarrow> False)"
| "deep_list [] ys = (ys = [])"
| "deep_list (x # xs) ys = (case ys of [] \<Rightarrow> False | y # ys' \<Rightarrow> deep x y \<and> deep_list xs ys')"
| "deep_map [] fs = True"
| "deep_map ((k, v) # es) fs =
     (key_eq k k \<and> (case map_index k fs of None \<Rightarrow> False | Some w \<Rightarrow> deep v w) \<and> deep_map es fs)"

definition DeepEqual :: "any \<Rightarrow> any \<Rightarrow> bool" where
  "DeepEqual x y =
     (case x of None \<Rightarrow> y = None | Some v \<Rightarrow> (case y of None \<Rightarrow> False | Some w \<Rightarrow> deep v w))"

section \<open>Order\<close>

text \<open>The operators \<open><\<close> and \<open><=\<close> on integers, floats and strings, the types of \<open>cmp.Ordered\<close>.\<close>

fun str_less :: "string \<Rightarrow> string \<Rightarrow> bool" where
  "str_less xs [] = False"
| "str_less [] (y # ys) = True"
| "str_less (x # xs) (y # ys) = (of_char x < (of_char y :: nat) \<or> x = y \<and> str_less xs ys)"

fun go_less :: "gval \<Rightarrow> gval \<Rightarrow> bool" where
  "go_less (VInt t a) (VInt t' b) = (a < b)"
| "go_less (VFloat t a) (VFloat t' b) = f_less a b"
| "go_less (VString t a) (VString t' b) = str_less a b"
| "go_less _ _ = False"

fun go_le :: "gval \<Rightarrow> gval \<Rightarrow> bool" where
  "go_le (VInt t a) (VInt t' b) = (a \<le> b)"
| "go_le (VFloat t a) (VFloat t' b) = (f_less a b \<or> f_eq a b)"
| "go_le (VString t a) (VString t' b) = (str_less a b \<or> a = b)"
| "go_le _ _ = False"

section \<open>Errors\<close>

text \<open>
  An error by its identity, its text, the errors its own \<open>Is\<close> method accepts and those it
  wraps; \<open>errors.Is\<close> walks the tree.
\<close>

datatype go_error = GoError (err_id: nat) (err_text: string) (err_is: "nat list") (err_wraps: "go_error list")

fun go_errors_Is :: "go_error \<Rightarrow> go_error \<Rightarrow> bool" where
  "go_errors_Is (GoError i s is ws) target =
     (i = err_id target \<or> err_id target \<in> set is \<or> list_ex (\<lambda>w. go_errors_Is w target) ws)"

section \<open>Facts\<close>

text \<open>A value that differs from itself: a \<open>NaN\<close> or a function not behind an address.\<close>

fun irreflexive :: "gval \<Rightarrow> bool" where
  "irreflexive (VFloat t f) = (f = NaN)"
| "irreflexive (VFunc t f) = (f \<noteq> None)"
| "irreflexive (VArray t xs) = list_ex irreflexive xs"
| "irreflexive (VStruct t xs) = list_ex irreflexive xs"
| "irreflexive (VIface t v) = (case v of None \<Rightarrow> False | Some w \<Rightarrow> irreflexive w)"
| "irreflexive _ = False"

lemma f_eq_refl [simp]: "f_eq a a \<longleftrightarrow> a \<noteq> NaN"
  by (cases a) auto

lemma deep_list_same: "deep_list xs xs \<longleftrightarrow> (\<forall>x\<in>set xs. deep x x)"
  by (induction xs) simp_all

lemma deep_refl: "deep x x \<longleftrightarrow> \<not> irreflexive x"
  by (induction x rule: irreflexive.induct)
    (auto simp: deep_list_same list_ex_iff simp del: not_None_eq split: option.splits)

lemma f_less_irrefl: "f_less a b \<Longrightarrow> \<not> (f_less b a \<or> f_eq b a)"
  by (cases a; cases b) (auto simp: min.commute)

end
