(* ===== verification/Gx_Assert.thy ===== *)
theory Gx_Assert imports Gx_Values begin

text \<open>
  \<open>assert/assert.go\<close>: assertions that panic. Every assertion either returns or panics with a
  message, a value of \<open>assert_end\<close>. The text \<open>fmt\<close> gives for a value depends on the
  methods of its type and is a parameter, as are the frames of the stack.
\<close>

section \<open>Formatting\<close>

text \<open>The verbs \<open>%v\<close>, \<open>%#v\<close> and \<open>%s\<close> of a value, and \<open>%q\<close> of a string.\<close>

record formats =
  fmt_v :: "any \<Rightarrow> string"
  fmt_sharp_v :: "any \<Rightarrow> string"
  fmt_s :: "any \<Rightarrow> string"
  fmt_q :: "string \<Rightarrow> string"

abbreviation nl :: string where
  "nl \<equiv> [CHR 0x0A]"

definition quoted :: "string \<Rightarrow> string" where
  "quoted s = CHR 0x27 # s @ [CHR 0x27]"

text \<open>\<open>%v\<close> of an error and of a \<open>reflect.Type\<close>, either possibly nil.\<close>

definition fmt_err :: "go_error option \<Rightarrow> string" where
  "fmt_err e = (case e of None \<Rightarrow> ''<nil>'' | Some x \<Rightarrow> err_text x)"

definition fmt_type :: "gtype option \<Rightarrow> string" where
  "fmt_type t = (case t of None \<Rightarrow> ''<nil>'' | Some x \<Rightarrow> ty_name x)"

text \<open>\<open>strings.Contains\<close>.\<close>

fun str_contains :: "string \<Rightarrow> string \<Rightarrow> bool" where
  "str_contains [] sub = (sub = [])"
| "str_contains (c # cs) sub = (take (length sub) (c # cs) = sub \<or> str_contains cs sub)"

section \<open>Failing\<close>

text \<open>What \<open>runtime.Caller\<close> and \<open>FuncForPC\<close> tell of a frame, the innermost one first.\<close>

record frame =
  fr_file :: string
  fr_line :: int
  fr_name :: string

datatype assert_end = Returned | Panicked string

fun assert_trace :: "frame list \<Rightarrow> string" where
  "assert_trace [] = []"
| "assert_trace (f # fs) =
     (if str_contains (fr_name f) ''/assert.'' \<or> str_contains (fr_name f) ''runtime.'' then assert_trace fs
      else ''at '' @ fr_file f @ '':'' @ Itoa (fr_line f) @ nl @ assert_trace fs)"

definition assert_fail :: "frame list \<Rightarrow> string \<Rightarrow> string list \<Rightarrow> assert_end" where
  "assert_fail fs msg message =
     (let b = ''assertion failed: '' @ msg
      in if length message > 1 then Panicked ''assertion accepts at most one message''
         else let b = (if length message = 1 then b @ '': '' @ message ! 0 else b);
                  b = b @ nl @ nl @ ''stack trace:'' @ nl
              in Panicked (b @ assert_trace fs))"

section \<open>Assertions\<close>

definition assert_Empty :: "frame list \<Rightarrow> string \<Rightarrow> string list \<Rightarrow> assert_end" where
  "assert_Empty fs s message = (if s \<noteq> [] then assert_fail fs ''string is not empty'' message else Returned)"

definition assert_formatEqualFailure :: "formats \<Rightarrow> any \<Rightarrow> any \<Rightarrow> string" where
  "assert_formatEqualFailure F expected actual =
     (let expectedText = fmt_v F expected; actualText = fmt_v F actual;
          (expectedText, actualText) =
            (if expectedText = actualText then (fmt_sharp_v F expected, fmt_sharp_v F actual)
             else (expectedText, actualText))
      in if TypeOf expected = TypeOf actual
         then ''expected: '' @ quoted expectedText @ '', got: '' @ quoted actualText
         else ''expected: '' @ quoted expectedText @ '' ('' @ type_text expected @ ''), got: '' @
              quoted actualText @ '' ('' @ type_text actual @ '')'')"

definition assert_Equal :: "formats \<Rightarrow> frame list \<Rightarrow> any \<Rightarrow> any \<Rightarrow> string list \<Rightarrow> assert_end" where
  "assert_Equal F fs expected actual message =
     (if \<not> DeepEqual expected actual
      then assert_fail fs (assert_formatEqualFailure F expected actual) message else Returned)"

definition assert_Error ::
  "frame list \<Rightarrow> go_error option \<Rightarrow> go_error option \<Rightarrow> string list \<Rightarrow> assert_end" where
  "assert_Error fs expected actual message =
     (if actual = None \<and> expected = None then Returned
      else case (actual, expected) of
        (Some a, Some e) \<Rightarrow>
          if \<not> go_errors_Is a e
          then assert_fail fs (''expected error '' @ quoted (fmt_err expected) @ '', got '' @ quoted (fmt_err actual)) message
          else Returned
      | _ \<Rightarrow> assert_fail fs (''one error is nil: expected '' @ quoted (fmt_err expected) @ '', got '' @
               quoted (fmt_err actual)) message)"

definition assert_False :: "frame list \<Rightarrow> bool \<Rightarrow> string list \<Rightarrow> assert_end" where
  "assert_False fs condition message =
     (if condition then assert_fail fs ''expected false, got true'' message else Returned)"

text \<open>The four comparisons; the arguments have one type.\<close>

definition assert_Greater :: "formats \<Rightarrow> frame list \<Rightarrow> gval \<Rightarrow> gval \<Rightarrow> string list \<Rightarrow> assert_end" where
  "assert_Greater F fs actual minimum message =
     (if \<not> go_less minimum actual
      then assert_fail fs (''expected '' @ quoted (fmt_v F (Some actual)) @ '' to be greater than '' @
             quoted (fmt_v F (Some minimum))) message
      else Returned)"

definition assert_GreaterOrEqual :: "formats \<Rightarrow> frame list \<Rightarrow> gval \<Rightarrow> gval \<Rightarrow> string list \<Rightarrow> assert_end" where
  "assert_GreaterOrEqual F fs actual minimum message =
     (if \<not> go_le minimum actual
      then assert_fail fs (''expected '' @ quoted (fmt_v F (Some actual)) @
             '' to be greater than or equal to '' @ quoted (fmt_v F (Some minimum))) message
      else Returned)"

definition assert_Less :: "formats \<Rightarrow> frame list \<Rightarrow> gval \<Rightarrow> gval \<Rightarrow> string list \<Rightarrow> assert_end" where
  "assert_Less F fs actual maximum message =
     (if \<not> go_less actual maximum
      then assert_fail fs (''expected '' @ quoted (fmt_v F (Some actual)) @ '' to be less than '' @
             quoted (fmt_v F (Some maximum))) message
      else Returned)"

definition assert_LessOrEqual :: "formats \<Rightarrow> frame list \<Rightarrow> gval \<Rightarrow> gval \<Rightarrow> string list \<Rightarrow> assert_end" where
  "assert_LessOrEqual F fs actual maximum message =
     (if \<not> go_le actual maximum
      then assert_fail fs (''expected '' @ quoted (fmt_v F (Some actual)) @
             '' to be less than or equal to '' @ quoted (fmt_v F (Some maximum))) message
      else Returned)"

text \<open>\<open>v.Kind()\<close> of a nil interface is \<open>Invalid\<close>.\<close>

definition assert_Len :: "frame list \<Rightarrow> int \<Rightarrow> any \<Rightarrow> string list \<Rightarrow> assert_end" where
  "assert_Len fs expected object message =
     (let valid = (case object of
            None \<Rightarrow> False
          | Some v \<Rightarrow>
              if kind_of v \<in> {KArray, KSlice, KMap, KString, KChan} then True
              else kind_of v = KPointer \<and> ty_elem (type_of v) = KArray)
      in if \<not> valid
         then assert_fail fs (''invalid type '' @ type_text object @
                '' (must be array, pointer to array, slice, map, string, or channel)'') message
         else let actual = int (v_Len (the object))
              in if actual \<noteq> expected
                 then assert_fail fs (''expected length '' @ quoted (Itoa expected) @ '' but got '' @
                        quoted (Itoa actual)) message
                 else Returned)"

definition assert_Nil :: "frame list \<Rightarrow> any \<Rightarrow> string list \<Rightarrow> assert_end" where
  "assert_Nil fs v message =
     (case v of
        None \<Rightarrow> Returned
      | Some rv \<Rightarrow>
          if kind_of rv \<in> {KChan, KFunc, KMap, KPointer, KSlice} \<and> v_IsNil rv then Returned
          else if kind_of rv = KUnsafePointer \<and> v_Pointer rv = 0 then Returned
          else assert_fail fs ''value is not nil'' message)"

definition assert_NoError :: "frame list \<Rightarrow> go_error option \<Rightarrow> string list \<Rightarrow> assert_end" where
  "assert_NoError fs err message =
     (if err \<noteq> None then assert_fail fs (''unexpected error: '' @ quoted (fmt_err err)) message else Returned)"

definition assert_NotEmpty :: "frame list \<Rightarrow> string \<Rightarrow> string list \<Rightarrow> assert_end" where
  "assert_NotEmpty fs s message = (if s = [] then assert_fail fs ''string is empty'' message else Returned)"

definition assert_NotEqual :: "formats \<Rightarrow> frame list \<Rightarrow> any \<Rightarrow> any \<Rightarrow> string list \<Rightarrow> assert_end" where
  "assert_NotEqual F fs expected actual message =
     (if DeepEqual expected actual
      then assert_fail fs (''expected values to differ, but both were '' @ quoted (fmt_v F actual)) message
      else Returned)"

definition assert_NotNil :: "frame list \<Rightarrow> any \<Rightarrow> string list \<Rightarrow> assert_end" where
  "assert_NotNil fs v message =
     (case v of
        None \<Rightarrow> assert_fail fs ''value is nil'' message
      | Some rv \<Rightarrow>
          if kind_of rv \<in> {KChan, KFunc, KMap, KPointer, KSlice}
          then (if v_IsNil rv then assert_fail fs ''value is nil'' message else Returned)
          else if kind_of rv = KUnsafePointer
          then (if v_Pointer rv = 0 then assert_fail fs ''value is nil'' message else Returned)
          else Returned)"

definition assert_True :: "frame list \<Rightarrow> bool \<Rightarrow> string list \<Rightarrow> assert_end" where
  "assert_True fs condition message =
     (if \<not> condition then assert_fail fs ''expected true, got false'' message else Returned)"

definition assert_Type :: "frame list \<Rightarrow> any \<Rightarrow> any \<Rightarrow> string list \<Rightarrow> assert_end" where
  "assert_Type fs expected actual message =
     (let te = TypeOf expected; ta = TypeOf actual
      in if te \<noteq> ta
         then assert_fail fs (''expected type '' @ fmt_type te @ '' but got '' @ fmt_type ta) message
         else Returned)"

end
