(* ===== verification/Gx_Test_Assert.thy ===== *)
theory Gx_Test_Assert imports Gx_Assert begin

text \<open>
  \<open>test/assert.go\<close>: assertions on a \<open>TestingT\<close>. An assertion yields the messages it passed to
  \<open>Fatal\<close> and how it ended. \<open>Fatal\<close> of \<open>testing.T\<close> exits the goroutine, the interface also
  allows one that returns. \<open>Helper\<close> has no effect on either.
\<close>

section \<open>Failing\<close>

datatype testing_t = FatalExits | FatalReturns

datatype test_end = TReturned | TExited | TPanicked string

type_synonym test_result = "string list \<times> test_end"

definition Fatal :: "testing_t \<Rightarrow> string \<Rightarrow> test_result" where
  "Fatal T msg = ([msg], case T of FatalExits \<Rightarrow> TExited | FatalReturns \<Rightarrow> TReturned)"

abbreviation passed :: test_result where
  "passed \<equiv> ([], TReturned)"

fun test_trace :: "frame list \<Rightarrow> string" where
  "test_trace [] = []"
| "test_trace (f # fs) =
     (if str_contains (fr_name f) ''/test.'' \<or> str_contains (fr_name f) ''runtime.'' \<or>
         str_contains (fr_name f) ''testing.'' then test_trace fs
      else fr_file f @ '':'' @ Itoa (fr_line f) @ '' - '' @ fr_name f @ nl @ test_trace fs)"

definition test_fail :: "testing_t \<Rightarrow> frame list \<Rightarrow> string \<Rightarrow> string list \<Rightarrow> test_result" where
  "test_fail T fs msg message =
     (let b = ''assertion failed: '' @ msg
      in if length message > 1 then ([], TPanicked ''assertion accepts at most one message'')
         else let b = (if length message = 1 then b @ '': '' @ message ! 0 else b);
                  b = b @ nl @ nl @ ''stack trace:'' @ nl
              in Fatal T (b @ test_trace fs))"

section \<open>Assertions\<close>

text \<open>The loops over the elements and the keys return at the first one that matches.\<close>

definition test_Contains :: "formats \<Rightarrow> testing_t \<Rightarrow> frame list \<Rightarrow> any \<Rightarrow> any \<Rightarrow> string list \<Rightarrow> test_result" where
  "test_Contains F T fs haystack needle message =
     (let kind = kind_of_any haystack
      in if kind = KString
         then (case (haystack, needle) of
                 (Some (VString _ h), Some (VString t needleString)) \<Rightarrow>
                   if t \<noteq> string_type
                   then test_fail T fs (''string haystack requires string needle, got '' @ type_text needle) message
                   else if \<not> str_contains h needleString
                   then test_fail T fs (''expected '' @ quoted (fmt_s F haystack) @ '' to contain '' @
                          quoted (fmt_s F needle)) message
                   else passed
               | _ \<Rightarrow> test_fail T fs (''string haystack requires string needle, got '' @ type_text needle) message)
         else if kind \<in> {KSlice, KArray}
         then (if list_ex (\<lambda>x. DeepEqual x needle) (v_elems (the haystack)) then passed
               else test_fail T fs (''expected '' @ quoted (fmt_v F haystack) @ '' to contain '' @
                      quoted (fmt_v F needle)) message)
         else if kind = KMap
         then (if list_ex (\<lambda>k. DeepEqual k needle) (v_keys (the haystack)) then passed
               else test_fail T fs (''expected map to contain key '' @ quoted (fmt_v F needle)) message)
         else test_fail T fs (''unsupported type '' @ type_text haystack @ '' in Contains'') message)"

definition test_Empty :: "testing_t \<Rightarrow> frame list \<Rightarrow> string \<Rightarrow> string list \<Rightarrow> test_result" where
  "test_Empty T fs s message = (if s \<noteq> [] then test_fail T fs ''string is not empty'' message else passed)"

definition test_formatEqualFailure :: "formats \<Rightarrow> any \<Rightarrow> any \<Rightarrow> string" where
  "test_formatEqualFailure F expected actual =
     (let expectedText = fmt_v F expected; actualText = fmt_v F actual;
          (expectedText, actualText) =
            (if expectedText = actualText then (fmt_sharp_v F expected, fmt_sharp_v F actual)
             else (expectedText, actualText))
      in if TypeOf expected = TypeOf actual
         then ''expected: '' @ quoted expectedText @ '', got: '' @ quoted actualText
         else ''expected: '' @ quoted expectedText @ '' ('' @ type_text expected @ ''), got: '' @
              quoted actualText @ '' ('' @ type_text actual @ '')'')"

definition test_Equal :: "formats \<Rightarrow> testing_t \<Rightarrow> frame list \<Rightarrow> any \<Rightarrow> any \<Rightarrow> string list \<Rightarrow> test_result" where
  "test_Equal F T fs expected actual message =
     (if \<not> DeepEqual expected actual
      then test_fail T fs (test_formatEqualFailure F expected actual) message else passed)"

definition test_ErrorIs ::
  "testing_t \<Rightarrow> frame list \<Rightarrow> go_error option \<Rightarrow> go_error option \<Rightarrow> string list \<Rightarrow> test_result" where
  "test_ErrorIs T fs err target message =
     (if err = None \<and> target = None then passed
      else case (err, target) of
        (Some e, Some g) \<Rightarrow>
          if \<not> go_errors_Is e g
          then test_fail T fs (''expected error '' @ quoted (fmt_err target) @ '', got '' @ quoted (fmt_err err)) message
          else passed
      | _ \<Rightarrow> test_fail T fs (''one error is nil: expected '' @ quoted (fmt_err target) @ '', got '' @
               quoted (fmt_err err)) message)"

definition test_ErrorMessage ::
  "formats \<Rightarrow> testing_t \<Rightarrow> frame list \<Rightarrow> go_error option \<Rightarrow> string \<Rightarrow> string list \<Rightarrow> test_result" where
  "test_ErrorMessage F T fs err expected message =
     (case err of
        None \<Rightarrow> test_fail T fs (''expected error message '' @ fmt_q F expected @ '', got nil'') message
      | Some e \<Rightarrow>
          if err_text e \<noteq> expected
          then test_fail T fs (''expected error message '' @ fmt_q F expected @ '', got '' @ fmt_q F (err_text e)) message
          else passed)"

definition test_False :: "testing_t \<Rightarrow> frame list \<Rightarrow> bool \<Rightarrow> string list \<Rightarrow> test_result" where
  "test_False T fs condition message =
     (if condition then test_fail T fs ''expected false, got true'' message else passed)"

text \<open>The four comparisons; the arguments have one type.\<close>

definition test_Greater :: "formats \<Rightarrow> testing_t \<Rightarrow> frame list \<Rightarrow> gval \<Rightarrow> gval \<Rightarrow> string list \<Rightarrow> test_result" where
  "test_Greater F T fs actual minimum message =
     (if \<not> go_less minimum actual
      then test_fail T fs (''expected '' @ quoted (fmt_v F (Some actual)) @ '' to be greater than '' @
             quoted (fmt_v F (Some minimum))) message
      else passed)"

definition test_GreaterOrEqual :: "formats \<Rightarrow> testing_t \<Rightarrow> frame list \<Rightarrow> gval \<Rightarrow> gval \<Rightarrow> string list \<Rightarrow> test_result" where
  "test_GreaterOrEqual F T fs actual minimum message =
     (if \<not> go_le minimum actual
      then test_fail T fs (''expected '' @ quoted (fmt_v F (Some actual)) @
             '' to be greater than or equal to '' @ quoted (fmt_v F (Some minimum))) message
      else passed)"

definition test_Less :: "formats \<Rightarrow> testing_t \<Rightarrow> frame list \<Rightarrow> gval \<Rightarrow> gval \<Rightarrow> string list \<Rightarrow> test_result" where
  "test_Less F T fs actual maximum message =
     (if \<not> go_less actual maximum
      then test_fail T fs (''expected '' @ quoted (fmt_v F (Some actual)) @ '' to be less than '' @
             quoted (fmt_v F (Some maximum))) message
      else passed)"

definition test_LessOrEqual :: "formats \<Rightarrow> testing_t \<Rightarrow> frame list \<Rightarrow> gval \<Rightarrow> gval \<Rightarrow> string list \<Rightarrow> test_result" where
  "test_LessOrEqual F T fs actual maximum message =
     (if \<not> go_le actual maximum
      then test_fail T fs (''expected '' @ quoted (fmt_v F (Some actual)) @
             '' to be less than or equal to '' @ quoted (fmt_v F (Some maximum))) message
      else passed)"

text \<open>\<open>v.Kind()\<close> of a nil interface is \<open>Invalid\<close>.\<close>

definition test_Len :: "testing_t \<Rightarrow> frame list \<Rightarrow> int \<Rightarrow> any \<Rightarrow> string list \<Rightarrow> test_result" where
  "test_Len T fs expected object message =
     (let valid = (case object of
            None \<Rightarrow> False
          | Some v \<Rightarrow>
              if kind_of v \<in> {KArray, KSlice, KMap, KString, KChan} then True
              else kind_of v = KPointer \<and> ty_elem (type_of v) = KArray)
      in if \<not> valid
         then test_fail T fs (''invalid type '' @ type_text object @
                '' (must be array, pointer to array, slice, map, string, or channel)'') message
         else let actual = int (v_Len (the object))
              in if actual \<noteq> expected
                 then test_fail T fs (''expected length '' @ quoted (Itoa expected) @ '' but got '' @
                        quoted (Itoa actual)) message
                 else passed)"

definition test_Nil :: "testing_t \<Rightarrow> frame list \<Rightarrow> any \<Rightarrow> string list \<Rightarrow> test_result" where
  "test_Nil T fs v message =
     (case v of
        None \<Rightarrow> passed
      | Some rv \<Rightarrow>
          if kind_of rv \<in> {KChan, KFunc, KMap, KPointer, KSlice} \<and> v_IsNil rv then passed
          else if kind_of rv = KUnsafePointer \<and> v_Pointer rv = 0 then passed
          else test_fail T fs ''value is not nil'' message)"

definition test_NoError :: "testing_t \<Rightarrow> frame list \<Rightarrow> go_error option \<Rightarrow> string list \<Rightarrow> test_result" where
  "test_NoError T fs err message =
     (if err \<noteq> None then test_fail T fs (''unexpected error: '' @ quoted (fmt_err err)) message else passed)"

definition test_NotEmpty :: "testing_t \<Rightarrow> frame list \<Rightarrow> string \<Rightarrow> string list \<Rightarrow> test_result" where
  "test_NotEmpty T fs s message = (if s = [] then test_fail T fs ''string is empty'' message else passed)"

definition test_NotEqual :: "formats \<Rightarrow> testing_t \<Rightarrow> frame list \<Rightarrow> any \<Rightarrow> any \<Rightarrow> string list \<Rightarrow> test_result" where
  "test_NotEqual F T fs expected actual message =
     (if DeepEqual expected actual
      then test_fail T fs (''expected values to differ, but both were '' @ quoted (fmt_v F actual)) message
      else passed)"

definition test_NotNil :: "testing_t \<Rightarrow> frame list \<Rightarrow> any \<Rightarrow> string list \<Rightarrow> test_result" where
  "test_NotNil T fs v message =
     (case v of
        None \<Rightarrow> test_fail T fs ''value is nil'' message
      | Some rv \<Rightarrow>
          if kind_of rv \<in> {KChan, KFunc, KMap, KPointer, KSlice}
          then (if v_IsNil rv then test_fail T fs ''value is nil'' message else passed)
          else if kind_of rv = KUnsafePointer
          then (if v_Pointer rv = 0 then test_fail T fs ''value is nil'' message else passed)
          else passed)"

text \<open>
  The function under test ends by itself, by a panic, or by exiting its goroutine, when the
  deferred function still runs and \<open>recover\<close> gives nil.
\<close>

datatype fn_end = FnReturns | FnPanics | FnExits

definition test_Panics :: "testing_t \<Rightarrow> frame list \<Rightarrow> fn_end \<Rightarrow> string list \<Rightarrow> test_result" where
  "test_Panics T fs f message =
     (case f of
        FnPanics \<Rightarrow> passed
      | FnReturns \<Rightarrow> test_fail T fs ''expected panic, but function did not panic'' message
      | FnExits \<Rightarrow>
          (case test_fail T fs ''expected panic, but function did not panic'' message of
             (ms, TReturned) \<Rightarrow> (ms, TExited)
           | r \<Rightarrow> r))"

text \<open>\<open>%#x\<close> of an address.\<close>

fun hex_digits :: "nat \<Rightarrow> string" where
  "hex_digits n =
     (if n < 16 then [''0123456789abcdef'' ! n] else hex_digits (n div 16) @ [''0123456789abcdef'' ! (n mod 16)])"

declare hex_digits.simps [simp del]

definition fmt_addr :: "nat \<Rightarrow> string" where
  "fmt_addr n = ''0x'' @ hex_digits n"

definition test_Same :: "formats \<Rightarrow> testing_t \<Rightarrow> frame list \<Rightarrow> any \<Rightarrow> any \<Rightarrow> string list \<Rightarrow> test_result" where
  "test_Same F T fs expected actual message =
     (case (expected, actual) of
        (Some ev, Some av) \<Rightarrow>
          if type_of ev \<noteq> type_of av
          then test_fail T fs (''expected same type '' @ quoted (fmt_type (Some (type_of ev))) @ '', got '' @
                 quoted (fmt_type (Some (type_of av)))) message
          else if kind_of ev \<in> {KPointer, KMap, KSlice, KFunc, KChan} \<and> v_IsNil ev \<and> v_IsNil av then passed
          else if kind_of ev = KPointer
          then (if ty_elem_size (type_of ev) = 0
                then test_fail T fs ''Same cannot determine identity for zero-size values'' message
                else if v_Pointer ev \<noteq> v_Pointer av
                then test_fail T fs (''expected same object, got '' @ quoted (fmt_addr (v_Pointer ev)) @ '' and '' @
                       quoted (fmt_addr (v_Pointer av))) message
                else passed)
          else if kind_of ev = KSlice
          then (if v_Len ev = 0 \<or> ty_elem_size (type_of ev) = 0
                then test_fail T fs ''Same cannot determine identity for zero-length or zero-size slices'' message
                else if v_Pointer ev \<noteq> v_Pointer av \<or> v_Len ev \<noteq> v_Len av \<or> v_Cap ev \<noteq> v_Cap av
                then test_fail T fs ''expected same slice view'' message
                else passed)
          else if kind_of ev \<in> {KMap, KFunc, KChan}
          then (if v_Pointer ev \<noteq> v_Pointer av
                then test_fail T fs (''expected same object, got '' @ quoted (fmt_addr (v_Pointer ev)) @ '' and '' @
                       quoted (fmt_addr (v_Pointer av))) message
                else passed)
          else test_fail T fs (''Same only supports pointer-like types, got '' @ quoted (type_text expected)) message
      | _ \<Rightarrow>
          if expected = None \<and> actual = None then passed
          else test_fail T fs (''expected same object, got expected '' @ quoted (fmt_v F expected) @ '', got '' @
                 quoted (fmt_v F actual)) message)"

definition test_True :: "testing_t \<Rightarrow> frame list \<Rightarrow> bool \<Rightarrow> string list \<Rightarrow> test_result" where
  "test_True T fs condition message =
     (if \<not> condition then test_fail T fs ''expected true, got false'' message else passed)"

definition test_Type :: "testing_t \<Rightarrow> frame list \<Rightarrow> any \<Rightarrow> any \<Rightarrow> string list \<Rightarrow> test_result" where
  "test_Type T fs expected actual message =
     (let te = TypeOf expected; ta = TypeOf actual
      in if te \<noteq> ta
         then test_fail T fs (''expected type '' @ fmt_type te @ '' but got '' @ fmt_type ta) message
         else passed)"

end
