(* ===== verification/Gx_Assert_Correct.thy ===== *)
theory Gx_Assert_Correct imports Gx_Test_Assert begin

text \<open>
  The two assertion packages against one specification: what each assertion states of its
  arguments, that both packages fail exactly when it is false and with the same message, and
  how deep equality and identity relate.
\<close>

section \<open>What the assertions state\<close>

datatype assertion =
    IsEmpty string | IsNotEmpty string
  | IsTrue bool | IsFalse bool
  | IsEqual any any | IsNotEqual any any
  | MatchesError "go_error option" "go_error option" | HasNoError "go_error option"
  | IsGreater gval gval | IsGreaterOrEqual gval gval | IsLess gval gval | IsLessOrEqual gval gval
  | HasLen int any
  | IsNil any | IsNotNil any
  | HasType any any

text \<open>The length of a value that has one, and the nil values.\<close>

fun go_len :: "any \<Rightarrow> nat option" where
  "go_len (Some (VString t s)) = Some (length s)"
| "go_len (Some (VArray t xs)) = Some (length xs)"
| "go_len (Some (VSlice t s)) = Some (case s of None \<Rightarrow> 0 | Some (_, _, xs) \<Rightarrow> length xs)"
| "go_len (Some (VMap t m)) = Some (case m of None \<Rightarrow> 0 | Some (_, es) \<Rightarrow> length es)"
| "go_len (Some (VChan t c)) = Some (case c of None \<Rightarrow> 0 | Some (_, n) \<Rightarrow> n)"
| "go_len (Some (VPointer t p)) = (if ty_elem t = KArray then Some (ty_elem_len t) else None)"
| "go_len _ = None"

fun go_nil :: "any \<Rightarrow> bool" where
  "go_nil None = True"
| "go_nil (Some (VSlice t None)) = True"
| "go_nil (Some (VMap t None)) = True"
| "go_nil (Some (VPointer t None)) = True"
| "go_nil (Some (VFunc t None)) = True"
| "go_nil (Some (VChan t None)) = True"
| "go_nil (Some (VUnsafe t a)) = (a = 0)"
| "go_nil _ = False"

definition error_matches :: "go_error option \<Rightarrow> go_error option \<Rightarrow> bool" where
  "error_matches target err =
     (case (target, err) of
        (None, None) \<Rightarrow> True
      | (Some t, Some e) \<Rightarrow> go_errors_Is e t
      | _ \<Rightarrow> False)"

fun holds :: "assertion \<Rightarrow> bool" where
  "holds (IsEmpty s) = (s = [])"
| "holds (IsNotEmpty s) = (s \<noteq> [])"
| "holds (IsTrue b) = b"
| "holds (IsFalse b) = (\<not> b)"
| "holds (IsEqual x y) = DeepEqual x y"
| "holds (IsNotEqual x y) = (\<not> DeepEqual x y)"
| "holds (MatchesError target err) = error_matches target err"
| "holds (HasNoError err) = (err = None)"
| "holds (IsGreater x y) = go_less y x"
| "holds (IsGreaterOrEqual x y) = go_le y x"
| "holds (IsLess x y) = go_less x y"
| "holds (IsLessOrEqual x y) = go_le x y"
| "holds (HasLen n x) = (map_option int (go_len x) = Some n)"
| "holds (IsNil x) = go_nil x"
| "holds (IsNotNil x) = (\<not> go_nil x)"
| "holds (HasType x y) = (map_option type_of x = map_option type_of y)"

section \<open>The packages\<close>

fun assert_check :: "formats \<Rightarrow> frame list \<Rightarrow> assertion \<Rightarrow> string list \<Rightarrow> assert_end" where
  "assert_check F fs (IsEmpty s) ms = assert_Empty fs s ms"
| "assert_check F fs (IsNotEmpty s) ms = assert_NotEmpty fs s ms"
| "assert_check F fs (IsTrue b) ms = assert_True fs b ms"
| "assert_check F fs (IsFalse b) ms = assert_False fs b ms"
| "assert_check F fs (IsEqual x y) ms = assert_Equal F fs x y ms"
| "assert_check F fs (IsNotEqual x y) ms = assert_NotEqual F fs x y ms"
| "assert_check F fs (MatchesError target err) ms = assert_Error fs target err ms"
| "assert_check F fs (HasNoError err) ms = assert_NoError fs err ms"
| "assert_check F fs (IsGreater x y) ms = assert_Greater F fs x y ms"
| "assert_check F fs (IsGreaterOrEqual x y) ms = assert_GreaterOrEqual F fs x y ms"
| "assert_check F fs (IsLess x y) ms = assert_Less F fs x y ms"
| "assert_check F fs (IsLessOrEqual x y) ms = assert_LessOrEqual F fs x y ms"
| "assert_check F fs (HasLen n x) ms = assert_Len fs n x ms"
| "assert_check F fs (IsNil x) ms = assert_Nil fs x ms"
| "assert_check F fs (IsNotNil x) ms = assert_NotNil fs x ms"
| "assert_check F fs (HasType x y) ms = assert_Type fs x y ms"

fun test_check :: "formats \<Rightarrow> testing_t \<Rightarrow> frame list \<Rightarrow> assertion \<Rightarrow> string list \<Rightarrow> test_result" where
  "test_check F T fs (IsEmpty s) ms = test_Empty T fs s ms"
| "test_check F T fs (IsNotEmpty s) ms = test_NotEmpty T fs s ms"
| "test_check F T fs (IsTrue b) ms = test_True T fs b ms"
| "test_check F T fs (IsFalse b) ms = test_False T fs b ms"
| "test_check F T fs (IsEqual x y) ms = test_Equal F T fs x y ms"
| "test_check F T fs (IsNotEqual x y) ms = test_NotEqual F T fs x y ms"
| "test_check F T fs (MatchesError target err) ms = test_ErrorIs T fs err target ms"
| "test_check F T fs (HasNoError err) ms = test_NoError T fs err ms"
| "test_check F T fs (IsGreater x y) ms = test_Greater F T fs x y ms"
| "test_check F T fs (IsGreaterOrEqual x y) ms = test_GreaterOrEqual F T fs x y ms"
| "test_check F T fs (IsLess x y) ms = test_Less F T fs x y ms"
| "test_check F T fs (IsLessOrEqual x y) ms = test_LessOrEqual F T fs x y ms"
| "test_check F T fs (HasLen n x) ms = test_Len T fs n x ms"
| "test_check F T fs (IsNil x) ms = test_Nil T fs x ms"
| "test_check F T fs (IsNotNil x) ms = test_NotNil T fs x ms"
| "test_check F T fs (HasType x y) ms = test_Type T fs x y ms"

text \<open>One assertion fails in both packages, with the message \<open>h\<close>, unless it holds.\<close>

definition checks_with ::
  "string \<Rightarrow> formats \<Rightarrow> testing_t \<Rightarrow> frame list \<Rightarrow> assertion \<Rightarrow> string list \<Rightarrow> bool" where
  "checks_with h F T fs a ms \<longleftrightarrow>
     assert_check F fs a ms = (if holds a then Returned else assert_fail fs h ms) \<and>
     test_check F T fs a ms = (if holds a then passed else test_fail T fs h ms)"

text \<open>Both packages have the same text for two unequal values.\<close>

lemma formatEqualFailure_same: "test_formatEqualFailure F x y = assert_formatEqualFailure F x y"
  by (simp add: test_formatEqualFailure_def assert_formatEqualFailure_def)

lemmas equal_defs = assert_Equal_def test_Equal_def assert_NotEqual_def test_NotEqual_def formatEqualFailure_same
lemmas basic_defs =
  assert_Empty_def test_Empty_def assert_NotEmpty_def test_NotEmpty_def assert_True_def test_True_def
  assert_False_def test_False_def assert_NoError_def test_NoError_def assert_Type_def test_Type_def TypeOf_def
lemmas order_defs =
  assert_Greater_def test_Greater_def assert_GreaterOrEqual_def test_GreaterOrEqual_def
  assert_Less_def test_Less_def assert_LessOrEqual_def test_LessOrEqual_def

lemma checks_equal: "\<exists>h. checks_with h F T fs (IsEqual x y) ms"
    "\<exists>h. checks_with h F T fs (IsNotEqual x y) ms"
  by (auto simp: checks_with_def equal_defs)

lemma checks_basic: "\<exists>h. checks_with h F T fs (IsEmpty s) ms" "\<exists>h. checks_with h F T fs (IsNotEmpty s) ms"
  "\<exists>h. checks_with h F T fs (IsTrue b) ms" "\<exists>h. checks_with h F T fs (IsFalse b) ms"
  "\<exists>h. checks_with h F T fs (HasNoError e) ms" "\<exists>h. checks_with h F T fs (HasType x y) ms"
  by (auto simp: checks_with_def basic_defs)

lemma checks_order: "\<exists>h. checks_with h F T fs (IsGreater v w) ms" "\<exists>h. checks_with h F T fs (IsGreaterOrEqual v w) ms"
  "\<exists>h. checks_with h F T fs (IsLess v w) ms" "\<exists>h. checks_with h F T fs (IsLessOrEqual v w) ms"
  by (auto simp: checks_with_def order_defs)

lemma checks_error: "\<exists>h. checks_with h F T fs (MatchesError t e) ms"
  by (cases t; cases e)
    (auto simp: checks_with_def assert_Error_def test_ErrorIs_def error_matches_def simp del: go_errors_Is.simps)

lemma checks_nil: "\<exists>h. checks_with h F T fs (IsNil x) ms" "\<exists>h. checks_with h F T fs (IsNotNil x) ms"
  by (cases x rule: go_nil.cases,
      auto simp: checks_with_def assert_Nil_def test_Nil_def assert_NotNil_def test_NotNil_def)+

lemma checks_len: "\<exists>h. checks_with h F T fs (HasLen n x) ms"
  by (cases x rule: go_len.cases)
    (auto simp: checks_with_def assert_Len_def test_Len_def Let_def)

section \<open>The properties\<close>

text \<open>
  C39: the assertions the packages \<open>assert\<close> and \<open>test\<close> share agree: on the same arguments
  each returns, without a call of \<open>Fatal\<close>, exactly when the statement holds, and otherwise
  both fail with one and the same message, the one by a panic and the other by \<open>Fatal\<close>. A
  statement is written over the arguments alone: a length for values that have one, nil for
  the kinds that can be, an error by \<open>errors.Is\<close>.
\<close>

theorem assertions_agree:
  "\<exists>h. assert_check F fs a ms = (if holds a then Returned else assert_fail fs h ms) \<and>
       test_check F T fs a ms = (if holds a then ([], TReturned) else test_fail T fs h ms)"
proof -
  have "\<exists>h. checks_with h F T fs a ms"
    by (cases a) (simp_all add: checks_equal checks_basic checks_order checks_error checks_nil checks_len)
  then show ?thesis by (simp add: checks_with_def)
qed

lemma test_fail_not_passed [simp]: "test_fail T fs h ms \<noteq> passed"
  by (simp add: test_fail_def Let_def Fatal_def)

lemma test_fail_at_most_once: "length (fst (test_fail T fs h ms)) \<le> Suc 0"
  by (simp add: test_fail_def Let_def Fatal_def)

lemma str_contains_iff: "str_contains s sub \<longleftrightarrow> (\<exists>p q. s = p @ sub @ q)"
proof (induction s)
  case (Cons c cs)
  have "take (length sub) (c # cs) = sub \<longleftrightarrow> (\<exists>q. c # cs = sub @ q)"
    by (metis append_eq_conv_conj append_take_drop_id)
  moreover have "(\<exists>p q. c # cs = p @ sub @ q) \<longleftrightarrow> (\<exists>q. c # cs = sub @ q) \<or> (\<exists>p q. cs = p @ sub @ q)"
    by (metis append_Cons append_Nil neq_Nil_conv list.inject)
  ultimately show ?case by (simp add: Cons.IH)
qed auto

lemma test_Panics_once: "length (fst (test_Panics T fs f ms)) \<le> Suc 0"
  using test_fail_at_most_once [of T fs "''expected panic, but function did not panic''" ms]
  by (auto simp: test_Panics_def split: fn_end.split prod.split test_end.split)

text \<open>What \<open>Contains\<close> states: a substring of a string, an element, or a key.\<close>

definition contains :: "any \<Rightarrow> any \<Rightarrow> bool" where
  "contains haystack needle \<longleftrightarrow>
     (\<exists>t p s q. haystack = Some (VString t (p @ s @ q)) \<and> needle = Some (VString string_type s)) \<or>
     (\<exists>v x. haystack = Some v \<and> x \<in> set (v_elems v) \<union> set (v_keys v) \<and> DeepEqual x needle)"

lemma contains_cases:
  "contains (Some (VString t h)) (Some (VString t' s)) \<longleftrightarrow> t' = string_type \<and> str_contains h s"
  "contains (Some (VString t h)) None \<longleftrightarrow> False"
  "kind_of v \<noteq> KString \<Longrightarrow> contains (Some v) y \<longleftrightarrow> (\<exists>x. x \<in> set (v_elems v) \<union> set (v_keys v) \<and> DeepEqual x y)"
  "kind_of w \<noteq> KString \<Longrightarrow> contains (Some (VString t h)) (Some w) \<longleftrightarrow> False"
  "contains None y \<longleftrightarrow> False"
  by (auto simp: contains_def str_contains_iff)

text \<open>
  The assertions only \<open>test\<close> has. \<open>Contains\<close> passes exactly when the haystack is a string
  with the needle as a substring, or a slice, an array or a map with an element or key deeply
  equal to it, and fails on every other type; \<open>ErrorMessage\<close> passes on a non-nil error with
  that text; \<open>Panics\<close> passes when the function panics, and not when it returns or exits its
  goroutine. None calls \<open>Fatal\<close> twice.
\<close>

theorem test_only_assertions:
  "(test_Contains F T fs haystack needle ms = ([], TReturned)) = contains haystack needle \<and>
   (test_ErrorMessage F T fs err expected ms = ([], TReturned)) = (map_option err_text err = Some expected) \<and>
   (test_Panics T fs f ms = ([], TReturned)) = (f = FnPanics) \<and>
   length (fst (test_Contains F T fs haystack needle ms)) \<le> 1 \<and>
   length (fst (test_ErrorMessage F T fs err expected ms)) \<le> 1 \<and>
   length (fst (test_Panics T fs f ms)) \<le> 1"
proof (intro conjI)
  show "(test_Contains F T fs haystack needle ms = ([], TReturned)) = contains haystack needle"
  proof (cases haystack)
    case (Some v)
    show ?thesis
      by (cases v; cases needle rule: option.exhaust; (cases "the needle")?)
        (auto simp: Some test_Contains_def Let_def contains_cases list_ex_iff)
  qed (simp add: test_Contains_def contains_cases)
qed (auto simp: test_ErrorMessage_def test_Panics_def test_Contains_def Let_def test_fail_at_most_once
      test_Panics_once [unfolded test_Panics_def]
      split: option.split fn_end.split test_end.split prod.split gval.split)

section \<open>Equality and identity\<close>

text \<open>
  Two values of one program: a type has one kind, only nil has the address zero, and maps of
  one type at one address are the same map. Nothing is asked of what slices and pointers show.
\<close>

definition address_ok :: "gval \<Rightarrow> bool" where
  "address_ok v \<longleftrightarrow> (kind_of v \<in> {KPointer, KMap, KSlice, KChan} \<longrightarrow> (v_Pointer v = 0) = v_IsNil v)"

definition one_memory :: "gval \<Rightarrow> gval \<Rightarrow> bool" where
  "one_memory v w \<longleftrightarrow>
     address_ok v \<and> address_ok w \<and>
     (type_of v = type_of w \<longrightarrow> kind_of v = kind_of w \<and> (kind_of v = KMap \<and> v_Pointer v = v_Pointer w \<longrightarrow> v = w))"

lemma same_outcome:
  assumes "test_Same F T fs (Some v) (Some w) ms = passed" and "kind_of v \<noteq> KFunc"
  shows "type_of v = type_of w" and "kind_of v \<in> {KPointer, KSlice, KMap, KChan}"
    and "v_IsNil v \<and> v_IsNil w \<or> v_Pointer v = v_Pointer w \<and> (kind_of v = KSlice \<longrightarrow> v_Len v = v_Len w)"
  using assms by (auto simp: test_Same_def split: if_splits)

lemma deep_nil:
  assumes "type_of v = type_of w" and "kind_of v = kind_of w" and "kind_of v \<in> {KPointer, KSlice, KMap, KChan}"
    and "v_IsNil v" and "v_IsNil w"
  shows "deep v w"
  using assms by (cases v; cases w) simp_all

lemma deep_same:
  assumes mem: "one_memory v w" and ty: "type_of v = type_of w"
    and kind: "kind_of v \<in> {KPointer, KSlice, KMap, KChan}"
    and same: "v_IsNil v \<and> v_IsNil w \<or> v_Pointer v = v_Pointer w \<and> (kind_of v = KSlice \<longrightarrow> v_Len v = v_Len w)"
  shows "deep v w"
proof -
  have kinds: "kind_of v = kind_of w" using mem ty by (simp add: one_memory_def)
  have nils: "v_Pointer v = v_Pointer w \<Longrightarrow> v_IsNil v = v_IsNil w"
    using mem kind kinds by (auto simp: one_memory_def address_ok_def)
  show ?thesis
  proof (cases "v_IsNil v \<and> v_IsNil w")
    case True
    then show ?thesis using deep_nil [OF ty kinds kind] by blast
  next
    case False
    then have ptr: "v_Pointer v = v_Pointer w" and len: "kind_of v = KSlice \<longrightarrow> v_Len v = v_Len w"
      using same by auto
    show ?thesis
      using ptr len nils [OF ptr] ty kinds kind mem
      by (cases v; cases w) (auto simp: addr_def one_memory_def split: option.splits prod.splits)
  qed
qed

text \<open>
  \<open>Equal\<close> of a value with itself passes, unless it is a \<open>NaN\<close> or a function, alone or
  inside arrays, structs and interfaces; behind a pointer, a slice or a map they do no harm.
  And what \<open>Same\<close> accepts, other than functions, \<open>Equal\<close> accepts too.
\<close>

theorem equal_and_same:
  assumes "one_memory v w" and "kind_of v \<noteq> KFunc"
  shows "(test_Equal F T fs x x ms = ([], TReturned)) = (x = None \<or> \<not> irreflexive (the x)) \<and>
    (test_Same F T fs (Some v) (Some w) ms = ([], TReturned) \<longrightarrow>
     test_Equal F T fs (Some v) (Some w) ms = ([], TReturned))"
proof
  show "(test_Equal F T fs x x ms = ([], TReturned)) = (x = None \<or> \<not> irreflexive (the x))"
    by (cases x) (simp_all add: test_Equal_def DeepEqual_def deep_refl)
  have "deep v w" if same: "test_Same F T fs (Some v) (Some w) ms = passed"
    by (rule deep_same [OF assms(1) same_outcome [OF same assms(2)]])
  then show "test_Same F T fs (Some v) (Some w) ms = ([], TReturned) \<longrightarrow>
      test_Equal F T fs (Some v) (Some w) ms = ([], TReturned)"
    by (simp add: test_Equal_def DeepEqual_def)
qed

lemma equal_and_same_witness:
  "test_Same \<lparr>fmt_v = \<lambda>_. [], fmt_sharp_v = \<lambda>_. [], fmt_s = \<lambda>_. [], fmt_q = \<lambda>s. s\<rparr> FatalExits []
     (Some (VSlice (GType [] ''[]float64'' KFloat 8 0) (Some (4096, 3, [VFloat (GType [] ''float64'' KInvalid 0 0) NaN]))))
     (Some (VSlice (GType [] ''[]float64'' KFloat 8 0) (Some (4096, 3, [VFloat (GType [] ''float64'' KInvalid 0 0) NaN]))))
     [] = ([], TReturned) \<and>
   test_Equal \<lparr>fmt_v = \<lambda>_. [], fmt_sharp_v = \<lambda>_. [], fmt_s = \<lambda>_. [], fmt_q = \<lambda>s. s\<rparr> FatalExits []
     (Some (VSlice (GType [] ''[]float64'' KFloat 8 0) (Some (4096, 3, [VFloat (GType [] ''float64'' KInvalid 0 0) NaN]))))
     (Some (VSlice (GType [] ''[]float64'' KFloat 8 0) (Some (4096, 3, [VFloat (GType [] ''float64'' KInvalid 0 0) NaN]))))
     [] = ([], TReturned)"
  (is "test_Same ?F _ _ ?x _ _ = _ \<and> _")
proof
  show same: "test_Same ?F FatalExits [] ?x ?x [] = ([], TReturned)"
    by (simp add: test_Same_def)
  show "test_Equal ?F FatalExits [] ?x ?x [] = ([], TReturned)"
    using equal_and_same [where v = "the ?x" and w = "the ?x" and F = ?F and T = FatalExits and fs = "[]" and ms = "[]" and x = None]
      same by (simp add: one_memory_def address_ok_def addr_def)
qed

text \<open>Two closures of one function literal: \<open>Same\<close> takes them for the same object.\<close>

lemma same_two_closures:
  "a \<noteq> b \<Longrightarrow> test_Same F T fs (Some (VFunc t (Some (a, code)))) (Some (VFunc t (Some (b, code)))) ms = ([], TReturned)"
  by (simp add: test_Same_def)

text \<open>A frame outside the package is dropped too when its name has the text \<open>runtime.\<close> in it.\<close>

lemma trace_drops_other_packages:
  "assert_trace [\<lparr>fr_file = ''a.go'', fr_line = 1, fr_name = ''x/y.F''\<rparr>,
     \<lparr>fr_file = ''b.go'', fr_line = 2, fr_name = ''x/myruntime.G''\<rparr>] =
   ''at a.go:1'' @ nl"
  by code_simp

end
