(* ===== verification/Gx_Queue_Program.thy ===== *)
theory Gx_Queue_Program imports Gx_Queue begin

text \<open>
  The program around a queue that the examples show: a goroutine calls \<open>Run\<close>, the main
  goroutine pushes a list of items, closes the queue and waits for the result of \<open>Run\<close>; a
  worker function acts on the world. Every step is a step of the queue of \<open>Gx_Queue\<close> that the
  program allows at that point, so what is shown holds for every interleaving. The queue
  does not fail when it is full, and its context ends only by an error of a worker.
\<close>

section \<open>The program\<close>

text \<open>\<open>MFatal\<close> is \<open>log.Fatal\<close> after a rejected push; the main goroutine has number 0.\<close>

datatype 'v producer_pc = MPush "'v list" | MWait | MDone "error option" | MFatal

datatype run_call = RFresh | RRunning | RReturned "error option"

text \<open>What a worker function does, given \<open>Err\<close> of its context; \<open>pp_errs\<close> are the errors so far.\<close>

type_synonym ('v, 'w) work = "error option \<Rightarrow> 'v \<Rightarrow> 'w \<Rightarrow> 'w \<times> error option"

record ('v, 'w) program =
  pp_q :: "'v queue_sys"
  pp_main :: "'v producer_pc"
  pp_run :: run_call
  pp_world :: 'w
  pp_errs :: "error list"

definition program_start :: "int \<Rightarrow> int \<Rightarrow> 'v list \<Rightarrow> 'w \<Rightarrow> ('v, 'w) program" where
  "program_start sz workers items w0 =
     \<lparr>pp_q = queue_start (NewQueue False sz True workers), pp_main = MPush items, pp_run = RFresh,
      pp_world = w0, pp_errs = []\<rparr>"

definition alone :: "'v queue_sys \<Rightarrow> 'v queue_sys \<Rightarrow> bool" where
  "alone y z \<longleftrightarrow> (\<forall>g. g \<noteq> 0 \<longrightarrow> qs_pc z g = qs_pc y g)"

definition worker_ends :: "nat \<Rightarrow> 'v \<Rightarrow> error option \<Rightarrow> 'v qrun \<Rightarrow> 'v queue_sys \<Rightarrow> 'v queue_sys" where
  "worker_ends i v e r y =
     y\<lparr>qs_handled := qs_handled y @ [v],
       qs_run := Some (case e of None \<Rightarrow> set_worker i WSelect r
         | Some x \<Rightarrow> set_worker i WExit (r\<lparr>run_ctx := cancel_cause e (run_ctx r)\<rparr>))\<rparr>"

inductive producer_step :: "('v, 'w) program \<Rightarrow> ('v, 'w) program \<Rightarrow> bool" where
  pushes:
    "pp_main p = MPush (v # vs) \<Longrightarrow> push_step (pp_q p) z \<Longrightarrow> alone (pp_q p) z \<Longrightarrow>
     qs_log z = qs_log (pp_q p) \<Longrightarrow> qs_pc z 0 \<in> {PushLocked v, PushFull v} \<Longrightarrow>
     producer_step p (p\<lparr>pp_q := z\<rparr>)"
| pushed:
    "pp_main p = MPush (v # vs) \<Longrightarrow> push_step (pp_q p) z \<Longrightarrow> alone (pp_q p) z \<Longrightarrow>
     qs_log z = qs_log (pp_q p) @ [PushRet v ok] \<Longrightarrow>
     producer_step p (p\<lparr>pp_q := z, pp_main := if ok then MPush vs else MFatal\<rparr>)"
| closes:
    "pp_main p = MPush [] \<Longrightarrow> close_step (pp_q p) z \<Longrightarrow> alone (pp_q p) z \<Longrightarrow>
     qs_log z = qs_log (pp_q p) \<Longrightarrow> qs_pc z 0 = Closing False \<Longrightarrow>
     producer_step p (p\<lparr>pp_q := z\<rparr>)"
| closed:
    "pp_main p = MPush [] \<Longrightarrow> close_step (pp_q p) z \<Longrightarrow> alone (pp_q p) z \<Longrightarrow>
     qs_log z = qs_log (pp_q p) @ [CloseRet] \<Longrightarrow>
     producer_step p (p\<lparr>pp_q := z, pp_main := MWait\<rparr>)"
| receives:
    "pp_main p = MWait \<Longrightarrow> pp_run p = RReturned res \<Longrightarrow> producer_step p (p\<lparr>pp_main := MDone res\<rparr>)"

inductive call_step :: "('v, 'w) work \<Rightarrow> ('v, 'w) program \<Rightarrow> ('v, 'w) program \<Rightarrow> bool" for work where
  run_starts:
    "pp_run p = RFresh \<Longrightarrow> run_step (pp_q p) z \<Longrightarrow> qs_log z = qs_log (pp_q p) \<Longrightarrow>
     qs_run (pp_q p) = None \<Longrightarrow> qs_run z = Some r \<Longrightarrow> run_parent r = live_ctx \<Longrightarrow> \<not> run_untilClosed r \<Longrightarrow>
     call_step work p (p\<lparr>pp_q := z, pp_run := RRunning\<rparr>)"
| run_rejected:
    "pp_run p = RFresh \<Longrightarrow> run_step (pp_q p) z \<Longrightarrow> qs_run z = qs_run (pp_q p) \<Longrightarrow>
     qs_log z = qs_log (pp_q p) @ [RunRet res] \<Longrightarrow>
     call_step work p (p\<lparr>pp_q := z, pp_run := RReturned res\<rparr>)"
| runs:
    "pp_run p = RRunning \<Longrightarrow> run_step (pp_q p) z \<Longrightarrow> qs_log z = qs_log (pp_q p) \<Longrightarrow> z \<noteq> pp_q p \<Longrightarrow>
     qs_handled z = qs_handled (pp_q p) \<Longrightarrow> qs_run z = Some r \<Longrightarrow> run_parent r = live_ctx \<Longrightarrow>
     call_step work p (p\<lparr>pp_q := z\<rparr>)"
| works:
    "pp_run p = RRunning \<Longrightarrow> qs_run (pp_q p) = Some r \<Longrightarrow> worker_is r i (WBusy v) \<Longrightarrow>
     work (ctx_err (run_ctx r)) v (pp_world p) = (w, e) \<Longrightarrow>
     call_step work p
       (p\<lparr>pp_q := worker_ends i v e r (pp_q p), pp_world := w,
          pp_errs := pp_errs p @ (case e of None \<Rightarrow> [] | Some x \<Rightarrow> [x])\<rparr>)"
| run_returns:
    "pp_run p = RRunning \<Longrightarrow> run_step (pp_q p) z \<Longrightarrow> qs_run z = None \<Longrightarrow>
     qs_log z = qs_log (pp_q p) @ [RunRet res] \<Longrightarrow>
     call_step work p (p\<lparr>pp_q := z, pp_run := RReturned res\<rparr>)"

inductive program_step :: "('v, 'w) work \<Rightarrow> ('v, 'w) program \<Rightarrow> ('v, 'w) program \<Rightarrow> bool" for work where
  producer: "producer_step p q \<Longrightarrow> program_step work p q"
| call: "call_step work p q \<Longrightarrow> program_step work p q"

lemma works_is_run_step:
  "qs_run y = Some r \<Longrightarrow> worker_is r i (WBusy v) \<Longrightarrow> run_step y (worker_ends i v e r y)"
  by (cases e) (auto simp: worker_ends_def intro: worker_handles worker_fails)

text \<open>Every step of the program is one of the queue, or the receipt of the result.\<close>

lemma program_step_queue:
  "program_step work p q \<Longrightarrow> pp_q q = pp_q p \<or> queue_step (pp_q p) (pp_q q)"
  by (auto elim!: program_step.cases producer_step.cases call_step.cases intro: queue_step.intros)
    (metis step_run works_is_run_step)

section \<open>The invariant\<close>

text \<open>The items handled so far act on the world one after the other.\<close>

definition work_one :: "('v, 'w) work \<Rightarrow> 'v \<Rightarrow> 'w \<times> error list \<Rightarrow> 'w \<times> error list" where
  "work_one work v we =
     (case we of (w, es) \<Rightarrow>
        case work (if es = [] then None else Some Canceled) v w of
          (w', e) \<Rightarrow> (w', es @ (case e of None \<Rightarrow> [] | Some x \<Rightarrow> [x])))"

text \<open>The context of the run after those errors, and the result it leads to.\<close>

definition errs_ctx :: "error list \<Rightarrow> ctx" where
  "errs_ctx es = (case es of [] \<Rightarrow> live_ctx | e # _ \<Rightarrow> \<lparr>ctx_err = Some Canceled, ctx_cause = Some e\<rparr>)"

definition errs_result :: "error list \<Rightarrow> error option" where
  "errs_result es = (case es of [] \<Rightarrow> None | e # _ \<Rightarrow> if errors_Is e Canceled then None else Some e)"

lemma errs_ctx_result: "queue_run_result (errs_ctx es) = errs_result es"
  by (simp add: queue_run_result_def errs_ctx_def errs_result_def live_ctx_def split: list.split)

lemma errs_ctx_err: "ctx_err (errs_ctx es) = (if es = [] then None else Some Canceled)"
  by (simp add: errs_ctx_def live_ctx_def split: list.split)

lemma errs_ctx_add: "cancel_cause (Some x) (errs_ctx es) = errs_ctx (es @ [x])"
  by (cases es) (simp_all add: errs_ctx_def cancel_cause_def live_ctx_def)

fun main_inv :: "'v list \<Rightarrow> run_call \<Rightarrow> 'v queue_sys \<Rightarrow> 'v producer_pc \<Rightarrow> bool" where
  "main_inv items rc y (MPush (v # vs)) \<longleftrightarrow>
     qs_pc y 0 \<in> {Idle, PushLocked v} \<and> q_closeOnce (qs_q y) = OnceFresh \<and> qs_accepted y @ v # vs = items"
| "main_inv items rc y (MPush []) \<longleftrightarrow>
     (qs_pc y 0 = Idle \<and> q_closeOnce (qs_q y) = OnceFresh \<or>
      qs_pc y 0 = Closing False \<and> q_closeOnce (qs_q y) \<in> {OnceSignal 0, OnceSeal 0}) \<and> qs_accepted y = items"
| "main_inv items rc y MWait \<longleftrightarrow>
     qs_pc y 0 = Idle \<and> q_closeOnce (qs_q y) = OnceDone \<and> qs_accepted y = items"
| "main_inv items rc y (MDone res) \<longleftrightarrow>
     qs_pc y 0 = Idle \<and> q_closeOnce (qs_q y) = OnceDone \<and> qs_accepted y = items \<and> rc = RReturned res"
| "main_inv items rc y MFatal \<longleftrightarrow> False"

fun call_inv :: "error list \<Rightarrow> 'v queue_sys \<Rightarrow> run_call \<Rightarrow> bool" where
  "call_inv es y RFresh \<longleftrightarrow> qs_run y = None \<and> qs_handled y = [] \<and> es = []"
| "call_inv es y RRunning \<longleftrightarrow>
     (\<exists>r. qs_run y = Some r \<and> run_parent r = live_ctx \<and> run_ctx r = errs_ctx es \<and>
          (\<forall>res. run_phase r = RunResult res \<longrightarrow> res = errs_result es))"
| "call_inv es y (RReturned res) \<longleftrightarrow>
     qs_run y = None \<and> res = errs_result es \<and>
     (es = [] \<longrightarrow> ch_closed (q_queue (qs_q y)) \<and> ch_buf (q_queue (qs_q y)) = [])"

definition setup_inv :: "'v list \<Rightarrow> 'v queue_sys \<Rightarrow> bool" where
  "setup_inv items y \<longleftrightarrow>
     \<not> q_failOnFull (qs_q y) \<and> q_failure (qs_q y) = None \<and> q_worker (qs_q y) \<and>
     length items \<le> ch_cap (q_queue (qs_q y)) \<and> (\<forall>g. g \<noteq> 0 \<longrightarrow> qs_pc y g = Idle)"

definition program_inv :: "('v, 'w) work \<Rightarrow> 'v list \<Rightarrow> 'w \<Rightarrow> ('v, 'w) program \<Rightarrow> bool" where
  "program_inv work items w0 p \<longleftrightarrow>
     queue_inv (pp_q p) \<and> setup_inv items (pp_q p) \<and> main_inv items (pp_run p) (pp_q p) (pp_main p) \<and>
     call_inv (pp_errs p) (pp_q p) (pp_run p) \<and>
     (pp_world p, pp_errs p) = fold (work_one work) (qs_handled (pp_q p)) (w0, [])"

text \<open>What the steps of the main goroutine are.\<close>

lemma alone_zero:
  assumes "setup_inv items y" and "qs_pc y g \<noteq> Idle"
  shows "g = 0"
  using assms by (auto simp: setup_inv_def)

lemma pushes_is:
  assumes "push_step y z" and "alone y z" and "qs_log z = qs_log y" and "qs_pc z 0 \<in> {PushLocked v, PushFull v}"
    and "setup_inv items y" and "qs_pc y 0 \<in> {Idle, PushLocked v}" and "\<not> qs_panicked z"
  shows "qs_pc y 0 = Idle \<and> z = goto 0 (PushLocked v) (y\<lparr>qs_mu := 0 # qs_mu y\<rparr>)"
  using assms(1)
proof cases
  case (push_rlock g v')
  then have "g = 0"
    using assms(2) by (auto simp: alone_def goto_def split: if_splits)
  then show ?thesis
    using push_rlock assms(4) by (auto simp: goto_def)
next
  case (push_full g v')
  then show ?thesis
    using assms(3,5) by (simp add: setup_inv_def returns_def goto_def Let_def)
next
  case (push_fails g v' q c)
  then show ?thesis
    using assms(6) alone_zero [OF assms(5), of g] by auto
next
  case (push_cancels g v' n e)
  then show ?thesis
    using assms(6) alone_zero [OF assms(5), of g] by auto
qed (use assms(3,7) in \<open>auto simp: returns_def goto_def accept_item_def\<close>)

lemma pushed_is:
  assumes "push_step y z" and "alone y z" and "qs_log z = qs_log y @ [PushRet v ok]"
    and "setup_inv items y" and "qs_pc y 0 \<in> {Idle, PushLocked v}" and "\<not> q_closed (qs_q y)"
    and "length (ch_buf (q_queue (qs_q y))) < ch_cap (q_queue (qs_q y))"
  shows "ok \<and> qs_pc y 0 = PushLocked v \<and>
    (\<exists>ch. chan_send v (q_queue (qs_q y)) = Ret (Some ch) \<and>
       z = returns 0 (PushRet v True) (accept_item v ch (y\<lparr>qs_mu := remove1 0 (qs_mu y)\<rparr>)))"
  using assms(1)
proof cases
  case (push_sent g v' ch)
  then have "g = 0"
    using alone_zero [OF assms(4), of g] by auto
  then show ?thesis
    using push_sent assms(3,5) by (auto simp: returns_def goto_def accept_item_def)
next
  case (push_full g v')
  then show ?thesis
    using assms(7) by (simp add: chan_send_cases)
next
  case (push_fails g v' q c)
  then show ?thesis
    using assms(5) alone_zero [OF assms(4), of g] by auto
next
  case (push_cancels g v' n e)
  then show ?thesis
    using assms(5) alone_zero [OF assms(4), of g] by auto
qed (use assms(3,6) in \<open>auto simp: returns_def goto_def\<close>)

lemma closes_is:
  assumes "close_step y z" and "alone y z" and "qs_log z = qs_log y" and "qs_pc z 0 = Closing False"
    and "main_inv items rc y (MPush [])" and "\<not> qs_panicked z"
  shows "qs_pc y 0 = Idle \<and> q_closeOnce (qs_q y) = OnceFresh \<and>
      z = goto 0 (Closing False) (y\<lparr>qs_q := (qs_q y)\<lparr>q_closeOnce := OnceSignal 0, q_closed := True\<rparr>\<rparr>) \<or>
    qs_pc y 0 = Closing False \<and> q_closeOnce (qs_q y) = OnceSignal 0 \<and>
      z = y\<lparr>qs_q := (qs_q y)\<lparr>q_closeOnce := OnceSeal 0, q_pushWaitDone := True\<rparr>\<rparr>"
  using assms(1)
proof cases
  case (close_flag g drain)
  then have "g = 0"
    using assms(2) by (auto simp: alone_def goto_def split: if_splits)
  then show ?thesis
    using close_flag assms(4) by (simp add: goto_def)
next
  case (close_signal g drain)
  then show ?thesis
    using assms(5,6) by (auto split: if_splits)
next
  case (close_seal g drain)
  then have "drain = False"
    using assms(5) by auto
  then show ?thesis
    using close_seal assms(3,6) by (simp add: close_next_def returns_def goto_def split: go.splits)
qed (use assms(5) in auto)

lemma closed_is:
  assumes "close_step y z" and "qs_log z = qs_log y @ [CloseRet]" and "main_inv items rc y (MPush [])"
  shows "qs_pc y 0 = Closing False \<and> q_closeOnce (qs_q y) = OnceSeal 0 \<and>
    (\<exists>ch. chan_close (q_queue (qs_q y)) = Ret ch \<and>
       z = returns 0 CloseRet (y\<lparr>qs_q := (qs_q y)\<lparr>q_closeOnce := OnceDone, q_queue := ch\<rparr>\<rparr>))"
  using assms(1)
proof cases
  case (close_seal g drain)
  then have "g = 0" "drain = False"
    using assms(3) by auto
  then show ?thesis
    using close_seal assms(2,3) by (auto simp: close_next_def split: go.splits)
qed (use assms(2,3) in \<open>auto simp: goto_def split: if_splits\<close>)

text \<open>The steps of \<open>Run\<close> do not move the main goroutine.\<close>

definition caller_same :: "'v queue_sys \<Rightarrow> 'v queue_sys \<Rightarrow> bool" where
  "caller_same y z \<longleftrightarrow>
     qs_pc z = qs_pc y \<and> qs_accepted z = qs_accepted y \<and> q_closeOnce (qs_q z) = q_closeOnce (qs_q y) \<and>
     q_failOnFull (qs_q z) = q_failOnFull (qs_q y) \<and> q_failure (qs_q z) = q_failure (qs_q y) \<and>
     q_worker (qs_q z) = q_worker (qs_q y) \<and> q_workers (qs_q z) = q_workers (qs_q y) \<and>
     ch_cap (q_queue (qs_q z)) = ch_cap (q_queue (qs_q y)) \<and>
     ch_closed (q_queue (qs_q z)) = ch_closed (q_queue (qs_q y))"

lemma run_step_caller: "run_step y z \<Longrightarrow> caller_same y z"
  by (erule run_step.cases)
    (auto simp: caller_same_def queue_run_begin_def run_finish_def queue_run_end_def chan_recv_cases split: if_splits option.splits)

lemma main_inv_call: "\<forall>res. m \<noteq> MDone res \<Longrightarrow> main_inv items rc y m = main_inv items rc' y m"
  by (cases "(items, rc, y, m)" rule: main_inv.cases) auto

lemma caller_same_inv:
  assumes "caller_same y z"
  shows "setup_inv items y \<Longrightarrow> setup_inv items z" "main_inv items rc y m \<Longrightarrow> main_inv items rc z m"
  using assms by (auto simp: caller_same_def setup_inv_def elim!: main_inv.elims)

lemma running_not_begun:
  "queue_inv y \<Longrightarrow> qs_run y = Some r \<Longrightarrow> queue_run_begin n (qs_q y) \<noteq> Inr q"
  by (auto simp: queue_inv_def run_inv_def queue_run_begin_def split: option.splits)

lemma runs_call:
  assumes "run_step y z" and "z \<noteq> y" and "qs_handled z = qs_handled y"
    and "qs_run z = Some r" and "run_parent r = live_ctx" and inv: "queue_inv y" "call_inv es y RRunning"
  shows "call_inv es z RRunning"
  using assms(1)
proof cases
  case (run_begins q c parent untilClosed)
  then show ?thesis
    using inv running_not_begun by auto
next
  case (parent_ends r' c parent)
  then have "z = y"
    using assms(4,5) inv(2) by (auto simp: inherit_def live_ctx_def)
  then show ?thesis
    using assms(2) by blast
qed (use assms(3,4) inv in \<open>auto simp: set_worker_def errs_ctx_result queue_inv_alone\<close>)

lemma run_returns_call:
  assumes "run_step y z" and "qs_run z = None" and "qs_log z = qs_log y @ [RunRet res]"
    and inv: "queue_inv y" "call_inv es y RRunning"
  shows "call_inv es z (RReturned res) \<and> qs_handled z = qs_handled y"
proof -
  obtain r where r: "qs_run y = Some r" "run_parent r = live_ctx" "run_ctx r = errs_ctx es"
    "\<forall>res. run_phase r = RunResult res \<longrightarrow> res = errs_result es"
    using inv(2) by auto
  have ok: "run_ok y r" "1 \<le> q_workers (qs_q y)"
    using inv(1) r(1) by (auto simp: queue_inv_def run_inv_def)
  note finish = queue_inv_alone(2) [OF inv(1) r(1)]
  from assms(1) show ?thesis
  proof cases
    case (run_ends r' res')
    then have exited: "run_phase r = RunResult res" "set (run_workers r) \<subseteq> {WExit}"
      using r(1) assms(3) ok(1) finish by (auto simp: run_ok_def)
    have "run_workers r \<noteq> []"
      using ok by (auto simp: run_ok_def)
    with exited(2) have "WExit \<in> set (run_workers r)"
      by (cases "run_workers r") auto
    then have "es = [] \<Longrightarrow> ch_closed (q_queue (qs_q y)) \<and> ch_buf (q_queue (qs_q y)) = []"
      using ok(1) r(3) by (simp add: run_ok_def errs_ctx_err)
    then show ?thesis
      using run_ends exited(1) r(1,4) inv(1) by (simp add: queue_inv_alone)
  qed (use assms(2,3) r inv(1) in \<open>auto simp: live_ctx_def\<close>)
qed

text \<open>The end of one call of the worker function.\<close>

lemma works_call:
  assumes "qs_run y = Some r" and "worker_is r i (WBusy v)" and "call_inv es y RRunning" and "queue_inv y"
  shows "call_inv (es @ (case e of None \<Rightarrow> [] | Some x \<Rightarrow> [x])) (worker_ends i v e r y) RRunning"
proof -
  have "run_phase r = RunWorking"
    using assms working_phase by (auto simp: queue_inv_def)
  then show ?thesis
    using assms(1,3) by (cases e) (simp_all add: worker_ends_def set_worker_def errs_ctx_add)
qed

lemma producer_forms:
  assumes inv: "program_inv work items w0 p" and "producer_step p q"
  obtains (lock) v vs where "pp_main p = MPush (v # vs)" "qs_pc (pp_q p) 0 = Idle"
      "q = p\<lparr>pp_q := goto 0 (PushLocked v) ((pp_q p)\<lparr>qs_mu := 0 # qs_mu (pp_q p)\<rparr>)\<rparr>"
    | (send) v vs ch where "pp_main p = MPush (v # vs)" "qs_pc (pp_q p) 0 = PushLocked v"
      "chan_send v (q_queue (qs_q (pp_q p))) = Ret (Some ch)"
      "q = p\<lparr>pp_q := returns 0 (PushRet v True) (accept_item v ch ((pp_q p)\<lparr>qs_mu := remove1 0 (qs_mu (pp_q p))\<rparr>)),
             pp_main := MPush vs\<rparr>"
    | (flag) "pp_main p = MPush []" "qs_pc (pp_q p) 0 = Idle" "q_closeOnce (qs_q (pp_q p)) = OnceFresh"
      "q = p\<lparr>pp_q := goto 0 (Closing False)
             ((pp_q p)\<lparr>qs_q := (qs_q (pp_q p))\<lparr>q_closeOnce := OnceSignal 0, q_closed := True\<rparr>\<rparr>)\<rparr>"
    | (signal) "pp_main p = MPush []" "qs_pc (pp_q p) 0 = Closing False" "q_closeOnce (qs_q (pp_q p)) = OnceSignal 0"
      "q = p\<lparr>pp_q := (pp_q p)\<lparr>qs_q := (qs_q (pp_q p))\<lparr>q_closeOnce := OnceSeal 0, q_pushWaitDone := True\<rparr>\<rparr>\<rparr>"
    | (seal) ch where "pp_main p = MPush []" "qs_pc (pp_q p) 0 = Closing False" "q_closeOnce (qs_q (pp_q p)) = OnceSeal 0"
      "chan_close (q_queue (qs_q (pp_q p))) = Ret ch"
      "q = p\<lparr>pp_q := returns 0 CloseRet
               ((pp_q p)\<lparr>qs_q := (qs_q (pp_q p))\<lparr>q_closeOnce := OnceDone, q_queue := ch\<rparr>\<rparr>), pp_main := MWait\<rparr>"
    | (receive) res where "pp_main p = MWait" "pp_run p = RReturned res" "q = p\<lparr>pp_main := MDone res\<rparr>"
proof -
  have y: "queue_inv (pp_q p)" "setup_inv items (pp_q p)" "main_inv items (pp_run p) (pp_q p) (pp_main p)"
    using inv by (simp_all add: program_inv_def)
  have "queue_inv (pp_q q)"
    using program_step_queue [OF producer [OF assms(2)]] y(1) queue_step_inv by auto
  then have calm: "\<not> qs_panicked (pp_q q)"
    by (simp add: queue_inv_def lock_inv_def)
  from assms(2) show ?thesis
  proof cases
    case (pushes v vs z)
    have "qs_pc (pp_q p) 0 = Idle \<and> z = goto 0 (PushLocked v) ((pp_q p)\<lparr>qs_mu := 0 # qs_mu (pp_q p)\<rparr>)"
      by (rule pushes_is [OF pushes(3-6) y(2)]) (use pushes y(3) calm in auto)
    then show ?thesis
      using lock pushes(1,2) by blast
  next
    case (pushed v vs z ok)
    have open': "\<not> q_closed (qs_q (pp_q p))"
      using y(1,3) pushed(2) by (auto simp: queue_inv_def lock_inv_def)
    have "length (ch_buf (q_queue (qs_q (pp_q p)))) < length items"
      using y(1,3) pushed(2) by (auto simp: queue_inv_def item_inv_def)
    then have room: "length (ch_buf (q_queue (qs_q (pp_q p)))) < ch_cap (q_queue (qs_q (pp_q p)))"
      using y(2) by (simp add: setup_inv_def)
    have "qs_pc (pp_q p) 0 \<in> {Idle, PushLocked v}"
      using y(3) pushed(2) by simp
    from pushed_is [OF pushed(3-5) y(2) this open' room] show ?thesis
      using send pushed(1,2) by auto
  next
    case (closes z)
    have "main_inv items (pp_run p) (pp_q p) (MPush [])"
      using y(3) closes(2) by simp
    from closes_is [OF closes(3-6) this] show ?thesis
      using calm flag signal closes(1,2) by auto
  next
    case (closed z)
    have "main_inv items (pp_run p) (pp_q p) (MPush [])"
      using y(3) closed(2) by simp
    from closed_is [OF closed(3,5) this] show ?thesis
      using seal closed(1,2) by auto
  next
    case (receives res)
    then show ?thesis
      using receive by blast
  qed
qed

lemma producer_step_inv:
  assumes inv: "program_inv work items w0 p" and step: "producer_step p q"
  shows "program_inv work items w0 q"
proof -
  have "queue_inv (pp_q q)"
    using program_step_queue [OF producer [OF step]] inv queue_step_inv by (auto simp: program_inv_def)
  note facts = this inv
  from inv step show ?thesis
  proof (cases rule: producer_forms)
    case (lock v vs)
    then show ?thesis
      using facts by (cases "pp_run p") (auto simp: program_inv_def setup_inv_def goto_def)
  next
    case (send v vs ch)
    have "ch_closed ch = ch_closed (q_queue (qs_q (pp_q p)))" "ch_cap ch = ch_cap (q_queue (qs_q (pp_q p)))"
      "\<not> ch_closed ch"
      using send(3) by (auto simp: chan_send_cases)
    then show ?thesis
      using send(1,2,4) facts
      by (cases vs; cases "pp_run p") (auto simp: program_inv_def setup_inv_def goto_def returns_def accept_item_def)
  next
    case flag
    then show ?thesis
      using facts by (cases "pp_run p") (auto simp: program_inv_def setup_inv_def goto_def)
  next
    case signal
    then show ?thesis
      using facts by (cases "pp_run p") (auto simp: program_inv_def setup_inv_def)
  next
    case (seal ch)
    then show ?thesis
      using facts
      by (cases "pp_run p") (auto simp: program_inv_def setup_inv_def goto_def returns_def chan_close_def split: if_splits)
  next
    case (receive res)
    then show ?thesis
      using facts by (simp add: program_inv_def)
  qed
qed

lemma call_step_inv:
  assumes inv: "program_inv work items w0 p" and "call_step work p q"
  shows "program_inv work items w0 q"
proof -
  have y: "queue_inv (pp_q p)" "setup_inv items (pp_q p)" "main_inv items (pp_run p) (pp_q p) (pp_main p)"
    "call_inv (pp_errs p) (pp_q p) (pp_run p)"
    and world: "(pp_world p, pp_errs p) = fold (work_one work) (qs_handled (pp_q p)) (w0, [])"
    using inv by (simp_all add: program_inv_def)
  have z: "queue_inv (pp_q q)"
    using program_step_queue [OF call [OF assms(2)]] y(1) queue_step_inv by auto
  from assms(2) show ?thesis
  proof cases
    case (run_starts z r)
    have same: "qs_handled z = qs_handled (pp_q p)" "run_ctx r = live_ctx" "run_phase r = RunWorking"
      using run_starts(3,5-7) queue_inv_alone(1) [OF y(1)]
      by (auto elim!: run_step.cases simp: inherit_def live_ctx_def)
    have "\<forall>res. pp_main p \<noteq> MDone res"
      using y(3) run_starts(2) by (cases "pp_main p") auto
    then have "main_inv items RRunning z (pp_main p)"
      using main_inv_call caller_same_inv(2) [OF run_step_caller [OF run_starts(3)] y(3)] by blast
    then show ?thesis
      using run_starts same z y world caller_same_inv(1) [OF run_step_caller [OF run_starts(3)]]
      by (simp add: program_inv_def errs_ctx_def)
  next
    case (run_rejected z res)
    then show ?thesis
      using y(1,2,4)
      by (auto simp: setup_inv_def queue_inv_def run_inv_def queue_run_begin_def elim!: run_step.cases)
  next
    case (runs z r)
    show ?thesis
      using runs runs_call [OF runs(3,5,6,7,8) y(1)] z y world caller_same_inv [OF run_step_caller [OF runs(3)]]
      by (auto simp: program_inv_def)
  next
    case (works r i v w e)
    have call: "call_inv (pp_errs q) (pp_q q) (pp_run q)"
      using works works_call [OF works(3,4) _ y(1), of "pp_errs p" e] y(4) by simp
    have "ctx_err (run_ctx r) = (if pp_errs p = [] then None else Some Canceled)"
      using y(4) works(2,3) by (auto simp: errs_ctx_err)
    then have "(w, pp_errs q) = work_one work v (pp_world p, pp_errs p)"
      using works by (simp add: work_one_def)
    moreover have "qs_handled (pp_q q) = qs_handled (pp_q p) @ [v]"
      using works by (simp add: worker_ends_def)
    ultimately show ?thesis
      using works call z y(2,3) world caller_same_inv [OF run_step_caller [OF works_is_run_step [OF works(3,4), of e]]]
      by (simp add: program_inv_def)
  next
    case (run_returns z res)
    have "call_inv (pp_errs p) z (RReturned res) \<and> qs_handled z = qs_handled (pp_q p)"
      by (rule run_returns_call [OF run_returns(3,4,5) y(1)]) (use y(4) run_returns(2) in simp)
    moreover have "\<forall>res. pp_main p \<noteq> MDone res"
      using y(3) run_returns(2) by (cases "pp_main p") auto
    then have "main_inv items (RReturned res) z (pp_main p)"
      using main_inv_call caller_same_inv(2) [OF run_step_caller [OF run_returns(3)] y(3)] by blast
    ultimately show ?thesis
      using run_returns z y world caller_same_inv(1) [OF run_step_caller [OF run_returns(3)]]
      by (simp add: program_inv_def)
  qed
qed

text \<open>The number of workers is fixed. With one worker nothing follows an item that failed.\<close>

definition stop_inv :: "('v, 'w) work \<Rightarrow> 'w \<Rightarrow> ('v, 'w) program \<Rightarrow> bool" where
  "stop_inv work w0 p \<longleftrightarrow>
     pp_errs p = [] \<or>
     (\<exists>hs v e. qs_handled (pp_q p) = hs @ [v] \<and> snd (fold (work_one work) hs (w0, [])) = [] \<and> pp_errs p = [e] \<and>
        map_option run_workers (qs_run (pp_q p)) \<in> {None, Some [WExit]})"

definition program_new :: "int \<Rightarrow> 'v list \<Rightarrow> 'w \<Rightarrow> ('v, 'w) program \<Rightarrow> bool" where
  "program_new workers items w0 p \<longleftrightarrow>
     (\<exists>sz. p = program_start sz workers items w0 \<and> length items \<le> ch_cap (q_queue (qs_q (pp_q p))))"

definition worker_count :: "int \<Rightarrow> nat" where
  "worker_count workers = (if workers \<le> 0 then 1 else nat workers)"

definition whole_inv :: "('v, 'w) work \<Rightarrow> int \<Rightarrow> 'v list \<Rightarrow> 'w \<Rightarrow> ('v, 'w) program \<Rightarrow> bool" where
  "whole_inv work workers items w0 p \<longleftrightarrow>
     program_inv work items w0 p \<and> q_workers (qs_q (pp_q p)) = worker_count workers \<and>
     (worker_count workers = 1 \<longrightarrow> stop_inv work w0 p)"

lemma caller_step_workers:
  "push_step y z \<or> close_step y z \<Longrightarrow>
     q_workers (qs_q z) = q_workers (qs_q y) \<and> qs_handled z = qs_handled y \<and>
     map_option run_workers (qs_run z) = map_option run_workers (qs_run y)"
  by (elim disjE push_step.cases close_step.cases)
    (auto simp: queue_sys_defs queue_fail_def Let_def option.map_comp comp_def
      split: option.splits if_splits go.splits intro!: option.map_cong)

lemma exited_run_step:
  assumes "run_step y z" and "qs_run y = Some r" and "run_workers r = [WExit]" and "queue_inv y"
    and "qs_run z = Some r'"
  shows "run_workers r' = [WExit]"
  using assms(1)
proof cases
  case (run_begins q c parent untilClosed)
  then show ?thesis
    using running_not_begun assms(2,4) by blast
qed (use assms in \<open>auto simp: worker_is_def set_worker_def queue_inv_alone\<close>)

lemma producer_step_whole:
  assumes "producer_step p q" and "whole_inv work workers items w0 p"
  shows "whole_inv work workers items w0 q"
proof -
  have "q_workers (qs_q (pp_q q)) = q_workers (qs_q (pp_q p)) \<and> qs_handled (pp_q q) = qs_handled (pp_q p) \<and>
      map_option run_workers (qs_run (pp_q q)) = map_option run_workers (qs_run (pp_q p)) \<and> pp_errs q = pp_errs p"
  proof -
    have "pp_q q = pp_q p \<or> push_step (pp_q p) (pp_q q) \<or> close_step (pp_q p) (pp_q q)" "pp_errs q = pp_errs p"
      using assms(1) by (auto elim!: producer_step.cases)
    then show ?thesis
      using caller_step_workers [of "pp_q p" "pp_q q"] by auto
  qed
  moreover from this have "stop_inv work w0 p \<Longrightarrow> stop_inv work w0 q"
    by (auto simp: stop_inv_def)
  moreover have "program_inv work items w0 q"
    using producer_step_inv [OF _ assms(1)] assms(2) by (auto simp: whole_inv_def)
  ultimately show ?thesis
    using assms(2) by (simp add: whole_inv_def)
qed

lemma call_step_stop:
  assumes "call_step work p q" and inv: "program_inv work items w0 p"
    and one: "q_workers (qs_q (pp_q p)) = 1" and stop: "stop_inv work w0 p"
  shows "stop_inv work w0 q"
  using assms(1)
proof cases
  case (run_starts z r)
  then show ?thesis
    using inv stop by (simp add: stop_inv_def program_inv_def)
next
  case (run_rejected z res)
  then show ?thesis
    using inv by (simp add: stop_inv_def program_inv_def)
next
  case (runs z r)
  obtain r0 where r0: "qs_run (pp_q p) = Some r0"
    using inv runs(2) by (auto simp: program_inv_def)
  have "run_workers r0 = [WExit] \<Longrightarrow> run_workers r = [WExit]"
    by (rule exited_run_step [OF runs(3) r0 _ _ runs(7)]) (use inv in \<open>simp_all add: program_inv_def\<close>)
  then show ?thesis
    using stop runs(1,6,7) r0 by (auto simp: stop_inv_def)
next
  case (works r i v w e)
  have workers: "run_workers r = [WBusy v]" "i = 0"
    using one_worker [OF _ works(3) one works(4)] inv by (auto simp: program_inv_def queue_inv_def)
  then have none: "pp_errs p = []"
    using stop works(3) by (auto simp: stop_inv_def)
  have "snd (fold (work_one work) (qs_handled (pp_q p)) (w0, [])) = []"
    using inv none by (simp add: program_inv_def) (metis snd_conv)
  then show ?thesis
    using works(1) workers none
    by (cases e) (auto simp: stop_inv_def worker_ends_def set_worker_def)
next
  case (run_returns z res)
  have "qs_handled z = qs_handled (pp_q p)"
    using run_returns_call [OF run_returns(3,4,5)] inv run_returns(2) by (auto simp: program_inv_def)
  then show ?thesis
    using run_returns stop by (auto simp: stop_inv_def)
qed

lemma call_step_whole:
  assumes "call_step work p q" and "whole_inv work workers items w0 p"
  shows "whole_inv work workers items w0 q"
proof -
  have "run_step (pp_q p) (pp_q q)"
    using assms(1) by (auto elim!: call_step.cases intro: works_is_run_step)
  then have "q_workers (qs_q (pp_q q)) = q_workers (qs_q (pp_q p))"
    using run_step_caller by (auto simp: caller_same_def)
  then show ?thesis
    using assms call_step_inv call_step_stop [OF assms(1)] by (auto simp: whole_inv_def)
qed

lemma program_start_whole: "program_new workers items w0 p \<Longrightarrow> whole_inv work workers items w0 p"
proof -
  assume new: "program_new workers items w0 p"
  then obtain sz where p: "p = program_start sz workers items w0" "length items \<le> ch_cap (q_queue (qs_q (pp_q p)))"
    by (auto simp: program_new_def)
  have "queue_inv (pp_q p)"
    unfolding p(1) by (rule queue_start_inv) (auto simp: queue_new_def program_start_def)
  then show ?thesis
    using p(2) unfolding p(1)
    by (cases items)
      (simp_all add: whole_inv_def program_inv_def stop_inv_def setup_inv_def program_start_def queue_start_def
        NewQueue_def worker_count_def Let_def)
qed

interpretation program: inductive_invariant "program_new workers items w0" "program_step work"
    "whole_inv work workers items w0" for work workers items w0
  by unfold_locales
    (auto intro: program_start_whole producer_step_whole call_step_whole elim: program_step.cases)

section \<open>The outcome\<close>

text \<open>The items handled one after the other, up to the first that fails.\<close>

fun run_until :: "('v, 'w) work \<Rightarrow> 'v list \<Rightarrow> 'w \<Rightarrow> 'w \<times> error option" where
  "run_until work [] w = (w, None)"
| "run_until work (v # vs) w =
     (case work None v w of
        (w', Some e) \<Rightarrow> (w', Some e)
      | (w', None) \<Rightarrow> run_until work vs w')"

lemma work_errs_grow: "\<exists>ds. snd (fold (work_one work) vs (w, es)) = es @ ds"
proof (induction vs arbitrary: w es)
  case (Cons v vs)
  obtain w' e where e: "work (if es = [] then None else Some Canceled) v w = (w', e)" by fastforce
  then have "work_one work v (w, es) = (w', es @ (case e of None \<Rightarrow> [] | Some x \<Rightarrow> [x]))"
    by (simp add: work_one_def)
  then show ?case
    using Cons.IH [of w' "es @ (case e of None \<Rightarrow> [] | Some x \<Rightarrow> [x])"] by auto
qed simp

lemma run_until_ok:
  "snd (fold (work_one work) hs (w, [])) = [] \<Longrightarrow>
     run_until work (hs @ vs) w = run_until work vs (fst (fold (work_one work) hs (w, [])))"
proof (induction hs arbitrary: w)
  case (Cons h hs)
  obtain w' e where e: "work None h w = (w', e)" by fastforce
  then have one: "work_one work h (w, []) = (w', case e of None \<Rightarrow> [] | Some x \<Rightarrow> [x])"
    by (simp add: work_one_def)
  then have "e = None"
    using Cons.prems work_errs_grow [of work hs w' "[the e]"] by (cases e) auto
  then show ?case
    using Cons one e by simp
qed simp

lemma done_facts:
  assumes "whole_inv work workers items w0 p" and "pp_main p = MDone res"
  shows "qs_accepted (pp_q p) = items" "qs_run (pp_q p) = None" "res = errs_result (pp_errs p)"
    "pp_errs p = [] \<Longrightarrow> mset (qs_handled (pp_q p)) = mset items"
    "worker_count workers = 1 \<Longrightarrow> \<exists>rest. items = qs_handled (pp_q p) @ rest \<and> (pp_errs p = [] \<longrightarrow> rest = [])"
    "(pp_world p, pp_errs p) = fold (work_one work) (qs_handled (pp_q p)) (w0, [])"
  using assms
  by (auto simp: whole_inv_def program_inv_def queue_inv_def item_inv_def serial_inv_def in_flight_alone)

text \<open>With one worker the program is the sequential one.\<close>

lemma sequential_done:
  assumes inv: "whole_inv work 1 items w0 p" and fin: "pp_main p = MDone res"
  shows "pp_world p = fst (run_until work items w0) \<and>
    res = (case snd (run_until work items w0) of None \<Rightarrow> None | Some e \<Rightarrow> errs_result [e])"
proof -
  note facts = done_facts [OF inv fin]
  obtain rest where rest: "items = qs_handled (pp_q p) @ rest" "pp_errs p = [] \<longrightarrow> rest = []"
    using facts(5) by (auto simp: worker_count_def)
  have world: "fold (work_one work) (qs_handled (pp_q p)) (w0, []) = (pp_world p, pp_errs p)"
    using facts(6) by simp
  have "stop_inv work w0 p"
    using inv by (simp add: whole_inv_def worker_count_def)
  then consider (all) "pp_errs p = []"
    | (fails) hs v e where "qs_handled (pp_q p) = hs @ [v]" "snd (fold (work_one work) hs (w0, [])) = []" "pp_errs p = [e]"
    by (auto simp: stop_inv_def)
  then show ?thesis
  proof cases
    case all
    then have "run_until work items w0 = (pp_world p, None)"
      using run_until_ok [of work items w0 "[]"] rest world by simp
    then show ?thesis
      using all facts(3) by (simp add: errs_result_def)
  next
    case (fails hs v e)
    obtain w where w: "fold (work_one work) hs (w0, []) = (w, [])"
      using fails(2) by (cases "fold (work_one work) hs (w0, [])") simp
    have "work None v w = (pp_world p, Some e)"
      using world fails(1,3) w by (auto simp: work_one_def split: prod.splits option.splits)
    then have "run_until work items w0 = (pp_world p, Some e)"
      using run_until_ok [OF fails(2), of "v # rest"] rest(1) fails(1) w by simp
    then show ?thesis
      using fails(3) facts(3) by simp
  qed
qed

end
