(* ===== verification/Gx_Queue_Program_End.thy ===== *)
theory Gx_Queue_Program_End imports Gx_Queue_Program begin

text \<open>
  The program of \<open>Gx_Queue_Program\<close> always ends: every step uses up some of the work that is
  left, and before the end there is always a step, so no schedule can go on for ever and none
  can get stuck.
\<close>

section \<open>What is left to do\<close>

fun once_left :: "once \<Rightarrow> nat" where
  "once_left OnceFresh = 3"
| "once_left (OnceSignal g) = 2"
| "once_left (OnceSeal g) = 1"
| "once_left OnceDone = 0"

fun main_left :: "'v queue_sys \<Rightarrow> 'v producer_pc \<Rightarrow> nat" where
  "main_left y (MPush vs) =
     20 + 10 * length vs + (if qs_pc y 0 = Idle then 1 else 0) + once_left (q_closeOnce (qs_q y))"
| "main_left y MWait = 10"
| "main_left y (MDone res) = 0"
| "main_left y MFatal = 0"

fun worker_left :: "'v qworker \<Rightarrow> nat" where
  "worker_left WSelect = 1"
| "worker_left (WBusy v) = 3"
| "worker_left WExit = 0"

fun phase_left :: "run_phase \<Rightarrow> nat" where
  "phase_left RunWorking = 2"
| "phase_left RunChecked = 1"
| "phase_left (RunResult res) = 0"

definition run_left :: "'v queue_sys \<Rightarrow> nat" where
  "run_left y =
     (case qs_run y of None \<Rightarrow> 0
      | Some r \<Rightarrow> phase_left (run_phase r) + sum_list (map worker_left (run_workers r)))"

fun call_left :: "'v queue_sys \<Rightarrow> run_call \<Rightarrow> nat" where
  "call_left y RFresh = 20 + 2 * q_workers (qs_q y)"
| "call_left y RRunning = 10"
| "call_left y (RReturned res) = 0"

definition program_left :: "('v, 'w) program \<Rightarrow> nat" where
  "program_left p =
     main_left (pp_q p) (pp_main p) + call_left (pp_q p) (pp_run p) +
     3 * length (ch_buf (q_queue (qs_q (pp_q p)))) + run_left (pp_q p)"

lemma producer_step_less:
  assumes "program_inv work items w0 p" and "producer_step p q"
  shows "program_left q < program_left p"
  using assms
proof (cases rule: producer_forms)
  case (lock v vs)
  then show ?thesis
    by (cases "pp_run p") (simp_all add: program_left_def goto_def run_left_def)
next
  case (send v vs ch)
  then show ?thesis
    by (cases "pp_run p")
      (auto simp: program_left_def goto_def returns_def accept_item_def run_left_def chan_send_cases)
next
  case flag
  then show ?thesis
    by (cases "pp_run p") (simp_all add: program_left_def goto_def run_left_def)
next
  case signal
  then show ?thesis
    by (cases "pp_run p") (simp_all add: program_left_def run_left_def)
next
  case (seal ch)
  then show ?thesis
    by (cases "pp_run p")
      (auto simp: program_left_def goto_def returns_def run_left_def chan_close_def split: if_splits)
next
  case (receive res)
  then show ?thesis
    by (simp add: program_left_def)
qed

lemma sum_list_worker:
  assumes "worker_is r i w"
  shows "sum_list (map worker_left (run_workers (set_worker i w' r))) + worker_left w =
    sum_list (map worker_left (run_workers r)) + worker_left w'"
proof -
  have "map worker_left ((run_workers r)[i := w']) = (map worker_left (run_workers r))[i := worker_left w']"
    by (rule map_update)
  moreover have "worker_left w \<le> sum_list (map worker_left (run_workers r))"
    using assms by (auto simp: worker_is_def intro: member_le_sum_list)
  ultimately show ?thesis
    using assms by (simp add: worker_is_def set_worker_def sum_list_update)
qed

lemma run_step_less:
  assumes "run_step y z" and "z \<noteq> y" and "qs_handled z = qs_handled y \<and> qs_log z = qs_log y"
    and "qs_run z = Some r" and "run_parent r = live_ctx" and inv: "queue_inv y" "call_inv es y RRunning"
  shows "run_left z + 3 * length (ch_buf (q_queue (qs_q z))) < run_left y + 3 * length (ch_buf (q_queue (qs_q y)))"
  using assms(1)
proof cases
  case (run_begins q c parent untilClosed)
  then show ?thesis
    using inv running_not_begun by auto
next
  case (parent_ends r' c parent)
  then have "z = y"
    using assms(4,5) inv(2) by (auto simp: inherit_def live_ctx_def)
  then show ?thesis
    using assms(2) by blast
next
  case (worker_ctx_done r' i)
  then show ?thesis
    using sum_list_worker [OF worker_ctx_done(3), of WExit] by (simp add: run_left_def set_worker_def)
next
  case (worker_takes r' i v ch)
  then show ?thesis
    using sum_list_worker [OF worker_takes(3), of "WBusy v"]
    by (auto simp: run_left_def set_worker_def chan_recv_cases)
next
  case (worker_drained r' i ch)
  then show ?thesis
    using sum_list_worker [OF worker_drained(3), of WExit] by (simp add: run_left_def set_worker_def)
qed (use assms(2,3,4) inv in \<open>auto simp: run_left_def queue_inv_alone\<close>)

lemma call_step_less:
  assumes inv: "whole_inv work workers items w0 p" and "call_step work p q"
  shows "program_left q < program_left p"
proof -
  have p: "program_inv work items w0 p"
    using inv by (simp add: whole_inv_def)
  then have y: "queue_inv (pp_q p)" "call_inv (pp_errs p) (pp_q p) (pp_run p)"
    by (simp_all add: program_inv_def)
  have "run_step (pp_q p) (pp_q q)" "pp_main q = pp_main p"
    using assms(2) by (auto elim!: call_step.cases intro: works_is_run_step)
  note same = run_step_caller [OF this(1)] this(2)
  then have main: "main_left (pp_q q) (pp_main q) = main_left (pp_q p) (pp_main p)"
    by (cases "pp_main p") (simp_all add: caller_same_def)
  from assms(2) show ?thesis
  proof cases
    case (run_starts z r)
    then show ?thesis
      using main queue_inv_alone(1) [OF y(1)]
      by (auto simp: program_left_def run_left_def queue_run_begin_def sum_list_replicate elim!: run_step.cases
          split: if_splits option.splits)
  next
    case (run_rejected z res)
    then show ?thesis
      using p by (auto simp: program_inv_def setup_inv_def queue_inv_def run_inv_def queue_run_begin_def elim!: run_step.cases)
  next
    case (runs z r)
    then show ?thesis
      using main y run_step_less [OF runs(3,5) _ runs(7,8) y(1), of "pp_errs p"] by (simp add: program_left_def)
  next
    case (works r i v w e)
    have "run_left (pp_q q) < run_left (pp_q p)"
      using works sum_list_worker [OF works(4), of WSelect] sum_list_worker [OF works(4), of WExit]
      by (cases e) (simp_all add: run_left_def worker_ends_def set_worker_def)
    moreover have "q_queue (qs_q (pp_q q)) = q_queue (qs_q (pp_q p))"
      using works by (simp add: worker_ends_def)
    ultimately show ?thesis
      using main works by (simp add: program_left_def)
  next
    case (run_returns z res)
    then have "q_queue (qs_q z) = q_queue (qs_q (pp_q p))" "run_left z = 0"
      using y(1) by (auto simp: run_left_def queue_inv_alone(2) chan_recv_cases elim!: run_step.cases)
    then show ?thesis
      using main run_returns by (simp add: program_left_def)
  qed
qed

section \<open>There is always a step\<close>

lemma mu_free:
  assumes "program_inv work items w0 p" and "\<not> holds_mu (qs_pc (pp_q p) 0)"
  shows "qs_mu (pp_q p) = []"
proof -
  have "g \<notin> set (qs_mu (pp_q p))" for g
    using assms by (cases "g = 0") (auto simp: program_inv_def queue_inv_def lock_inv_def setup_inv_def)
  then show ?thesis
    by (metis last_in_set)
qed

lemma pwmu_free:
  assumes "program_inv work items w0 p" and "\<not> holds_pwmu (qs_pc (pp_q p) 0)"
  shows "qs_pwmu (pp_q p) = []"
proof -
  have "g \<notin> set (qs_pwmu (pp_q p))" for g
    using assms by (cases "g = 0") (auto simp: program_inv_def queue_inv_def lock_inv_def setup_inv_def)
  then show ?thesis
    by (metis last_in_set)
qed

lemma push_can_go:
  assumes inv: "program_inv work items w0 p" and main: "pp_main p = MPush (v # vs)"
  shows "\<exists>q. producer_step p q"
proof -
  let ?y = "pp_q p"
  have y: "qs_pc ?y 0 \<in> {Idle, PushLocked v}" "q_closeOnce (qs_q ?y) = OnceFresh" "\<not> q_failOnFull (qs_q ?y)"
    "\<not> q_closed (qs_q ?y)" "\<not> ch_closed (q_queue (qs_q ?y))"
    using inv main by (auto simp: program_inv_def setup_inv_def queue_inv_def lock_inv_def)
  show ?thesis
  proof (cases "qs_pc ?y 0 = Idle")
    case True
    let ?z = "goto 0 (PushLocked v) (?y\<lparr>qs_mu := 0 # qs_mu ?y\<rparr>)"
    have "push_step ?y ?z"
      by (rule push_rlock [OF True y(4)])
    then show ?thesis
      using pushes [OF main] by (force simp: alone_def goto_def)
  next
    case False
    then have pc: "qs_pc ?y 0 = PushLocked v"
      using y(1) by simp
    have "length (ch_buf (q_queue (qs_q ?y))) < length items"
      using inv main by (auto simp: program_inv_def queue_inv_def item_inv_def)
    then have "chan_send v (q_queue (qs_q ?y)) =
        Ret (Some ((q_queue (qs_q ?y))\<lparr>ch_buf := ch_buf (q_queue (qs_q ?y)) @ [v]\<rparr>))"
      using inv y(5) by (simp add: chan_send_def program_inv_def setup_inv_def)
    from push_sent [OF pc this] show ?thesis
      using pushed [OF main] by (force simp: alone_def goto_def returns_def accept_item_def)
  qed
qed

lemma close_can_go:
  assumes inv: "program_inv work items w0 p" and main: "pp_main p = MPush []"
  shows "\<exists>q. producer_step p q"
proof -
  let ?y = "pp_q p"
  have lock: "once_inv (q_closeOnce (qs_q ?y)) ?y"
    using inv by (simp add: program_inv_def queue_inv_def lock_inv_def)
  consider (fresh) "qs_pc ?y 0 = Idle" "q_closeOnce (qs_q ?y) = OnceFresh"
    | (signal) "qs_pc ?y 0 = Closing False" "q_closeOnce (qs_q ?y) = OnceSignal 0"
    | (seal) "qs_pc ?y 0 = Closing False" "q_closeOnce (qs_q ?y) = OnceSeal 0"
    using inv main by (auto simp: program_inv_def)
  then show ?thesis
  proof cases
    case fresh
    then have "qs_mu ?y = []"
      using mu_free [OF inv] by simp
    note step = close_flag [OF fresh this, where drain = False]
    have "producer_step p (p\<lparr>pp_q := goto 0 (Closing False)
        (?y\<lparr>qs_q := (qs_q ?y)\<lparr>q_closeOnce := OnceSignal 0, q_closed := True\<rparr>\<rparr>)\<rparr>)"
      by (rule closes [OF main step]) (simp_all add: alone_def goto_def)
    then show ?thesis by blast
  next
    case signal
    let ?z = "?y\<lparr>qs_q := (qs_q ?y)\<lparr>q_closeOnce := OnceSeal 0, q_pushWaitDone := True\<rparr>\<rparr>"
    have step: "close_step ?y ?z"
      using close_signal [OF signal] lock signal(2) by simp
    have "producer_step p (p\<lparr>pp_q := ?z\<rparr>)"
      by (rule closes [OF main step]) (simp_all add: alone_def signal(1))
    then show ?thesis by blast
  next
    case seal
    then have free: "qs_pwmu ?y = []"
      using pwmu_free [OF inv] by simp
    let ?ch = "(q_queue (qs_q ?y))\<lparr>ch_closed := True\<rparr>"
    let ?z = "returns 0 CloseRet (?y\<lparr>qs_q := (qs_q ?y)\<lparr>q_closeOnce := OnceDone, q_queue := ?ch\<rparr>\<rparr>)"
    have "chan_close (q_queue (qs_q ?y)) = Ret ?ch"
      using lock seal(2) by (simp add: chan_close_def)
    then have step: "close_step ?y ?z"
      using close_seal [OF seal free] by (simp add: close_next_def)
    have "producer_step p (p\<lparr>pp_q := ?z, pp_main := MWait\<rparr>)"
      by (rule closed [OF main step]) (simp_all add: alone_def goto_def returns_def)
    then show ?thesis by blast
  qed
qed

lemma set_worker_changes:
  assumes "worker_is r i w" and "w' \<noteq> w"
  shows "set_worker i w' r \<noteq> r"
proof
  assume same: "set_worker i w' r = r"
  have "run_workers (set_worker i w' r) ! i = w'"
    using assms(1) by (simp add: worker_is_def set_worker_def)
  then show False
    using assms unfolding same by (simp add: worker_is_def)
qed

lemma call_can_start:
  assumes inv: "program_inv work items w0 p" and main: "pp_main p = MWait" and call: "pp_run p = RFresh"
  shows "\<exists>q. call_step work p q"
proof -
  let ?y = "pp_q p"
  let ?q = "(qs_q ?y)\<lparr>q_running := True, q_cancel := Some (qs_runs ?y), q_done := Some (qs_runs ?y)\<rparr>"
  let ?r = "\<lparr>run_no = qs_runs ?y, run_untilClosed = False, run_parent = live_ctx,
     run_ctx = inherit live_ctx live_ctx, run_workers = replicate (q_workers ?q) WSelect, run_phase = RunWorking\<rparr>"
  have none: "qs_run ?y = None"
    using inv call by (simp add: program_inv_def)
  have "queue_run_begin (qs_runs ?y) (qs_q ?y) = Inr ?q"
    using inv none by (simp add: program_inv_def setup_inv_def queue_inv_def run_inv_def queue_run_begin_def)
  moreover have "qs_mu ?y = []"
    using mu_free [OF inv] inv main by (simp add: program_inv_def)
  ultimately have step: "run_step ?y (?y\<lparr>qs_q := ?q, qs_runs := Suc (qs_runs ?y), qs_others := active_runs ?y, qs_run := Some ?r\<rparr>)"
    by (intro run_begins [where c = live_ctx]) (simp_all add: run_parent_ctx_def)
  have "call_step work p (p\<lparr>pp_q := ?y\<lparr>qs_q := ?q, qs_runs := Suc (qs_runs ?y), qs_others := active_runs ?y, qs_run := Some ?r\<rparr>, pp_run := RRunning\<rparr>)"
    by (rule run_starts [where r = ?r, OF call step _ none]) simp_all
  then show ?thesis by blast
qed

lemma worker_can_go:
  assumes inv: "program_inv work items w0 p" and main: "pp_main p = MWait" and call: "pp_run p = RRunning"
    and r: "qs_run (pp_q p) = Some r" "run_parent r = live_ctx" and i: "worker_is r i w" "w \<noteq> WExit"
  shows "\<exists>q. call_step work p q"
proof (cases w)
  case (WBusy v)
  obtain w' e where "work (ctx_err (run_ctx r)) v (pp_world p) = (w', e)" by fastforce
  then show ?thesis
    using works [OF call r(1)] i(1) WBusy by blast
next
  case WSelect
  let ?y = "pp_q p"
  have closed: "ch_closed (q_queue (qs_q ?y))"
    using inv main by (auto simp: program_inv_def queue_inv_def lock_inv_def)
  show ?thesis
  proof (cases "ch_buf (q_queue (qs_q ?y))")
    case Nil
    let ?z = "?y\<lparr>qs_run := Some (set_worker i WExit r)\<rparr>"
    have step: "run_step ?y ?z"
      by (rule worker_drained [OF r(1) i(1) [unfolded WSelect]]) (simp add: chan_recv_cases Nil closed)
    have "qs_run ?z \<noteq> qs_run ?y"
      using r(1) set_worker_changes [OF i(1), of WExit] WSelect by simp
    then have "?z \<noteq> ?y"
      by metis
    from runs [OF call step _ this, of "set_worker i WExit r"] show ?thesis
      using r(2) by (force simp: set_worker_def)
  next
    case (Cons v vs)
    let ?q = "(qs_q ?y)\<lparr>q_queue := (q_queue (qs_q ?y))\<lparr>ch_buf := vs\<rparr>\<rparr>"
    let ?z = "?y\<lparr>qs_q := ?q, qs_taken := qs_taken ?y @ [v], qs_run := Some (set_worker i (WBusy v) r)\<rparr>"
    have step: "run_step ?y ?z"
      by (rule worker_takes [OF r(1) i(1) [unfolded WSelect]]) (simp add: chan_recv_cases Cons)
    have "qs_run ?z \<noteq> qs_run ?y"
      using r(1) set_worker_changes [OF i(1), of "WBusy v"] WSelect by simp
    then have "?z \<noteq> ?y"
      by metis
    from runs [OF call step _ this, of "set_worker i (WBusy v) r"] show ?thesis
      using r(2) by (force simp: set_worker_def)
  qed
qed (use i in simp)

lemma call_can_go:
  assumes inv: "program_inv work items w0 p" and main: "pp_main p = MWait" and call: "pp_run p = RRunning"
  shows "\<exists>q. call_step work p q"
proof -
  let ?y = "pp_q p"
  obtain r where r: "qs_run ?y = Some r" "run_parent r = live_ctx"
    using inv call by (auto simp: program_inv_def)
  show ?thesis
  proof (cases "set (run_workers r) \<subseteq> {WExit}")
    case False
    then obtain w where w: "w \<in> set (run_workers r)" "w \<noteq> WExit"
      by blast
    then obtain i where "worker_is r i w"
      by (auto simp: worker_is_def in_set_conv_nth)
    from this w(2) show ?thesis
      by (rule worker_can_go [OF assms r])
  next
    case exited: True
    have free: "qs_mu ?y = []"
      using mu_free [OF inv] inv main by (simp add: program_inv_def)
    show ?thesis
    proof (cases "run_phase r")
      case RunWorking
      let ?z = "?y\<lparr>qs_run := Some (r\<lparr>run_phase := RunChecked\<rparr>)\<rparr>"
      have step: "run_step ?y ?z"
        by (rule run_checks [OF r(1) exited RunWorking]) (simp add: r(2) live_ctx_def)
      have "r\<lparr>run_phase := RunChecked\<rparr> \<noteq> r"
        using RunWorking by (metis qrun.select_convs(6) qrun.surjective qrun.update_convs(6) run_phase.distinct(1))
      then have "qs_run ?z \<noteq> qs_run ?y"
        using r(1) by simp
      then have "?z \<noteq> ?y"
        by metis
      from runs [OF call step _ this, of "r\<lparr>run_phase := RunChecked\<rparr>"] show ?thesis
        using r(2) by force
    next
      case RunChecked
      let ?r = "r\<lparr>run_phase := RunResult (queue_run_result (run_ctx r))\<rparr>"
      let ?z = "?y\<lparr>qs_run := Some ?r\<rparr>"
      have step: "run_step ?y ?z"
        by (rule run_computes [OF r(1) RunChecked])
      have "run_phase ?r \<noteq> run_phase r"
        using RunChecked by simp
      then have "?r \<noteq> r"
        by metis
      then have "qs_run ?z \<noteq> qs_run ?y"
        using r(1) by simp
      then have "?z \<noteq> ?y"
        by metis
      from runs [OF call step _ this, of ?r] show ?thesis
        using r(2) by force
    next
      case (RunResult res)
      have "queue_inv ?y"
        using inv by (simp add: program_inv_def)
      with run_ends [OF r(1) RunResult free] show ?thesis
        using run_returns [OF call, of "run_finish res ?y" res] by (auto simp: queue_inv_alone(2) [OF _ r(1)])
    qed
  qed
qed

lemma program_step_less:
  assumes "whole_inv work workers items w0 p" and "program_step work p q"
  shows "program_left q < program_left p"
  using assms(2)
proof cases
  case producer
  then show ?thesis
    using producer_step_less assms(1) by (auto simp: whole_inv_def)
next
  case call
  then show ?thesis
    by (rule call_step_less [OF assms(1)])
qed

lemma program_can_go:
  assumes "whole_inv work workers items w0 p"
  shows "(\<exists>res. pp_main p = MDone res) \<or> (\<exists>q. program_step work p q)"
proof -
  have inv: "program_inv work items w0 p"
    using assms by (simp add: whole_inv_def)
  show ?thesis
  proof (cases "pp_main p")
    case (MPush vs)
    then show ?thesis
      using push_can_go [OF inv] close_can_go [OF inv] by (cases vs) (blast intro: producer)+
  next
    case MWait
    then show ?thesis
      using call_can_start [OF inv MWait] call_can_go [OF inv MWait]
      by (cases "pp_run p") (blast intro: producer call receives)+
  next
    case MFatal
    then show ?thesis
      using inv by (simp add: program_inv_def)
  qed simp
qed

text \<open>So there is an execution to the end.\<close>

lemma program_can_end:
  "reach (program_new workers items w0) (program_step work) p \<Longrightarrow>
     \<exists>q res. reach (program_new workers items w0) (program_step work) q \<and> pp_main q = MDone res"
proof (induction "program_left p" arbitrary: p rule: less_induct)
  case less
  have inv: "whole_inv work workers items w0 p"
    by (rule program.reach_inv [OF less.prems])
  show ?case
  proof (cases "\<exists>res. pp_main p = MDone res")
    case False
    then obtain q where "program_step work p q"
      using program_can_go [OF inv] by blast
    then show ?thesis
      using less.hyps program_step_less [OF inv] reach_step [OF less.prems] by blast
  qed (use less.prems in blast)
qed

section \<open>Properties\<close>

text \<open>
  C16: A program that pushes a list of items to a queue that can hold them, closes it and waits
  for \<open>Run\<close> loses nothing, for any number of workers and under every interleaving: no push
  is rejected; when it is done, the world is what the handled items made of it one after the
  other; if no worker failed, those are the pushed items, each once, and \<open>Run\<close> returned nil;
  otherwise it returned the first error, or nil if that is the cancellation of a context.
\<close>

theorem queue_program_results:
  assumes "reach (program_new workers items w0) (program_step work) p"
  shows "pp_main p \<noteq> MFatal \<and>
    (\<forall>res. pp_main p = MDone res \<longrightarrow>
       (pp_world p, pp_errs p) = fold (work_one work) (qs_handled (pp_q p)) (w0, []) \<and>
       (case pp_errs p of
          [] \<Rightarrow> mset (qs_handled (pp_q p)) = mset items \<and> res = None
        | e # _ \<Rightarrow> res = (if errors_Is e Canceled then None else Some e)))"
proof -
  have inv: "whole_inv work workers items w0 p"
    by (rule program.reach_inv [OF assms])
  then have "pp_main p \<noteq> MFatal"
    by (auto simp: whole_inv_def program_inv_def)
  then show ?thesis
    using done_facts [OF inv] by (auto simp: errs_result_def split: list.splits)
qed

text \<open>Two numbers, appended to a list.\<close>

definition demo_work :: "(nat, nat list) work" where
  "demo_work err v w = (w @ [v], None)"

lemma demo_new: "program_new workers [3, 4] w0 (program_start 16 workers [3, 4] w0)"
  unfolding program_new_def
  by (rule exI [of _ 16]) (simp add: program_start_def queue_start_def NewQueue_def chan_make_def Let_def)

lemma demo_errs: "snd (fold (work_one demo_work) vs (w, [])) = []"
  by (induction vs arbitrary: w) (simp_all add: work_one_def demo_work_def)

lemma demo_ends:
  "\<exists>p res. reach (program_new workers [3, 4] []) (program_step demo_work) p \<and> pp_main p = MDone res"
  by (rule program_can_end [OF reach_start]) (rule demo_new)

lemma queue_program_results_witness:
  "\<exists>p. reach (program_new 2 [3, 4] []) (program_step demo_work) p \<and> pp_main p = MDone None \<and>
     mset (qs_handled (pp_q p)) = {#3, 4#}"
proof -
  obtain p res where p: "reach (program_new 2 [3, 4] []) (program_step demo_work) p" "pp_main p = MDone res"
    using demo_ends by blast
  then have "pp_errs p = []"
    using queue_program_results [OF p(1)] demo_errs by (metis snd_conv)
  then show ?thesis
    using queue_program_results [OF p(1)] p by (intro exI [of _ p]) (auto simp: add_mset_commute)
qed

text \<open>
  C10: With one worker the program is the sequential one: its effect on the world and its result
  are those of handling the items in the order they were pushed, up to the first that fails.
  In particular events that go through a queue to a dispatcher arrive in order.
\<close>

theorem queue_program_sequential:
  assumes "reach (program_new 1 items w0) (program_step work) p" and "pp_main p = MDone res"
  shows "pp_world p = fst (run_until work items w0) \<and>
    res = (case snd (run_until work items w0) of None \<Rightarrow> None | Some e \<Rightarrow> errs_result [e])"
  by (rule sequential_done [OF program.reach_inv [OF assms(1)] assms(2)])

lemma queue_program_sequential_witness:
  "\<exists>p. reach (program_new 1 [3, 4] []) (program_step demo_work) p \<and> pp_main p = MDone None \<and> pp_world p = [3, 4]"
proof -
  obtain p res where p: "reach (program_new 1 [3, 4] []) (program_step demo_work) p" "pp_main p = MDone res"
    using demo_ends by blast
  show ?thesis
    using queue_program_sequential [OF p] p by (auto simp: demo_work_def)
qed

text \<open>
  C11: The program ends, whatever the scheduler does: no execution is infinite, and in every
  reachable state before the end some step is possible. So every execution that goes on as
  long as it can ends with the main goroutine holding the result of \<open>Run\<close>.
\<close>

theorem queue_program_ends:
  "wf {(q, p). reach (program_new workers items w0) (program_step work) p \<and> program_step work p q} \<and>
   (reach (program_new workers items w0) (program_step work) p \<longrightarrow>
      (\<exists>res. pp_main p = MDone res) \<or> (\<exists>q. program_step work p q))"
proof
  show "wf {(q, p). reach (program_new workers items w0) (program_step work) p \<and> program_step work p q}"
    by (rule wf_subset [OF wf_measure [of program_left]])
      (use program_step_less program.reach_inv in fastforce)
  show "reach (program_new workers items w0) (program_step work) p \<longrightarrow>
      (\<exists>res. pp_main p = MDone res) \<or> (\<exists>q. program_step work p q)"
    by (rule impI, rule program_can_go, rule program.reach_inv)
qed

lemma queue_program_ends_witness:
  "\<exists>q. program_step demo_work (program_start 16 1 [3, 4] []) q"
proof -
  have "reach (program_new 1 [3, 4] []) (program_step demo_work) (program_start 16 1 [3, 4] [])"
    by (rule reach_start) (rule demo_new)
  then have "(\<exists>res. pp_main (program_start 16 1 [3, 4] [] :: (nat, nat list) program) = MDone res) \<or>
      (\<exists>q. program_step demo_work (program_start 16 1 [3, 4] []) q)"
    using queue_program_ends [of 1 "[3, 4]" "[]" demo_work "program_start 16 1 [3, 4] []"] by blast
  then show ?thesis
    by (auto simp: program_start_def)
qed

end
