(* ===== verification/Gx_Example_Tasks.thy ===== *)
theory Gx_Example_Tasks imports Gx_Web_Correct Gx_GoMap begin

text \<open>
  \<open>examples/web/main.go\<close>: the REST API of tasks, with its store, its handlers, its middleware
  and its error handler, mounted on the server of the \<open>web\<close> package. Every handler touches
  the store in one critical section, so requests that overlap act on it in some order, one
  after the other. Decoders, the JSON encoder, the mux, the clock and the order in which
  \<open>range\<close> visits the store are parameters; the last two belong to the moment of a request.
\<close>

section \<open>Data\<close>

record task =
  task_ID :: int
  task_Title :: string
  task_Done :: bool
  task_CreatedAt :: int

record taskAPI =
  nextID :: int
  tasks :: "(int, task) gomap"

definition newTaskAPI :: taskAPI where
  "newTaskAPI = \<lparr>nextID = 1, tasks = gm_make\<rparr>"

text \<open>
  What the handlers share: the API, the counter of the middleware, the time and the order
  of a \<open>range\<close> at the moment of the request.
\<close>

record task_world =
  w_api :: taskAPI
  w_next :: "64 word"
  w_now :: int
  w_order :: "(int \<times> task) list \<Rightarrow> (int \<times> task) list"

definition set_api :: "taskAPI \<Rightarrow> task_world wctx \<Rightarrow> task_world wctx" where
  "set_api a c = c\<lparr>c_app := (c_app c)\<lparr>w_api := a\<rparr>\<rparr>"

text \<open>The members of a task, by the tags of the struct.\<close>

definition task_JSON :: "task \<Rightarrow> json_value" where
  "task_JSON t =
     JObject [(''id'', JNum (task_ID t)), (''title'', JString (task_Title t)),
              (''done'', JBool (task_Done t)), (''createdAt'', JTime (task_CreatedAt t))]"

text \<open>The bodies: \<open>createTaskRequest\<close> has a title, \<open>updateTaskRequest\<close> two pointers.\<close>

type_synonym createTaskRequest = string
type_synonym updateTaskRequest = "string option \<times> bool option"

text \<open>The increment of an \<open>int\<close> wraps.\<close>

definition int_inc :: "int \<Rightarrow> int" where
  "int_inc n = signed_take_bit 63 (n + 1)"

section \<open>Handlers\<close>

definition taskID :: "string \<Rightarrow> web_error + int" where
  "taskID raw =
     (case Atoi raw of
        None \<Rightarrow> Inl (web_Error 400 ''invalid task id'')
      | Some n \<Rightarrow> if n < 1 then Inl (web_Error 400 ''invalid task id'') else Inr n)"

definition api_find :: "string \<Rightarrow> taskAPI \<Rightarrow> web_error + task" where
  "api_find rawID a =
     (case taskID rawID of
        Inl err \<Rightarrow> Inl err
      | Inr n \<Rightarrow>
          (case gm_get (tasks a) n of
             None \<Rightarrow> Inl (web_Error 404 ''task not found'')
           | Some task \<Rightarrow> Inr task))"

text \<open>
  IDs are distinct and positive, short of \<open>2 ^ 63\<close> tasks, so the comparison \<open>a.ID - b.ID\<close> does not
  wrap and every sorting function gives the result of \<open>sort_key\<close>. The map is never nil, so the assignments of \<open>create\<close> and \<open>update\<close> return.
\<close>

definition api_list :: "web_env \<Rightarrow> task_world handler" where
  "api_list E c =
     (let tasks = map snd (w_order (c_app c) (gm_entries (tasks (w_api (c_app c)))));
          tasks = sort_key task_ID tasks
      in c_JSON E (JObject [(''tasks'', JList (map task_JSON tasks))]) [] c)"

definition api_store :: "task \<Rightarrow> taskAPI \<Rightarrow> taskAPI" where
  "api_store task a = a\<lparr>tasks := go_the (tasks a) (gm_assign (task_ID task) task (tasks a))\<rparr>"

definition api_create :: "web_env \<Rightarrow> createTaskRequest decoder \<Rightarrow> task_world handler" where
  "api_create E decode c =
     (case c_Bind decode c of
        (c, Inl err) \<Rightarrow> (c, Some err)
      | (c, Inr title) \<Rightarrow>
          (let title = TrimSpace title
           in if title = [] then (c, Some (web_Error 400 ''title is required''))
              else
                let a = w_api (c_app c);
                    task = \<lparr>task_ID = nextID a, task_Title = title, task_Done = False,
                      task_CreatedAt = w_now (c_app c)\<rparr>;
                    a = api_store task a;
                    a = a\<lparr>nextID := int_inc (nextID a)\<rparr>;
                    c = set_api a c;
                    c = c_put (header_Set ''Location'' (''/tasks/'' @ Itoa (task_ID task)) (c_writer c)) c
                in c_JSON E (task_JSON task) [201] c))"

definition api_get :: "web_env \<Rightarrow> task_world handler" where
  "api_get E c =
     (case api_find (c_PathValue ''id'' c) (w_api (c_app c)) of
        Inl err \<Rightarrow> (c, Some err)
      | Inr task \<Rightarrow> c_JSON E (task_JSON task) [] c)"

text \<open>
  The assignment of \<open>update\<close> is to the ID of the path, under which the task was found.
\<close>

definition api_update :: "web_env \<Rightarrow> updateTaskRequest decoder \<Rightarrow> task_world handler" where
  "api_update E decode c =
     (case taskID (c_PathValue ''id'' c) of
        Inl err \<Rightarrow> (c, Some err)
      | Inr n \<Rightarrow>
          (case c_Bind decode c of
             (c, Inl err) \<Rightarrow> (c, Some err)
           | (c, Inr (title, done)) \<Rightarrow>
               if title = None \<and> done = None then (c, Some (web_Error 400 ''supply title or done''))
               else
                 let a = w_api (c_app c)
                 in case gm_get (tasks a) n of
                      None \<Rightarrow> (c, Some (web_Error 404 ''task not found''))
                    | Some task \<Rightarrow>
                        (let task = (case title of None \<Rightarrow> task | Some t \<Rightarrow> task\<lparr>task_Title := TrimSpace t\<rparr>)
                         in if title \<noteq> None \<and> task_Title task = []
                            then (c, Some (web_Error 400 ''title cannot be empty''))
                            else
                              let task = (case done of None \<Rightarrow> task | Some d \<Rightarrow> task\<lparr>task_Done := d\<rparr>);
                                  a = a\<lparr>tasks := go_the (tasks a) (gm_assign n task (tasks a))\<rparr>;
                                  c = set_api a c
                              in c_JSON E (task_JSON task) [] c)))"

definition api_delete :: "task_world handler" where
  "api_delete c =
     (case taskID (c_PathValue ''id'' c) of
        Inl err \<Rightarrow> (c, Some err)
      | Inr n \<Rightarrow>
          (let a = w_api (c_app c);
               ok = (gm_get (tasks a) n \<noteq> None);
               a = a\<lparr>tasks := gm_delete n (tasks a)\<rparr>;
               c = set_api a c
           in if \<not> ok then (c, Some (web_Error 404 ''task not found''))
              else (c_Status 204 c, None)))"

definition health :: "web_env \<Rightarrow> task_world handler" where
  "health E c = c_JSON E (JObject [(''status'', JString ''ok'')]) [] c"

definition api_mount ::
  "web_env \<Rightarrow> createTaskRequest decoder \<Rightarrow> updateTaskRequest decoder \<Rightarrow> mux_env \<Rightarrow>
   task_world server \<Rightarrow> task_world server go" where
  "api_mount E dc du M s =
     go_bind (server_GET M ''/health'' (health E) [] s) (\<lambda>s.
     go_bind (server_GET M ''/tasks'' (api_list E) [] s) (\<lambda>s.
     go_bind (server_POST M ''/tasks'' (api_create E dc) [] s) (\<lambda>s.
     go_bind (server_GET M ''/tasks/{id}'' (api_get E) [] s) (\<lambda>s.
     go_bind (server_PATCH M ''/tasks/{id}'' (api_update E du) [] s) (\<lambda>s.
     server_DELETE M ''/tasks/{id}'' api_delete [] s)))))"

section \<open>Request IDs and errors\<close>

text \<open>The key is a value of the type \<open>requestIDKey\<close>, named here as the language prints it.\<close>

definition requestIDKey :: string where
  "requestIDKey = ''main.requestIDKey{}''"

definition requestIDMiddleware :: "task_world middleware" where
  "requestIDMiddleware nextHandler c =
     (let next = w_next (c_app c) + 1;
          c = c\<lparr>c_app := (c_app c)\<lparr>w_next := next\<rparr>\<rparr>;
          requestID = ''req-'' @ Itoa (uint next);
          c = c_Set requestIDKey requestID c;
          c = c_put (header_Set ''X-Request-ID'' requestID (c_writer c)) c
      in nextHandler c)"

definition writeError :: "web_env \<Rightarrow> task_world wctx \<Rightarrow> web_error \<Rightarrow> task_world wctx" where
  "writeError E c err =
     (let status = (case web_Status err of Some s \<Rightarrow> s | None \<Rightarrow> 0)
      in fst (c_JSON E
           (JObject [(''error'', JString (web_Error_text err)),
             (''requestId'', case c_Get requestIDKey c of None \<Rightarrow> JNull | Some rid \<Rightarrow> JString rid)]) [status] c))"

section \<open>The program\<close>

definition tasks_options :: options where
  "tasks_options =
     \<lparr>op_Addr = '':8080'', op_CertFile = [], op_CertKeyFile = [], op_IdleTimeout = 60 * second,
      op_Logger = True, op_LogPrefix = ''tasks-api'', op_ErrorHandler = Some 0, op_MaxReadSize = 2 ^ 20,
      op_MaxHeaderBytes = 0, op_MaxHeaderValueCount = 0, op_ReadHeaderTimeout = 3 * second,
      op_ReadTimeout = 5 * second, op_ShutdownTimeout = 6 * second, op_WriteTimeout = 5 * second\<rparr>"

text \<open>\<open>writeError\<close> is the error handler the options name.\<close>

definition task_errors :: "web_env \<Rightarrow> task_world error_handlers" where
  "task_errors E k = writeError E"

definition tasks_server ::
  "web_env \<Rightarrow> createTaskRequest decoder \<Rightarrow> updateTaskRequest decoder \<Rightarrow> mux_env \<Rightarrow> task_world server go" where
  "tasks_server E dc du M =
     (let server = NewServer tasks_options;
          server = server_Use [requestIDMiddleware] server
      in api_mount E dc du M server)"

text \<open>
  The end of \<open>main\<close>. \<open>Inl\<close> is the result of \<open>Start\<close> when it comes first, \<open>Inr\<close> a signal;
  \<open>listen\<close> is the error with which listening ends once the server is stopped.
\<close>

definition tasks_end ::
  "(int \<Rightarrow> web_error option) \<Rightarrow> web_error option \<Rightarrow> web_error option + unit \<Rightarrow> 'w server \<Rightarrow>
   'w server \<times> log_entry list" where
  "tasks_end shutdown listen event s =
     (case event of
        Inl err \<Rightarrow>
          (s, case err of None \<Rightarrow> [] | Some e \<Rightarrow> [(LevelError, ''server failed'', Some (web_Error_text e))])
      | Inr signal \<Rightarrow>
          (let log = [(LevelInfo, ''shutdown requested'', None)];
               (s, err) = server_Stop shutdown s;
               log = log @ (case err of None \<Rightarrow> []
                 | Some e \<Rightarrow> [(LevelError, ''graceful shutdown failed'', Some (web_Error_text e))]);
               err = server_Start_end listen s
           in (s, log @ (case err of None \<Rightarrow> []
                 | Some e \<Rightarrow> [(LevelError, ''server stopped with an error'', Some (web_Error_text e))]))))"

text \<open>
  A signal to a server that stops in time leaves one entry: listening ends with
  \<open>ErrServerClosed\<close>, which \<open>Start\<close> reports as success. A server that is closed by anything
  else than \<open>Stop\<close> is reported.
\<close>

lemma tasks_end_graceful:
  "shutdown (op_ShutdownTimeout (s_opts s)) = None \<Longrightarrow>
     snd (tasks_end shutdown (Some ErrServerClosed) (Inr ()) s) = [(LevelInfo, ''shutdown requested'', None)]"
  by (simp add: tasks_end_def server_Stop_def server_Start_end_def errors_AsType.simps logInfo_def Let_def)

lemma tasks_end_failed:
  "\<not> s_stopping s \<Longrightarrow>
     snd (tasks_end shutdown listen (Inl (server_Start_end (Some e) s)) s) =
       [(LevelError, ''server failed'', Some (web_Error_text e))]"
  by (simp add: tasks_end_def server_Start_end_def)

end
