(* ===== verification/Gx_Example_Tasks_Spec.thy ===== *)
theory Gx_Example_Tasks_Spec imports Gx_Example_Tasks begin

text \<open>
  What the task API of \<open>Gx_Example_Tasks\<close> promises, without contexts, writers, middleware or
  the mux: a partial map of tasks and what every call answers. Every handler meets it.
\<close>

section \<open>The specification\<close>

record task_store =
  st_next :: int
  st_tasks :: "int \<rightharpoonup> task"

text \<open>A call has the values of its path and its body as bound: a value, or a status with a text.\<close>

datatype call =
    CHealth
  | CList
  | CCreate "(int \<times> string) + createTaskRequest"
  | CGet string
  | CUpdate string "(int \<times> string) + updateTaskRequest"
  | CDelete string

text \<open>\<open>Done\<close> has the status, the location and the document of a response.\<close>

datatype reply = Done int "string option" "json_value option" | Fail int string

definition valid_id :: "string \<Rightarrow> int option" where
  "valid_id raw = (case Atoi raw of None \<Rightarrow> None | Some n \<Rightarrow> if 1 \<le> n then Some n else None)"

definition with_task :: "string \<Rightarrow> task_store \<Rightarrow> (int \<Rightarrow> task \<Rightarrow> task_store \<times> reply) \<Rightarrow> task_store \<times> reply" where
  "with_task raw st f =
     (case valid_id raw of
        None \<Rightarrow> (st, Fail 400 ''invalid task id'')
      | Some n \<Rightarrow> (case st_tasks st n of None \<Rightarrow> (st, Fail 404 ''task not found'') | Some t \<Rightarrow> f n t))"

definition all_tasks :: "task_store \<Rightarrow> task list" where
  "all_tasks st = map (\<lambda>n. the (st_tasks st n)) (sorted_list_of_set (dom (st_tasks st)))"

fun api_spec :: "call \<Rightarrow> int \<Rightarrow> task_store \<Rightarrow> task_store \<times> reply" where
  "api_spec CHealth now st = (st, Done 200 None (Some (JObject [(''status'', JString ''ok'')])))"
| "api_spec CList now st =
     (st, Done 200 None (Some (JObject [(''tasks'', JList (map task_JSON (all_tasks st)))])))"
| "api_spec (CCreate (Inl (s, t))) now st = (st, Fail s t)"
| "api_spec (CCreate (Inr title)) now st =
     (if TrimSpace title = [] then (st, Fail 400 ''title is required'')
      else
        let t = \<lparr>task_ID = st_next st, task_Title = TrimSpace title, task_Done = False, task_CreatedAt = now\<rparr>
        in (\<lparr>st_next = int_inc (st_next st), st_tasks = (st_tasks st)(st_next st \<mapsto> t)\<rparr>,
            Done 201 (Some (''/tasks/'' @ Itoa (st_next st))) (Some (task_JSON t))))"
| "api_spec (CGet raw) now st = with_task raw st (\<lambda>n t. (st, Done 200 None (Some (task_JSON t))))"
| "api_spec (CUpdate raw b) now st =
     (if valid_id raw = None then (st, Fail 400 ''invalid task id'')
      else case b of
        Inl (s, t) \<Rightarrow> (st, Fail s t)
      | Inr (None, None) \<Rightarrow> (st, Fail 400 ''supply title or done'')
      | Inr (title, done) \<Rightarrow>
          with_task raw st (\<lambda>n t.
            if map_option TrimSpace title = Some [] then (st, Fail 400 ''title cannot be empty'')
            else
              let t = t\<lparr>task_Title := (case title of None \<Rightarrow> task_Title t | Some x \<Rightarrow> TrimSpace x),
                        task_Done := (case done of None \<Rightarrow> task_Done t | Some d \<Rightarrow> d)\<rparr>
              in (st\<lparr>st_tasks := (st_tasks st)(n \<mapsto> t)\<rparr>, Done 200 None (Some (task_JSON t)))))"
| "api_spec (CDelete raw) now st =
     with_task raw st (\<lambda>n t. (st\<lparr>st_tasks := (st_tasks st)(n := None)\<rparr>, Done 204 None None))"

text \<open>The first store, and the store an API holds.\<close>

definition empty_store :: task_store where
  "empty_store = \<lparr>st_next = 1, st_tasks = Map.empty\<rparr>"

definition abs_api :: "taskAPI \<Rightarrow> task_store" where
  "abs_api a = \<lparr>st_next = nextID a, st_tasks = gm_get (tasks a)\<rparr>"

text \<open>What binding a body comes to, by \<open>web_bind_outcomes\<close>, and the call a route stands for.\<close>

definition bound :: "'v decoder \<Rightarrow> request \<Rightarrow> (int \<times> string) + 'v" where
  "bound decode r =
     (if \<not> json_media (ToLower (TrimSpace (rq_ContentType r)))
      then Inl (400, ''invalid content type, expected application/json'')
      else case fst (decode (MaxBytesReader (2 ^ 20) (rq_Body r))) of
             Inr v \<Rightarrow> Inr v
           | Inl e \<Rightarrow> Inl (if errors_AsType is_MaxBytesError e \<noteq> None then (413, web_Error_text e)
                          else (400, ''invalid json body'')))"

definition path_id :: "(string \<times> string) list \<Rightarrow> string" where
  "path_id ps = (case map_of ps ''id'' of None \<Rightarrow> [] | Some v \<Rightarrow> v)"

definition task_routes :: "string list" where
  "task_routes = [''GET /health'', ''GET /tasks'', ''POST /tasks'', ''GET /tasks/{id}'',
     ''PATCH /tasks/{id}'', ''DELETE /tasks/{id}'']"

definition call_of ::
  "createTaskRequest decoder \<Rightarrow> updateTaskRequest decoder \<Rightarrow> string \<Rightarrow> (string \<times> string) list \<Rightarrow> request \<Rightarrow> call"
where
  "call_of dc du p ps r =
     (if p = ''GET /health'' then CHealth
      else if p = ''GET /tasks'' then CList
      else if p = ''POST /tasks'' then CCreate (bound dc r)
      else if p = ''GET /tasks/{id}'' then CGet (path_id ps)
      else if p = ''PATCH /tasks/{id}'' then CUpdate (path_id ps) (bound du r)
      else CDelete (path_id ps))"

text \<open>
  The head and the body of the response to the request with number \<open>rid\<close>. \<open>enc\<close> is what the
  encoder makes of a value.
\<close>

definition reply_head :: "header \<Rightarrow> reply \<Rightarrow> int \<times> header" where
  "reply_head h rep =
     (case rep of
        Done s loc body \<Rightarrow>
          (s, let h = (case loc of None \<Rightarrow> h | Some l \<Rightarrow> h(''Location'' \<mapsto> l))
              in if body = None then h else h(''Content-Type'' \<mapsto> ''application/json''))
      | Fail s t \<Rightarrow> (s, h(''Content-Type'' \<mapsto> ''application/json'')))"

definition reply_body :: "(json_value \<Rightarrow> string) \<Rightarrow> string \<Rightarrow> reply \<Rightarrow> string" where
  "reply_body enc rid rep =
     (case rep of
        Done s loc None \<Rightarrow> []
      | Done s loc (Some v) \<Rightarrow> enc v
      | Fail s t \<Rightarrow> enc (JObject [(''error'', JString t), (''requestId'', JString rid)]))"

section \<open>Handlers\<close>

text \<open>A writer with nothing sent, and what a handler leaves.\<close>

definition fresh :: "responseWriter \<Rightarrow> bool" where
  "fresh w \<longleftrightarrow> rw_ok w \<and> \<not> headerWritten w \<and> sent_body (rw_calls w) = []"

definition untouched :: "'w wctx \<Rightarrow> 'w wctx \<Rightarrow> bool" where
  "untouched c c' \<longleftrightarrow> fresh (c_writer c') \<and> rw_header (c_writer c') = rw_header (c_writer c) \<and>
     c_values c' = c_values c \<and> c_opts c' = c_opts c \<and> c_Request c' = c_Request c"

definition status_error :: "web_error \<Rightarrow> int \<Rightarrow> string \<Rightarrow> bool" where
  "status_error e s t \<longleftrightarrow> as_status_error e = e \<and> web_Status e = Some s \<and> web_Error_text e = t"

definition answers :: "(json_value \<Rightarrow> string) \<Rightarrow> 'w wctx \<Rightarrow> 'w wctx \<times> web_error option \<Rightarrow> reply \<Rightarrow> bool" where
  "answers enc c out rep \<longleftrightarrow>
     (case rep of
        Done s loc body \<Rightarrow>
          headerWritten (c_writer (fst out)) \<and>
          sent_head (rw_calls (c_writer (fst out))) = Some (reply_head (rw_header (c_writer c)) rep) \<and>
          sent_body (rw_calls (c_writer (fst out))) = reply_body enc [] rep
      | Fail s t \<Rightarrow> untouched c (fst out) \<and> (\<exists>e. snd out = Some e \<and> status_error e s t))"

lemma web_Error_status [simp]: "status_error (web_Error s t) s' t' \<longleftrightarrow> s = s' \<and> t = t'"
  by (auto simp: status_error_def web_Error_def as_status_error_def)

lemma fresh_no_head: "fresh w \<Longrightarrow> sent_head (rw_calls w) = None"
  by (simp add: fresh_def rw_ok_no_head)

lemma fresh_Set [simp]: "fresh (header_Set k v w) = fresh w"
  by (simp add: fresh_def rw_ok_def header_Set_def)

text \<open>The first \<open>WriteHeader\<close> and the first \<open>Write\<close> of a fresh writer.\<close>

lemma fresh_WriteHeader:
  assumes "fresh w" and "200 \<le> s"
  shows "headerWritten (rw_WriteHeader s w)" "sent_head (rw_calls (rw_WriteHeader s w)) = Some (s, rw_header w)"
    "sent_body (rw_calls (rw_WriteHeader s w)) = []"
  using assms fresh_no_head [OF assms(1)]
  by (simp_all add: fresh_def rw_defs sent_head_append informational_def)

lemma Write_body [simp]: "sent_body (rw_calls (fst (rw_Write u b w))) = sent_body (rw_calls w) @ b"
  by (simp add: rw_defs)

lemma started_Write:
  "headerWritten w \<Longrightarrow> sent_head (rw_calls w) = Some r \<Longrightarrow>
     headerWritten (fst (rw_Write u b w)) \<and> sent_head (rw_calls (fst (rw_Write u b w))) = Some r"
  by (simp add: rw_defs sent_head_append)

lemma fresh_Write:
  "fresh w \<Longrightarrow> headerWritten (fst (rw_Write u b w)) \<and>
     sent_head (rw_calls (fst (rw_Write u b w))) = Some (200, rw_header w)"
  using fresh_no_head [of w] by (simp add: fresh_def rw_defs sent_head_append informational_def)

lemma c_writer_Write [simp]: "c_writer (fst (c_Write E b c)) = fst (rw_Write (we_writer E) b (c_writer c))"
  by (simp add: c_Write_def split: prod.split)

lemma header_Set_sel [simp]: "rw_header (header_Set k v w) = (rw_header w)(k \<mapsto> v)"
  by (simp add: header_Set_def)

lemma JSON_Done:
  assumes "fresh (c_writer c)" and "we_Marshal E (''pretty'' \<in> set (rq_query (c_Request c))) v = Inr d"
    and "list_all (\<lambda>s. 200 \<le> s) st"
  shows "headerWritten (c_writer (fst (c_JSON E v st c))) \<and>
    sent_head (rw_calls (c_writer (fst (c_JSON E v st c)))) =
      Some (if st = [] then 200 else hd st, (rw_header (c_writer c))(''Content-Type'' \<mapsto> ''application/json'')) \<and>
    sent_body (rw_calls (c_writer (fst (c_JSON E v st c)))) = d"
proof -
  let ?w = "header_Set ''Content-Type'' ''application/json'' (c_writer c)"
  have w: "fresh ?w" "rw_header ?w = (rw_header (c_writer c))(''Content-Type'' \<mapsto> ''application/json'')"
    by (simp_all add: assms(1))
  have "sent_body (rw_calls ?w) = []"
    using w(1) by (simp add: fresh_def)
  then show ?thesis
    using assms(2,3) w fresh_Write [OF w(1), of "we_writer E" d]
      fresh_WriteHeader [OF w(1), of "hd st"]
      started_Write [OF fresh_WriteHeader(1,2) [OF w(1), of "hd st"], of "we_writer E" d]
    by (cases st) (simp_all add: c_JSON_def c_opt_Status_def c_Status_def Let_def)
qed

lemma c_put_app [simp]: "c_app (c_put w c) = c_app c"
  by (simp add: c_put_def)

lemma c_put_sel [simp]: "c_Request (c_put w c) = c_Request c" "c_values (c_put w c) = c_values c" "c_opts (c_put w c) = c_opts c"
  by (simp_all add: c_put_def)

lemma c_Set_sel [simp]:
  "c_writer (c_Set k v c) = c_writer c" "c_app (c_Set k v c) = c_app c" "c_opts (c_Set k v c) = c_opts c"
  "c_Request (c_Set k v c) = (c_Request c)\<lparr>rq_values := (k, v) # c_values c\<rparr>"
  by (simp_all add: c_Set_def Let_def)

lemma c_Write_app [simp]: "c_app (fst (c_Write E b c)) = c_app c"
  by (simp add: c_Write_def split: prod.split)

lemma JSON_app [simp]: "c_app (fst (c_JSON E v st c)) = c_app c"
proof (cases "we_Marshal E (''pretty'' \<in> set (rq_query (c_Request c))) v")
  case (Inr d)
  then show ?thesis
    by (simp add: c_JSON_def Let_def) (simp add: c_opt_Status_def c_Status_def)
qed (simp add: c_JSON_def)

lemma fresh_too_large:
  assumes "fresh w"
  shows "fresh (rw_call CTooLarge w)"
  using assms fresh_no_head [OF assms]
  by (simp add: fresh_def rw_ok_def rw_call_def sent_head_append no_superfluous_append)

lemma Bind_bound:
  assumes "fresh (c_writer c)" and "co_maxReadSize (c_opts c) = 2 ^ 20"
  shows "let (c', res) = c_Bind decode c
    in untouched c c' \<and> c_app c' = c_app c \<and>
       (case bound decode (c_Request c) of
          Inr v \<Rightarrow> res = Inr v
        | Inl (s, t) \<Rightarrow> \<exists>e. res = Inl e \<and> status_error e s t)"
proof (cases "json_content_type (rq_ContentType (c_Request c))")
  case False
  then show ?thesis
    using assms by (simp add: c_Bind_def c_bind_def bound_def json_content_type_iff untouched_def)
next
  case True
  let ?b = "MaxBytesReader (2 ^ 20) (rq_Body (c_Request c))"
  obtain res at_end where d: "decode ?b = (res, at_end)" by fastforce
  have large: "status_error (statusError e 413) 413 (web_Error_text e)" for e
    by (simp add: status_error_def as_status_error_def)
  show ?thesis
    using True assms d large fresh_too_large [OF assms(1)]
    by (cases res)
      (simp_all add: c_Bind_def c_bind_def bound_def json_content_type_iff untouched_def Let_def c_put_def rw_call_def)
qed

text \<open>
  A handler meets the specification at a context: it answers as specified, leaves the store
  specified and touches nothing else of the shared state.
\<close>

definition api_wf :: "taskAPI \<Rightarrow> bool" where
  "api_wf a \<longleftrightarrow> gm_inv (tasks a) \<and> (\<forall>n t. gm_get (tasks a) n = Some t \<longrightarrow> task_ID t = n)"

definition ready :: "web_env \<Rightarrow> (json_value \<Rightarrow> string) \<Rightarrow> task_world wctx \<Rightarrow> bool" where
  "ready E enc c \<longleftrightarrow>
     fresh (c_writer c) \<and> co_maxReadSize (c_opts c) = 2 ^ 20 \<and>
     (\<forall>v. we_Marshal E (''pretty'' \<in> set (rq_query (c_Request c))) v = Inr (enc v)) \<and>
     api_wf (w_api (c_app c)) \<and> range_order (w_order (c_app c))"

definition handles ::
  "(json_value \<Rightarrow> string) \<Rightarrow> task_world wctx \<times> web_error option \<Rightarrow> task_world wctx \<Rightarrow> call \<Rightarrow> bool" where
  "handles enc out c call \<longleftrightarrow>
     (let (st, rep) = api_spec call (w_now (c_app c)) (abs_api (w_api (c_app c)))
      in answers enc c out rep \<and> abs_api (w_api (c_app (fst out))) = st \<and>
         api_wf (w_api (c_app (fst out))) \<and> w_next (c_app (fst out)) = w_next (c_app c))"

lemma abs_sel [simp]: "st_next (abs_api a) = nextID a" "st_tasks (abs_api a) = gm_get (tasks a)"
  by (simp_all add: abs_api_def)

lemma set_api_sel [simp]:
  "c_writer (set_api a c) = c_writer c" "c_app (set_api a c) = (c_app c)\<lparr>w_api := a\<rparr>"
  "c_Request (set_api a c) = c_Request c" "c_values (set_api a c) = c_values c" "c_opts (set_api a c) = c_opts c"
  by (simp_all add: set_api_def)

lemma untouched_refl: "fresh (c_writer c) \<Longrightarrow> untouched c c"
  by (simp add: untouched_def)

lemma handles_fail:
  assumes "api_spec call (w_now (c_app c)) (abs_api (w_api (c_app c))) = (abs_api (w_api (c_app c)), Fail s t)"
    and "status_error e s t" and "untouched c c'" and "c_app c' = c_app c" and "ready E enc c"
  shows "handles enc (c', Some e) c call"
  using assms by (simp add: handles_def answers_def ready_def)

text \<open>A document as the answer, with or without a location, from a context with a changed store.\<close>

lemma handles_JSON:
  assumes "api_spec call (w_now (c_app c)) (abs_api (w_api (c_app c))) =
      (abs_api (w_api (c_app c')), Done (if st = [] then 200 else hd st) loc (Some v))"
    and "ready E enc c" and "c_Request c' = c_Request c" and "fresh (c_writer c')"
    and "rw_header (c_writer c') =
      (case loc of None \<Rightarrow> rw_header (c_writer c) | Some l \<Rightarrow> (rw_header (c_writer c))(''Location'' \<mapsto> l))"
    and "list_all (\<lambda>s. 200 \<le> s) st" and "api_wf (w_api (c_app c'))" and "w_next (c_app c') = w_next (c_app c)"
  shows "handles enc (c_JSON E v st c') c call"
proof -
  have "we_Marshal E (''pretty'' \<in> set (rq_query (c_Request c'))) v = Inr (enc v)"
    using assms(2,3) by (simp add: ready_def)
  from JSON_Done [OF assms(4) this assms(6)] show ?thesis
    using assms by (simp add: handles_def answers_def reply_head_def reply_body_def split: option.splits)
qed

lemma handles_health: "ready E enc c \<Longrightarrow> handles enc (health E c) c CHealth"
  unfolding health_def by (rule handles_JSON [where loc = None]) (auto simp: ready_def)

text \<open>The tasks sorted by ID, whatever the order in which the map is visited.\<close>

lemma sort_tasks:
  assumes "api_wf a" and "range_order ord"
  shows "sort_key task_ID (map snd (ord (gm_entries (tasks a)))) = all_tasks (abs_api a)"
proof -
  let ?ts = "map snd (ord (gm_entries (tasks a)))" and ?m = "gm_get (tasks a)"
  have ord: "mset (ord (gm_entries (tasks a))) = mset (gm_entries (tasks a))"
    using assms(2) by (simp add: range_order_def)
  have inv: "gm_inv (tasks a)"
    using assms(1) by (simp add: api_wf_def)
  have ids: "task_ID (snd e) = fst e \<and> ?m (fst e) = Some (snd e)" if "e \<in> set (ord (gm_entries (tasks a)))" for e
    using that assms(1) gm_get_iff [OF inv] ord by (metis api_wf_def mset_eq_setD prod.collapse)
  have keys: "map task_ID ?ts = map fst (ord (gm_entries (tasks a)))"
    using ids by simp
  have dist: "distinct (map task_ID ?ts)"
    unfolding keys using inv ord by (metis gm_inv_def mset_eq_imp_distinct_iff mset_map)
  have dom: "set (map task_ID ?ts) = dom ?m"
    unfolding keys gm_dom using ord by (metis list.set_map mset_eq_setD)
  have "map task_ID (sort_key task_ID ?ts) = sorted_list_of_set (dom ?m)"
  proof (rule sorted_distinct_set_unique)
    have "mset (map task_ID (sort_key task_ID ?ts)) = mset (map task_ID ?ts)"
      by (simp only: mset_map mset_sort)
    then show "distinct (map task_ID (sort_key task_ID ?ts))"
      "set (map task_ID (sort_key task_ID ?ts)) = set (sorted_list_of_set (dom ?m))"
      using dist dom by (metis mset_eq_imp_distinct_iff, metis List.finite_set mset_eq_setD set_sorted_list_of_set)
  qed simp_all
  then have "all_tasks (abs_api a) = map (\<lambda>t. the (?m (task_ID t))) (sort_key task_ID ?ts)"
    by (simp add: all_tasks_def comp_def flip: \<open>map task_ID (sort_key task_ID ?ts) = _\<close>)
  also have "\<dots> = sort_key task_ID ?ts"
    by (rule map_idI) (use ids in auto)
  finally show ?thesis ..
qed

lemma handles_list:
  assumes "ready E enc c"
  shows "handles enc (api_list E c) c CList"
  using assms sort_tasks [of "w_api (c_app c)" "w_order (c_app c)"] unfolding api_list_def Let_def
  by (intro handles_JSON [where loc = None]) (auto simp: ready_def)

lemma api_put_ok:
  assumes "api_wf a" and "task_ID t = n"
  shows "gm_inv (go_the (tasks a) (gm_assign n t (tasks a)))"
    "gm_get (go_the (tasks a) (gm_assign n t (tasks a))) = (gm_get (tasks a))(n \<mapsto> t)"
    "api_wf (a\<lparr>tasks := go_the (tasks a) (gm_assign n t (tasks a)), nextID := m\<rparr>)"
    "api_wf (a\<lparr>tasks := go_the (tasks a) (gm_assign n t (tasks a))\<rparr>)"
  by (rule gm_assign_ok [of "tasks a" n t]; use assms in \<open>auto simp: api_wf_def\<close>)+

text \<open>Answers that leave the store alone.\<close>

lemma handles_early:
  assumes "api_spec call (w_now (c_app c)) (abs_api (w_api (c_app c))) = (abs_api (w_api (c_app c)), Fail s t)"
    and "ready E enc c"
  shows "handles enc (c, Some (web_Error s t)) c call"
  using assms by (intro handles_fail [where s = s and t = t]) (auto simp: ready_def intro: untouched_refl)

lemma Bind_cases:
  assumes "ready E enc c"
  obtains (fails) c' e s t where "c_Bind decode c = (c', Inl e)" "bound decode (c_Request c) = Inl (s, t)"
      "status_error e s t" "untouched c c'" "c_app c' = c_app c"
    | (binds) c' v where "c_Bind decode c = (c', Inr v)" "bound decode (c_Request c) = Inr v"
      "untouched c c'" "c_app c' = c_app c"
  using Bind_bound [of c decode] assms
  by (cases "c_Bind decode c"; cases "bound decode (c_Request c)") (auto simp: ready_def Let_def)

lemma handles_create:
  assumes r: "ready E enc c"
  shows "handles enc (api_create E decode c) c (CCreate (bound decode (c_Request c)))"
  using r
proof (cases rule: Bind_cases [where decode = decode, consumes 1, case_names fails binds])
  case (fails c' e s t)
  then show ?thesis
    using r by (simp add: api_create_def) (rule handles_fail; simp)
next
  case (binds c' title)
  show ?thesis
  proof (cases "TrimSpace title = []")
    case True
    then show ?thesis
      using binds r by (simp add: api_create_def) (rule handles_fail; simp)
  next
    case False
    let ?a = "w_api (c_app c)"
    let ?t = "\<lparr>task_ID = nextID ?a, task_Title = TrimSpace title, task_Done = False, task_CreatedAt = w_now (c_app c)\<rparr>"
    have wf: "api_wf ?a"
      using r by (simp add: ready_def)
    note put = api_put_ok [of ?a ?t "nextID ?a", OF wf, simplified]
    show ?thesis
      using False binds r put
      by (simp add: api_create_def Let_def)
        (rule handles_JSON [where loc = "Some (''/tasks/'' @ Itoa (nextID ?a))"];
         simp add: api_store_def abs_api_def ready_def untouched_def Let_def)
  qed
qed

lemma taskID_valid:
  "taskID raw = (case valid_id raw of None \<Rightarrow> Inl (web_Error 400 ''invalid task id'') | Some n \<Rightarrow> Inr n)"
  by (simp add: taskID_def valid_id_def split: option.split)

lemma PathValue_id: "c_PathValue ''id'' c = path_id (rq_path (c_Request c))"
  by (simp add: c_PathValue_def path_id_def)

lemma handles_get:
  assumes "ready E enc c"
  shows "handles enc (api_get E c) c (CGet (path_id (rq_path (c_Request c))))"
proof (cases "valid_id (path_id (rq_path (c_Request c)))")
  case None
  then show ?thesis
    using assms by (simp add: api_get_def api_find_def taskID_valid PathValue_id)
      (rule handles_early; simp add: with_task_def)
next
  case (Some n)
  then show ?thesis
  proof (cases "gm_get (tasks (w_api (c_app c))) n")
    case None
    then show ?thesis
      using assms Some by (simp add: api_get_def api_find_def taskID_valid PathValue_id)
        (rule handles_early; simp add: with_task_def)
  next
    case (Some t)
    with \<open>valid_id _ = _\<close> show ?thesis
      using assms by (simp add: api_get_def api_find_def taskID_valid PathValue_id)
        (rule handles_JSON [where loc = None]; simp add: with_task_def ready_def)
  qed
qed

lemma handles_delete:
  assumes "ready E enc c"
  shows "handles enc (api_delete c) c (CDelete (path_id (rq_path (c_Request c))))"
proof (cases "valid_id (path_id (rq_path (c_Request c)))")
  case None
  then show ?thesis
    using assms by (simp add: api_delete_def taskID_valid PathValue_id)
      (rule handles_early; simp add: with_task_def)
next
  case (Some n)
  let ?a = "w_api (c_app c)"
  let ?c = "set_api (?a\<lparr>tasks := gm_delete n (tasks ?a)\<rparr>) c"
  have wf: "api_wf ?a" and fr: "fresh (c_writer c)"
    using assms by (simp_all add: ready_def)
  have wf': "api_wf (?a\<lparr>tasks := gm_delete n (tasks ?a)\<rparr>)"
    using wf by (simp add: api_wf_def)
  show ?thesis
  proof (cases "gm_get (tasks ?a) n")
    case None
    have same: "abs_api (?a\<lparr>tasks := gm_delete n (tasks ?a)\<rparr>) = abs_api ?a"
      using None wf by (simp add: abs_api_def api_wf_def fun_upd_idem)
    have "untouched c ?c"
      using fr by (simp add: untouched_def)
    then show ?thesis
      using None Some wf' same
      by (simp add: api_delete_def taskID_valid PathValue_id handles_def answers_def with_task_def Let_def)
  next
    case (Some t)
    with \<open>valid_id _ = _\<close> show ?thesis
      using wf wf' fresh_WriteHeader [OF fr, of 204]
      by (simp add: api_delete_def taskID_valid PathValue_id handles_def answers_def with_task_def Let_def
          c_Status_def reply_head_def reply_body_def abs_api_def api_wf_def)
  qed
qed

lemma handles_update:
  assumes r: "ready E enc c"
  shows "handles enc (api_update E decode c) c
    (CUpdate (path_id (rq_path (c_Request c))) (bound decode (c_Request c)))"
proof (cases "valid_id (path_id (rq_path (c_Request c)))")
  case None
  then show ?thesis
    using r by (simp add: api_update_def taskID_valid PathValue_id) (rule handles_early; simp)
next
  case (Some n)
  note id = this
  show ?thesis
    using r
  proof (cases rule: Bind_cases [where decode = decode, consumes 1, case_names fails binds])
    case (fails c' e s t)
    then show ?thesis
      using r id by (simp add: api_update_def taskID_valid PathValue_id) (rule handles_fail; simp)
  next
    case (binds c' v)
    obtain title dn where v: "v = (title, dn)" by fastforce
    note facts = binds r id v
    let ?a = "w_api (c_app c)"
    consider (empty) "title = None" "dn = None"
      | (missing) "\<not> (title = None \<and> dn = None)" "gm_get (tasks ?a) n = None"
      | (blank) t where "map_option TrimSpace title = Some []" "gm_get (tasks ?a) n = Some t"
      | (ok) t where "\<not> (title = None \<and> dn = None)" "map_option TrimSpace title \<noteq> Some []"
          "gm_get (tasks ?a) n = Some t"
      by fastforce
    then show ?thesis
    proof cases
      case empty
      then show ?thesis
        using facts by (simp add: api_update_def taskID_valid PathValue_id) (rule handles_fail; simp)
    next
      case missing
      then show ?thesis
        using facts by (cases title; cases dn)
          (simp add: api_update_def taskID_valid PathValue_id Let_def, (rule handles_fail; simp add: with_task_def)?)+
    next
      case blank
      then show ?thesis
        using facts by (cases dn) (auto simp: api_update_def taskID_valid PathValue_id Let_def,
            (rule handles_fail; simp add: with_task_def)+)
    next
      case ok
      let ?t = "t\<lparr>task_Title := (case title of None \<Rightarrow> task_Title t | Some x \<Rightarrow> TrimSpace x),
                  task_Done := (case dn of None \<Rightarrow> task_Done t | Some d \<Rightarrow> d)\<rparr>"
      let ?a' = "?a\<lparr>tasks := go_the (tasks ?a) (gm_assign n ?t (tasks ?a))\<rparr>"
      have wf: "api_wf ?a"
        using r by (simp add: ready_def)
      then have "task_ID ?t = n"
        using ok(3) by (simp add: api_wf_def)
      note put = api_put_ok [OF wf this]
      have out: "api_update E decode c = c_JSON E (task_JSON ?t) [] (set_api ?a' c')"
        using ok facts by (cases title; cases dn)
          (simp_all add: api_update_def taskID_valid PathValue_id Let_def)
      have spec: "api_spec (CUpdate (path_id (rq_path (c_Request c))) (bound decode (c_Request c)))
          (w_now (c_app c)) (abs_api ?a) = (abs_api ?a', Done 200 None (Some (task_JSON ?t)))"
        using ok facts put(2) by (cases title; cases dn) (simp_all add: with_task_def abs_api_def Let_def)
      show ?thesis
        unfolding out
        by (rule handles_JSON [where loc = None, OF _ r])
          (use binds spec put in \<open>simp_all add: untouched_def\<close>)
    qed
  qed
qed

end
