(* ===== verification/Gx_Example_Tasks_Correct.thy ===== *)
theory Gx_Example_Tasks_Correct imports Gx_Example_Tasks_Spec begin

text \<open>
  The server of \<open>examples/web/main.go\<close> answers every sequence of requests to its routes as the
  specification of \<open>Gx_Example_Tasks_Spec\<close> does, and the specification keeps its tasks well
  formed and never gives an ID twice.
\<close>

section \<open>Through the server\<close>

definition route_handler ::
  "web_env \<Rightarrow> createTaskRequest decoder \<Rightarrow> updateTaskRequest decoder \<Rightarrow> string \<Rightarrow> task_world handler option" where
  "route_handler E dc du =
     map_of (zip task_routes [health E, api_list E, api_create E dc, api_get E, api_update E du, api_delete])"

lemma handles_route:
  assumes "ready E enc c" and "p \<in> set task_routes"
  shows "\<exists>h. route_handler E dc du p = Some h \<and>
    handles enc (h c) c (call_of dc du p (rq_path (c_Request c)) (c_Request c))"
  using assms(2) handles_health [OF assms(1)] handles_list [OF assms(1)] handles_create [OF assms(1), of dc]
    handles_get [OF assms(1)] handles_update [OF assms(1), of du] handles_delete [OF assms(1)]
  by (auto simp: route_handler_def task_routes_def call_of_def)

lemma call_fails:
  assumes "api_spec (call_of dc du p ps r) now st = (st', Fail s t)"
  shows "200 \<le> s"
proof -
  have bound: "200 \<le> s" if "bound decode r = Inl (s, t)" for decode :: "'v decoder" and s t
    using that by (auto simp: bound_def split: if_splits sum.splits)
  show ?thesis
    using assms
    by (auto simp: call_of_def with_task_def Let_def dest!: bound split: if_splits option.splits sum.splits prod.splits)
      (cases "bound dc r"; auto dest!: bound simp: Let_def split: if_splits prod.splits)
qed

lemma log_app [simp]: "c_app (logError s e c) = c_app c" "c_values (logError s e c) = c_values c"
    "c_app (logRequest c) = c_app c" "c_values (logRequest c) = c_values c" "c_opts (logRequest c) = c_opts c"
    "c_Request (logRequest c) = c_Request c"
  by (simp_all add: logError_def logRequest_def Let_def)

definition responds ::
  "(json_value \<Rightarrow> string) \<Rightarrow> string \<Rightarrow> header \<Rightarrow> task_world wctx \<Rightarrow> task_world \<Rightarrow> call \<Rightarrow> bool" where
  "responds enc rid hm c w call \<longleftrightarrow>
     (let (st, rep) = api_spec call (w_now w) (abs_api (w_api w))
      in sent_head (rw_calls (c_writer c)) = Some (reply_head hm rep) \<and>
         sent_body (rw_calls (c_writer c)) = reply_body enc rid rep \<and>
         abs_api (w_api (c_app c)) = st \<and> api_wf (w_api (c_app c)) \<and> w_next (c_app c) = w_next w)"

lemma Serve_responds:
  assumes "handles enc (h c) c call" and "ready E enc c" and "co_errorHandler (c_opts c) = Some k"
    and "c_Get requestIDKey c = Some rid"
    and "\<And>st s t. api_spec call (w_now (c_app c)) (abs_api (w_api (c_app c))) = (st, Fail s t) \<Longrightarrow> 200 \<le> s"
  shows "responds enc rid (rw_header (c_writer c)) (Serve E (task_errors E) h c) (c_app c) call"
proof -
  obtain c1 res where h: "h c = (c1, res)" by fastforce
  obtain st rep where spec: "api_spec call (w_now (c_app c)) (abs_api (w_api (c_app c))) = (st, rep)" by fastforce
  note facts = assms(1) h spec
  show ?thesis
  proof (cases rep)
    case (Done s loc body)
    then have "responseWritten (logError s' e c1)" for s' e
      using facts by (simp add: handles_def answers_def responseWritten_def)
    then have "c_writer (Serve E (task_errors E) h c) = c_writer c1" "c_app (Serve E (task_errors E) h c) = c_app c1"
      by (cases res; simp add: Serve_def h Let_def)+
    then show ?thesis
      using facts Done by (simp add: handles_def answers_def responds_def reply_body_def split: option.splits)
  next
    case (Fail s t)
    then obtain e where e: "res = Some e" "status_error e s t" "untouched c c1"
      using facts by (auto simp: handles_def answers_def)
    let ?c = "logError (response_status e) e c1"
    let ?v = "JObject [(''error'', JString t), (''requestId'', JString rid)]"
    have "Serve E (task_errors E) h c = writeError E ?c e"
      using e assms(3)
      by (simp add: Serve_def h Let_def status_error_def responseWritten_def untouched_def fresh_def task_errors_def)
    also have "\<dots> = fst (c_JSON E ?v [s] ?c)"
      using e assms(4) by (simp add: writeError_def status_error_def c_Get_def untouched_def)
    finally have serve: "Serve E (task_errors E) h c = fst (c_JSON E ?v [s] ?c)" .
    have "200 \<le> s"
      using assms(5) spec Fail by blast
    moreover have "we_Marshal E (''pretty'' \<in> set (rq_query (c_Request ?c))) ?v = Inr (enc ?v)"
      using assms(2) e(3) by (simp add: ready_def untouched_def)
    ultimately show ?thesis
      using JSON_Done [of ?c E ?v "enc ?v" "[s]"] e(3) facts Fail
      by (simp add: serve untouched_def responds_def handles_def reply_head_def reply_body_def)
  qed
qed

text \<open>
  The server of the program, before and after its first request. The mux gives the request
  on as it is, with the values of the path; the context values do not change the route.
\<close>

definition serves_tasks ::
  "web_env \<Rightarrow> createTaskRequest decoder \<Rightarrow> updateTaskRequest decoder \<Rightarrow> task_world server \<Rightarrow> bool" where
  "serves_tasks E dc du s \<longleftrightarrow>
     map fst (s_mux s) = task_routes \<and> map_of (s_mux s) = route_handler E dc du \<and>
     co_errorHandler (s_contextOpts s) = Some 0 \<and> co_maxReadSize (s_contextOpts s) = 2 ^ 20 \<and>
     snd (middlewareChain s) = requestIDMiddleware"

definition routed :: "mux_env \<Rightarrow> request \<Rightarrow> string \<Rightarrow> (string \<times> string) list \<Rightarrow> bool" where
  "routed M r p ps \<longleftrightarrow> p \<in> set task_routes \<and>
     (\<forall>vs. mx_match M task_routes (r\<lparr>rq_values := vs\<rparr>) = Some (p, r\<lparr>rq_values := vs, rq_path := ps\<rparr>))"

lemma tasks_server_serves:
  assumes "tasks_server E dc du M = Ret s"
  shows "serves_tasks E dc du s"
proof -
  let ?s = "server_Use [requestIDMiddleware] (NewServer tasks_options)"
  have mux: "s = ?s\<lparr>s_mux := zip task_routes [health E, api_list E, api_create E dc, api_get E, api_update E du, api_delete]\<rparr>"
    using assms
    by (simp add: tasks_server_def api_mount_def go_bind_eq_Ret server_GET_def server_POST_def server_PATCH_def
        server_DELETE_def server_Handle_def task_routes_def server_Use_def NewServer_def Let_def
        split: if_splits)
  have "wrap_all [requestIDMiddleware] = requestIDMiddleware"
    by (rule ext) simp
  then show ?thesis
    unfolding mux
    by (simp add: serves_tasks_def route_handler_def task_routes_def server_Use_def NewServer_def
        middlewareChain_def tasks_options_def default_options_def second_def Let_def)
qed

lemma chain_serves: "serves_tasks E dc du s \<Longrightarrow> serves_tasks E dc du (fst (middlewareChain s))"
  by (auto simp: serves_tasks_def middlewareChain_def Let_def split: option.splits)

lemma log_serves [simp]: "serves_tasks E dc du (s\<lparr>s_log := l\<rparr>) = serves_tasks E dc du s"
  by (simp add: serves_tasks_def middlewareChain_def Let_def split: option.splits)

lemma bound_path [simp]:
  "bound decode (r\<lparr>rq_values := vs\<rparr>) = bound decode r"
  "bound decode (r\<lparr>rq_path := ps\<rparr>) = bound decode r"
  by (simp_all add: bound_def)

lemma call_of_path [simp]: "call_of dc du p ps (r\<lparr>rq_values := vs, rq_path := ps'\<rparr>) = call_of dc du p ps r"
  by (simp add: call_of_def)

lemma mux_responds:
  assumes s: "serves_tasks E dc du s" and r: "routed M r p ps" and c: "ready E enc c"
    and req: "c_Request c = r\<lparr>rq_values := vs\<rparr>" and rid: "map_of vs requestIDKey = Some rid"
  shows "responds enc rid (rw_header (c_writer c)) (fst (mux_handler E (task_errors E) M s c)) (c_app c)
      (call_of dc du p ps r) \<and> snd (mux_handler E (task_errors E) M s c) = None"
proof -
  let ?r = "r\<lparr>rq_values := vs, rq_path := ps\<rparr>"
  let ?c = "newContext (Own (c_writer c)) ?r (s_contextOpts s) (c_log c) (c_app c)"
  have match: "mx_match M (map fst (s_mux s)) (c_Request c) = Some (p, ?r)"
    using s r req by (simp add: serves_tasks_def routed_def)
  have sel: "c_writer ?c = c_writer c" "c_app ?c = c_app c" "c_Request ?c = ?r" "c_values ?c = vs"
    "c_opts ?c = s_contextOpts s"
    by (simp_all add: newContext_def)
  have "ready E enc ?c"
    using s c req by (simp add: ready_def serves_tasks_def sel)
  moreover have "p \<in> set task_routes"
    using r by (simp add: routed_def)
  ultimately obtain h where h: "map_of (s_mux s) p = Some h"
      "handles enc (h ?c) ?c (call_of dc du p ps ?r)" and ready: "ready E enc ?c"
    using handles_route [of E enc ?c p dc du] s by (auto simp: sel serves_tasks_def)
  have "responds enc rid (rw_header (c_writer ?c)) (Serve E (task_errors E) h ?c) (c_app ?c) (call_of dc du p ps ?r)"
    by (rule Serve_responds [where h = h and c = ?c and k = 0, OF h(2) ready])
      (use s rid call_fails in \<open>auto simp: sel serves_tasks_def c_Get_def\<close>)
  then show ?thesis
    by (simp add: mux_handler_def match h(1) sel responds_def Let_def)
qed

definition request_name :: "64 word \<Rightarrow> string" where
  "request_name n = ''req-'' @ Itoa (uint n)"

lemma request_responds:
  assumes s: "serves_tasks E dc du s" and r: "routed M r p ps"
    and enc: "\<forall>v. we_Marshal E (''pretty'' \<in> set (rq_query r)) v = Inr (enc v)"
    and app: "api_wf (w_api app)" "range_order (w_order app)"
  shows "let (s', c) = serveHTTP E (task_errors E) M (Bare hm) r app s;
             n = w_next app + 1
         in serves_tasks E dc du s' \<and>
            responds enc (request_name n) (hm(''X-Request-ID'' \<mapsto> request_name n)) c (app\<lparr>w_next := n\<rparr>)
              (call_of dc du p ps r)"
proof -
  let ?n = "w_next app + 1"
  let ?s = "fst (middlewareChain s)"
  define c where "c = logRequest (newContext (Bare hm) r (s_contextOpts s) (s_log s) app)"
  let ?vs = "(requestIDKey, request_name ?n) # rq_values r"
  let ?c = "c_put (header_Set ''X-Request-ID'' (request_name ?n) (wrap_writer hm))
      (c_Set requestIDKey (request_name ?n) (c\<lparr>c_app := app\<lparr>w_next := ?n\<rparr>\<rparr>))"
  have c: "c_writer c = wrap_writer hm" "c_app c = app" "c_Request c = r" "c_values c = rq_values r"
    "c_opts c = s_contextOpts s"
    by (simp_all add: c_def newContext_def)
  have sel: "c_writer ?c = header_Set ''X-Request-ID'' (request_name ?n) (wrap_writer hm)"
    "c_app ?c = app\<lparr>w_next := ?n\<rparr>" "c_Request ?c = r\<lparr>rq_values := ?vs\<rparr>" "c_opts ?c = s_contextOpts s"
    by (simp_all add: c)
  have wrap: "requestIDMiddleware h c = h ?c" for h
    by (simp add: requestIDMiddleware_def request_name_def c Let_def)
  have "fresh (wrap_writer hm)"
    by (simp add: fresh_def) (simp add: wrap_writer_def)
  then have ready: "ready E enc ?c"
    using s enc app by (simp add: ready_def c serves_tasks_def)
  have id: "map_of ?vs requestIDKey = Some (request_name ?n)"
    by simp
  note step = mux_responds [OF chain_serves [OF s] r ready sel(3) id]
  have "Serve E (task_errors E) (requestIDMiddleware (mux_handler E (task_errors E) M ?s)) c =
      fst (mux_handler E (task_errors E) M ?s ?c)"
    using step by (cases "mux_handler E (task_errors E) M ?s ?c") (simp add: Serve_def wrap)
  moreover have "snd (middlewareChain s) = requestIDMiddleware"
    using s by (simp add: serves_tasks_def)
  ultimately show ?thesis
    using step chain_serves [OF s] unfolding serveHTTP_def Let_def c_def [symmetric]
    by (cases "middlewareChain s") (simp add: sel wrap_writer_def)
qed

section \<open>Sequences of requests\<close>

text \<open>A request, with the time and the order of the map at its moment.\<close>

type_synonym visit = "request \<times> int \<times> ((int \<times> task) list \<Rightarrow> (int \<times> task) list)"

type_synonym client_response = "(int \<times> header) option \<times> string"

fun run_visits ::
  "web_env \<Rightarrow> mux_env \<Rightarrow> visit list \<Rightarrow> task_world server \<times> task_world \<Rightarrow> task_world \<times> client_response list" where
  "run_visits E M [] (s, w) = (w, [])"
| "run_visits E M ((r, now, ord) # vs) (s, w) =
     (let (s, c) = serveHTTP E (task_errors E) M (Bare Map.empty) r (w\<lparr>w_now := now, w_order := ord\<rparr>) s;
          (w, out) = run_visits E M vs (s, c_app c)
      in (w, (sent_head (rw_calls (c_writer c)), sent_body (rw_calls (c_writer c))) # out))"

fun spec_run :: "(call \<times> int) list \<Rightarrow> task_store \<Rightarrow> task_store \<times> reply list" where
  "spec_run [] st = (st, [])"
| "spec_run ((call, now) # cs) st =
     (let (st, rep) = api_spec call now st; (st, reps) = spec_run cs st in (st, rep # reps))"

fun responses :: "(bool \<Rightarrow> json_value \<Rightarrow> string) \<Rightarrow> 64 word \<Rightarrow> visit list \<Rightarrow> reply list \<Rightarrow> client_response list" where
  "responses enc n ((r, now, ord) # vs) (rep # reps) =
     (Some (reply_head [''X-Request-ID'' \<mapsto> request_name (n + 1)] rep),
      reply_body (enc (''pretty'' \<in> set (rq_query r))) (request_name (n + 1)) rep) # responses enc (n + 1) vs reps"
| "responses enc n vs reps = []"

text \<open>The state \<open>main\<close> starts with.\<close>

definition first_world :: task_world where
  "first_world = \<lparr>w_api = newTaskAPI, w_next = 0, w_now = 0, w_order = (\<lambda>kvs. kvs)\<rparr>"

text \<open>
  The documented behaviour of the mux and the encoder a run relies on: \<open>route\<close> is the route
  and the path values of each request, and values of these types always have an encoding.
\<close>

definition well_served ::
  "web_env \<Rightarrow> mux_env \<Rightarrow> (bool \<Rightarrow> json_value \<Rightarrow> string) \<Rightarrow> (request \<Rightarrow> string \<times> (string \<times> string) list) \<Rightarrow>
   visit list \<Rightarrow> bool" where
  "well_served E M enc route vs \<longleftrightarrow>
     (\<forall>pretty v. we_Marshal E pretty v = Inr (enc pretty v)) \<and>
     list_all (\<lambda>(r, now, ord). routed M r (fst (route r)) (snd (route r)) \<and> range_order ord) vs"

definition visit_calls ::
  "createTaskRequest decoder \<Rightarrow> updateTaskRequest decoder \<Rightarrow> (request \<Rightarrow> string \<times> (string \<times> string) list) \<Rightarrow>
   visit list \<Rightarrow> (call \<times> int) list" where
  "visit_calls dc du route = map (\<lambda>(r, now, ord). (call_of dc du (fst (route r)) (snd (route r)) r, now))"

lemma run_visits_spec:
  assumes "serves_tasks E dc du s" and "api_wf (w_api w)" and "well_served E M enc route vs"
  shows "let (w', out) = run_visits E M vs (s, w); (st, reps) = spec_run (visit_calls dc du route vs) (abs_api (w_api w))
    in out = responses enc (w_next w) vs reps \<and> abs_api (w_api w') = st"
  using assms
proof (induction vs arbitrary: s w)
  case (Cons v vs)
  obtain r now ord where v: "v = (r, now, ord)" by (cases v)
  let ?w = "w\<lparr>w_now := now, w_order := ord\<rparr>" and ?enc = "enc (''pretty'' \<in> set (rq_query r))"
  obtain s' c where serve: "serveHTTP E (task_errors E) M (Bare Map.empty) r ?w s = (s', c)" by fastforce
  obtain st rep where spec: "api_spec (call_of dc du (fst (route r)) (snd (route r)) r) now (abs_api (w_api w)) = (st, rep)"
    by fastforce
  have "routed M r (fst (route r)) (snd (route r))" "range_order ord"
    and enc: "\<forall>v. we_Marshal E (''pretty'' \<in> set (rq_query r)) v = Inr (?enc v)"
    and rest: "well_served E M enc route vs"
    using Cons.prems(3) by (simp_all add: well_served_def v)
  then have step: "serves_tasks E dc du s'" "api_wf (w_api (c_app c))" "abs_api (w_api (c_app c)) = st"
    "w_next (c_app c) = w_next w + 1"
    "sent_head (rw_calls (c_writer c)) = Some (reply_head [''X-Request-ID'' \<mapsto> request_name (w_next w + 1)] rep)"
    "sent_body (rw_calls (c_writer c)) = reply_body ?enc (request_name (w_next w + 1)) rep"
    using request_responds [OF Cons.prems(1) _ enc, of M "fst (route r)" "snd (route r)" ?w Map.empty] Cons.prems(2)
    by (simp_all add: serve spec responds_def Let_def)
  show ?case
    using Cons.IH [OF step(1,2) rest] step serve spec
    by (simp add: v visit_calls_def split: prod.splits)
qed (simp add: visit_calls_def)

section \<open>What the specification keeps\<close>

definition store_ok :: "task_store \<Rightarrow> bool" where
  "store_ok st \<longleftrightarrow> 1 \<le> st_next st \<and>
     (\<forall>n t. st_tasks st n = Some t \<longrightarrow>
        1 \<le> n \<and> n < st_next st \<and> task_ID t = n \<and> task_Title t \<noteq> [] \<and> trimmed (task_Title t))"

definition location :: "reply \<Rightarrow> string list" where
  "location rep = (case rep of Done s (Some l) b \<Rightarrow> [l] | Done s None b \<Rightarrow> [] | Fail s t \<Rightarrow> [])"

text \<open>
  One call: the store stays well formed, the next ID stays or moves on by one, which is
  when a location is given out, and the only new task has that ID.
\<close>

lemma int_inc_small: "0 \<le> n \<Longrightarrow> n < 2 ^ 63 - 1 \<Longrightarrow> int_inc n = n + 1"
  by (simp add: int_inc_def signed_take_bit_int_eq_self)

lemma with_task_cases:
  assumes "P (st, Fail 400 ''invalid task id'')" and "P (st, Fail 404 ''task not found'')"
    and "\<And>n t. st_tasks st n = Some t \<Longrightarrow> P (f n t)"
  shows "P (with_task raw st f)"
  using assms by (simp add: with_task_def split: option.split)

definition call_effect :: "task_store \<Rightarrow> task_store \<times> reply \<Rightarrow> bool" where
  "call_effect st out \<longleftrightarrow>
     (case out of (st', rep) \<Rightarrow>
        store_ok st' \<and>
        (if location rep = [] then st_next st' = st_next st \<and> dom (st_tasks st') \<subseteq> dom (st_tasks st)
         else location rep = [''/tasks/'' @ Itoa (st_next st)] \<and> st_next st' = st_next st + 1 \<and>
              dom (st_tasks st') \<subseteq> insert (st_next st) (dom (st_tasks st))))"

lemma effect_none: "store_ok st \<Longrightarrow> location rep = [] \<Longrightarrow> call_effect st (st, rep)"
  by (simp add: call_effect_def)

lemma spec_effect:
  assumes ok: "store_ok st" and small: "st_next st < 2 ^ 63 - 1"
  shows "call_effect st (api_spec call now st)"
proof (cases call)
  case (CCreate b)
  show ?thesis
  proof (cases b)
    case (Inr title)
    then show ?thesis
      using CCreate ok small int_inc_small [of "st_next st"] TrimSpace_trimmed [of title]
      by (auto simp: call_effect_def store_ok_def location_def Let_def) (meson order_less_imp_le)
  qed (cases "projl b"; use CCreate ok in \<open>auto simp: location_def intro!: effect_none\<close>)
next
  case (CUpdate raw b)
  show ?thesis
  proof (cases b)
    case (Inr p)
    obtain title dn where p: "p = (title, dn)" by fastforce
    let ?f = "\<lambda>n t.
        if map_option TrimSpace title = Some [] then (st, Fail 400 ''title cannot be empty'')
        else let t = t\<lparr>task_Title := (case title of None \<Rightarrow> task_Title t | Some x \<Rightarrow> TrimSpace x),
                        task_Done := (case dn of None \<Rightarrow> task_Done t | Some d \<Rightarrow> d)\<rparr>
              in (st\<lparr>st_tasks := (st_tasks st)(n \<mapsto> t)\<rparr>, Done 200 None (Some (task_JSON t)))"
    have "call_effect st (with_task raw st ?f)"
      by (rule with_task_cases)
        (use ok TrimSpace_trimmed in \<open>auto simp: call_effect_def store_ok_def location_def Let_def split: option.splits\<close>)
    moreover have "api_spec call now st =
        (if valid_id raw = None then (st, Fail 400 ''invalid task id'')
         else if title = None \<and> dn = None then (st, Fail 400 ''supply title or done'')
         else with_task raw st ?f)"
      unfolding CUpdate Inr p by (cases title; cases dn; simp only: api_spec.simps sum.case prod.case option.case; simp)
    ultimately show ?thesis
      using ok by (simp add: effect_none location_def)
  qed (cases "projl b"; use CUpdate ok in \<open>auto simp: location_def intro!: effect_none\<close>)
next
  case (CDelete raw)
  then show ?thesis
    using ok by simp (rule with_task_cases; auto simp: call_effect_def store_ok_def location_def)
next
  case (CGet raw)
  then show ?thesis
    using ok by simp (rule with_task_cases; simp add: effect_none location_def)
qed (use ok in \<open>simp_all add: effect_none location_def\<close>)

lemma spec_run_effect:
  assumes "store_ok st" and "st_next st + int (length cs) < 2 ^ 63"
  shows "case spec_run cs st of (st', reps) \<Rightarrow>
    store_ok st' \<and> st_next st \<le> st_next st' \<and>
    concat (map location reps) = map (\<lambda>n. ''/tasks/'' @ Itoa n) [st_next st..st_next st' - 1] \<and>
    dom (st_tasks st') \<inter> {..<st_next st} \<subseteq> dom (st_tasks st) \<and>
    st_next st' \<le> st_next st + int (length cs)"
  using assms
proof (induction cs arbitrary: st)
  case (Cons p cs)
  obtain call now where p: "p = (call, now)" by fastforce
  obtain st1 rep where s1: "api_spec call now st = (st1, rep)" by fastforce
  obtain st2 reps where s2: "spec_run cs st1 = (st2, reps)" by fastforce
  have small: "st_next st < 2 ^ 63 - 1"
    using Cons.prems(2) by simp
  have eff: "call_effect st (st1, rep)"
    using spec_effect [OF Cons.prems(1) small, of call now] by (simp add: s1)
  then have "store_ok st1" "st_next st1 \<le> st_next st + 1"
    by (auto simp: call_effect_def split: if_splits)
  moreover from this have "st_next st1 + int (length cs) < 2 ^ 63"
    using Cons.prems(2) by simp
  ultimately have IH: "store_ok st2" "st_next st1 \<le> st_next st2"
    "concat (map location reps) = map (\<lambda>n. ''/tasks/'' @ Itoa n) [st_next st1..st_next st2 - 1]"
    "dom (st_tasks st2) \<inter> {..<st_next st1} \<subseteq> dom (st_tasks st1)"
    "st_next st2 \<le> st_next st1 + int (length cs)"
    using Cons.IH [of st1] by (auto simp: s2)
  have "dom (st_tasks st1) \<inter> {..<st_next st} \<subseteq> dom (st_tasks st)" "st_next st \<le> st_next st1"
    using eff by (auto simp: call_effect_def split: if_splits)
  then have "dom (st_tasks st2) \<inter> {..<st_next st} \<subseteq> dom (st_tasks st)"
    using IH(4) by fastforce
  then show ?case
    using IH eff upto_rec1 [of "st_next st" "st_next st2 - 1"]
    by (simp add: p s1 s2 call_effect_def split: if_splits)
qed simp

lemma spec_run_append:
  "spec_run (cs @ ds) st =
     (let (st, reps) = spec_run cs st; (st, later) = spec_run ds st in (st, reps @ later))"
  by (induction cs arbitrary: st) (auto split: prod.splits)

lemma spec_run_length: "length (snd (spec_run cs st)) = length cs"
  by (induction cs arbitrary: st) (auto split: prod.splits, metis snd_conv)

lemma visit_calls_append:
  "visit_calls dc du route (vs @ ws) = visit_calls dc du route vs @ visit_calls dc du route ws"
  by (simp add: visit_calls_def)

text \<open>The locations of a run, read off the responses.\<close>

definition sent_location :: "client_response \<Rightarrow> string list" where
  "sent_location x =
     (case fst x of None \<Rightarrow> [] | Some (s, h) \<Rightarrow> (case h ''Location'' of None \<Rightarrow> [] | Some l \<Rightarrow> [l]))"

lemma sent_locations:
  "length reps = length vs \<Longrightarrow> concat (map sent_location (responses enc n vs reps)) = concat (map location reps)"
  by (induction enc n vs reps rule: responses.induct)
    (auto simp: sent_location_def location_def reply_head_def Let_def split: reply.splits option.splits)

lemma first_wf: "api_wf (w_api first_world)" "abs_api (w_api first_world) = empty_store" "w_next first_world = 0"
  by (simp_all add: first_world_def newTaskAPI_def api_wf_def abs_api_def empty_store_def fun_eq_iff)

lemma empty_ok: "store_ok empty_store"
  by (simp add: store_ok_def empty_store_def)

section \<open>Properties\<close>

text \<open>
  C9: The task API refines its specification. Through the middleware, the mux, the contexts
  and the error handling of the server, every sequence of requests to its routes is answered
  as the specification answers the calls they stand for, in status, headers and document,
  errors included, with consecutive request numbers, and it leaves the store specified. The
  order in which the map of tasks is visited makes no difference.
\<close>

theorem tasks_api_refines_spec:
  assumes "tasks_server E dc du M = Ret s" and "well_served E M enc route vs"
  shows "let (w, out) = run_visits E M vs (s, first_world);
             (st, reps) = spec_run (visit_calls dc du route vs) empty_store
         in out = responses enc 0 vs reps \<and> abs_api (w_api w) = st"
  using run_visits_spec [OF tasks_server_serves [OF assms(1)] first_wf(1) assms(2)] by (simp add: first_wf)

text \<open>
  A mux that tells the routes apart by the method, a decoder that takes the body as the title,
  and a request to create a task.
\<close>

definition demo_mux :: mux_env where
  "demo_mux =
     \<lparr>mx_rejects = (\<lambda>ps p. p \<in> set ps),
      mx_match = (\<lambda>ps r. if rq_Method r = ''POST'' then Some (''POST /tasks'', r\<lparr>rq_path := []\<rparr>)
        else Some (''GET /tasks/{id}'', r\<lparr>rq_path := [(''id'', rq_RequestURI r)]\<rparr>)),
      mx_none = (\<lambda>r. rw_WriteHeader 404)\<rparr>"

definition demo_route :: "request \<Rightarrow> string \<times> (string \<times> string) list" where
  "demo_route r =
     (if rq_Method r = ''POST'' then (''POST /tasks'', []) else (''GET /tasks/{id}'', [(''id'', rq_RequestURI r)]))"

definition demo_create :: "createTaskRequest decoder" where
  "demo_create b = (Inr (bd_data b), True)"

definition demo_update :: "updateTaskRequest decoder" where
  "demo_update b = (Inr (None, None), True)"

definition demo_visit :: "string \<Rightarrow> visit" where
  "demo_visit title = (example_request ''application/json'' title, 5, \<lambda>kvs. kvs)"

definition demo_server :: "task_world server" where
  "demo_server = go_the (NewServer tasks_options) (tasks_server example_env demo_create demo_update demo_mux)"

lemma demo_server_built: "tasks_server example_env demo_create demo_update demo_mux = Ret demo_server"
  unfolding demo_server_def
  by (simp add: tasks_server_def api_mount_def server_GET_def server_POST_def server_PATCH_def server_DELETE_def
      server_Handle_def demo_mux_def server_Use_def NewServer_def Let_def)

lemma demo_served: "well_served example_env demo_mux (\<lambda>p v. ''7'') demo_route [demo_visit title]"
  by (simp add: well_served_def routed_def task_routes_def demo_mux_def demo_route_def demo_visit_def example_env_def
      range_order_def example_request_def)

lemma demo_calls:
  "visit_calls demo_create demo_update demo_route [demo_visit ''a''] = [(CCreate (Inr ''a''), 5)]"
proof -
  have "json_media (ToLower (TrimSpace ''application/json''))"
    unfolding json_content_type_iff [symmetric] by code_simp
  then show ?thesis
    by (simp add: visit_calls_def call_of_def demo_visit_def demo_route_def example_request_def bound_def
        demo_create_def MaxBytesReader_def)
qed

lemma demo_title: "TrimSpace ''a'' = ''a''"
  by code_simp

lemma tasks_api_refines_spec_witness:
  "map_option fst (fst (hd (snd (run_visits example_env demo_mux [demo_visit ''a''] (demo_server, first_world))))) = Some 201"
  using tasks_api_refines_spec [OF demo_server_built demo_served, of "''a''"]
  by (cases "run_visits example_env demo_mux [demo_visit ''a''] (demo_server, first_world)")
    (simp add: demo_calls demo_title reply_head_def Let_def, simp add: demo_visit_def reply_head_def)

text \<open>
  C15: The store stays well formed and no ID is given twice. After any sequence of requests,
  fewer than the integers an ID can take, every task is stored under its own ID, an ID given
  out before, with a title that is trimmed and not empty; the locations sent to the clients
  are those of the IDs from one on, each once and in order; and a task that has been deleted
  is never found again, whatever requests follow.
\<close>

theorem tasks_store_invariant:
  assumes s: "tasks_server E dc du M = Ret s" and served: "well_served E M enc route (vs @ later)"
    and "int (length (vs @ later)) < 2 ^ 63 - 1"
  shows "let (w, out) = run_visits E M vs (s, first_world);
             (w', out') = run_visits E M (vs @ later) (s, first_world);
             a = w_api w; a' = w_api w'
         in store_ok (abs_api a) \<and>
            concat (map sent_location out) = map (\<lambda>n. ''/tasks/'' @ Itoa n) [1..nextID a - 1] \<and>
            (\<forall>n. n < nextID a \<and> gm_get (tasks a) n = None \<longrightarrow> gm_get (tasks a') n = None)"
proof -
  let ?cs = "visit_calls dc du route vs" and ?ds = "visit_calls dc du route later"
  obtain w out where run: "run_visits E M vs (s, first_world) = (w, out)" by fastforce
  obtain w' out' where run': "run_visits E M (vs @ later) (s, first_world) = (w', out')" by fastforce
  obtain st reps where spec: "spec_run ?cs empty_store = (st, reps)" by fastforce
  obtain st' reps' where spec': "spec_run ?ds st = (st', reps')" by fastforce
  have served1: "well_served E M enc route vs"
    using served by (simp add: well_served_def)
  have first: "out = responses enc 0 vs reps" "abs_api (w_api w) = st"
    using run_visits_spec [OF tasks_server_serves [OF s] first_wf(1) served1] by (simp_all add: first_wf run spec)
  have second: "abs_api (w_api w') = st'"
    using run_visits_spec [OF tasks_server_serves [OF s] first_wf(1) served]
    by (simp add: first_wf run' spec spec' visit_calls_append spec_run_append)
  have len: "length ?cs = length vs" "length ?ds = length later"
    by (simp_all add: visit_calls_def)
  then have reps: "length reps = length vs"
    using spec_run_length [of ?cs empty_store] by (simp add: spec)
  have one: "st_next empty_store = 1"
    by (simp add: empty_store_def)
  have eff: "store_ok st" "concat (map location reps) = map (\<lambda>n. ''/tasks/'' @ Itoa n) [1..st_next st - 1]"
    "st_next st \<le> 1 + int (length vs)"
    using spec_run_effect [OF empty_ok, of ?cs] assms(3) by (simp_all add: spec one len)
  have "dom (st_tasks st') \<inter> {..<st_next st} \<subseteq> dom (st_tasks st)"
    using spec_run_effect [OF eff(1), of ?ds] eff(3) assms(3) by (simp add: spec' len)
  then have "n < st_next st \<Longrightarrow> st_tasks st n = None \<Longrightarrow> st_tasks st' n = None" for n
    by fastforce
  moreover have "nextID (w_api w) = st_next st" "gm_get (tasks (w_api w)) = st_tasks st"
    "gm_get (tasks (w_api w')) = st_tasks st'"
    using first(2) second by (auto simp: abs_api_def)
  ultimately show ?thesis
    using eff(1,2) sent_locations [OF reps, of enc 0]
    by (simp add: run run' first)
qed

lemma tasks_store_invariant_witness:
  "store_ok (abs_api (w_api (fst (run_visits example_env demo_mux [demo_visit ''a''] (demo_server, first_world)))))"
proof -
  have "well_served example_env demo_mux (\<lambda>p v. ''7'') demo_route ([demo_visit ''a''] @ [])"
    by (simp add: demo_served)
  from tasks_store_invariant [OF demo_server_built this] show ?thesis
    by (simp add: split_beta Let_def)
qed

end
