(* ===== verification/Gx_Example_Queues.thy ===== *)
theory Gx_Example_Queues imports Gx_Queue_Program_End Gx_Dispatcher Gx_Strings "HOL-Library.List_Lexorder" begin

text \<open>
  \<open>examples/dispatcher-queue/main.go\<close>, which sends events through a queue to a dispatcher,
  and the program of \<open>main\<close> in \<open>examples/queue/main.go\<close>, whose two workers finish in any
  order: instances of \<open>Gx_Queue_Program\<close>. Standard output is the list of its lines.
\<close>

section \<open>Events through a queue\<close>

datatype event = OrderPlaced string | OrderCanceled string

fun event_type :: "event \<Rightarrow> string" where
  "event_type (OrderPlaced i) = ''main.OrderPlaced''"
| "event_type (OrderCanceled i) = ''main.OrderCanceled''"

text \<open>The two handlers; a handler is called with events of its type only.\<close>

datatype order_handler = Audit | Inventory

fun handle_order :: "order_handler \<Rightarrow> event \<Rightarrow> string list \<Rightarrow> string list \<times> error option" where
  "handle_order Audit (OrderPlaced i) out = (out @ [''audit: order placed '' @ i], None)"
| "handle_order Inventory (OrderCanceled i) out = (out @ [''inventory: release reservation for '' @ i], None)"
| "handle_order h e out = (out, None)"

definition orders_dispatcher :: "(string, order_handler) dispatcher go" where
  "orders_dispatcher =
     go_bind (dispatcher_Register ''main.OrderPlaced'' (Some Audit) NewDispatcher)
       (dispatcher_Register ''main.OrderCanceled'' (Some Inventory))"

text \<open>The method \<open>dispatch\<close> of both event types, which is what the worker calls.\<close>

definition event_dispatch ::
  "(string, order_handler) dispatcher \<Rightarrow> event \<Rightarrow> string list \<Rightarrow> string list \<times> error option" where
  "event_dispatch d e out = dispatcher_Dispatch event_type handle_order (event_type e) e d out"

definition orders_work :: "(event, string list) work" where
  "orders_work err e out = event_dispatch (go_the NewDispatcher orders_dispatcher) e out"

definition orders_events :: "event list" where
  "orders_events = [OrderPlaced ''order-123'', OrderCanceled ''order-123'']"

definition orders_start :: "(event, string list) program" where
  "orders_start = program_start 16 1 orders_events []"

lemma orders_dispatcher_ok:
  "orders_dispatcher =
     Ret \<lparr>dp_m = Some [(''main.OrderPlaced'', [Audit]), (''main.OrderCanceled'', [Inventory])]\<rparr>"
  by (simp add: orders_dispatcher_def dispatcher_Register_def NewDispatcher_def gm_defs gm_slice_def)

lemma orders_new: "program_new 1 orders_events [] orders_start"
  unfolding program_new_def orders_start_def
  by (rule exI [of _ 16]) (simp add: program_start_def queue_start_def NewQueue_def chan_make_def orders_events_def Let_def)

lemma orders_run:
  "run_until orders_work orders_events [] =
     ([''audit: order placed order-123'', ''inventory: release reservation for order-123''], None)"
  by (simp add: orders_events_def orders_work_def event_dispatch_def orders_dispatcher_ok dispatcher_Dispatch_def
      gm_slice_def gm_get_def gm_entries_def)

text \<open>
  Whatever the interleaving, no push is rejected, and when \<open>main\<close> has the result of \<open>Run\<close> it
  is nil and both lines have been printed, in the order of the events. And \<open>main\<close> gets there.
\<close>

lemma orders_output:
  assumes "reach (program_new 1 orders_events []) (program_step orders_work) p"
  shows "pp_main p \<noteq> MFatal" and "pp_main p = MDone res \<Longrightarrow>
    res = None \<and> pp_world p = [''audit: order placed order-123'', ''inventory: release reservation for order-123'']"
proof -
  have inv: "whole_inv orders_work 1 orders_events [] p"
    by (rule program.reach_inv [OF assms])
  then show "pp_main p \<noteq> MFatal"
    by (auto simp: whole_inv_def program_inv_def)
  show "pp_main p = MDone res \<Longrightarrow>
    res = None \<and> pp_world p = [''audit: order placed order-123'', ''inventory: release reservation for order-123'']"
    using sequential_done [OF inv] by (simp add: orders_run)
qed

lemma orders_end:
  "\<exists>p res. reach (program_new 1 orders_events []) (program_step orders_work) p \<and> pp_main p = MDone res"
  by (rule program_can_end [OF reach_start]) (rule orders_new)

section \<open>Jobs for two workers\<close>

record email_job =
  job_ID :: int
  job_Recipient :: string

definition email_line :: "email_job \<Rightarrow> string" where
  "email_line job = ''sent email '' @ Itoa (job_ID job) @ '' to '' @ job_Recipient job"

text \<open>
  The worker sends its line to a channel with room for the four of them, so it never blocks:
  the channel is the list of what was sent.
\<close>

definition email_work :: "(email_job, string list) work" where
  "email_work err job processed =
     (case err of Some e \<Rightarrow> (processed, Some e) | None \<Rightarrow> (processed @ [email_line job], None))"

definition email_jobs :: "email_job list" where
  "email_jobs =
     [\<lparr>job_ID = 1, job_Recipient = ''ada@example.com''\<rparr>, \<lparr>job_ID = 2, job_Recipient = ''lin@example.com''\<rparr>,
      \<lparr>job_ID = 3, job_Recipient = ''margo@example.com''\<rparr>, \<lparr>job_ID = 4, job_Recipient = ''toni@example.com''\<rparr>]"

definition email_start :: "(email_job, string list) program" where
  "email_start = program_start 4 2 email_jobs []"

text \<open>What \<open>main\<close> prints in the end: the collected lines, sorted.\<close>

definition email_report :: "string list \<Rightarrow> string list" where
  "email_report processed = sort processed"

lemma email_fold: "fold (work_one email_work) jobs (out, []) = (out @ map email_line jobs, [])"
  by (induction jobs arbitrary: out) (simp_all add: work_one_def email_work_def)

lemma email_sorted:
  "map email_line email_jobs =
     [''sent email 1 to ada@example.com'', ''sent email 2 to lin@example.com'',
      ''sent email 3 to margo@example.com'', ''sent email 4 to toni@example.com'']"
  "sorted (map email_line email_jobs)"
  by code_simp+

text \<open>The report is the same under every interleaving, and nothing is lost or sent twice.\<close>

lemma email_output:
  assumes "reach (program_new 2 email_jobs []) (program_step email_work) p" and "pp_main p = MDone res"
  shows "res = None \<and> email_report (pp_world p) = map email_line email_jobs"
proof -
  have inv: "whole_inv email_work 2 email_jobs [] p"
    by (rule program.reach_inv [OF assms(1)])
  note facts = done_facts [OF inv assms(2)]
  have world: "pp_world p = map email_line (qs_handled (pp_q p))" "pp_errs p = []"
    using facts(6) by (simp_all add: email_fold)
  then have "mset (pp_world p) = mset (map email_line email_jobs)"
    using facts(4) by simp
  then have "email_report (pp_world p) = map email_line email_jobs"
    unfolding email_report_def using email_sorted(2) by (metis mset_sort properties_for_sort)
  then show ?thesis
    using facts(3) world by (simp add: errs_result_def)
qed

lemma email_new: "program_new 2 email_jobs [] email_start"
  unfolding program_new_def email_start_def
  by (rule exI [of _ 4]) (simp add: program_start_def queue_start_def NewQueue_def chan_make_def email_jobs_def Let_def)

end
