(* ===== verification/Gx_Examples.thy ===== *)
theory Gx_Examples imports Gx_Stack Gx_Buffer Gx_Dispatcher Gx_Throttler Gx_Accumulator Gx_Retry Gx_Runner Gx_Strings
begin

text \<open>
  The programs of \<open>examples\<close> with one goroutine, or whose goroutines take turns: stack, buffer
  (its blocking part is in \<open>Gx_Example_Buffer\<close>), dispatcher, throttler, accumulator, retry and runner, run on the
  models of the components. Standard output is the list of its lines. Clocks, random
  numbers and the ends of contexts are arguments.
\<close>

section \<open>Output\<close>

definition show_bool :: "bool \<Rightarrow> string" where
  "show_bool b = (if b then ''true'' else ''false'')"

text \<open>\<open>%q\<close>, for strings of printable characters without quotes and backslashes.\<close>

definition quoted_text :: "string \<Rightarrow> string" where
  "quoted_text s = CHR 0x22 # s @ [CHR 0x22]"

section \<open>Stack\<close>

text \<open>The loop around \<open>Pop\<close>; a call that blocks for ever is \<open>None\<close>. An edit is its description.\<close>

partial_function (option) undo_all :: "string stack \<Rightarrow> string list \<Rightarrow> (string stack \<times> string list) go option" where
  "undo_all history out =
     (case stack_Pop [] history of
        Panic m \<Rightarrow> Some (Panic m)
      | Ret None \<Rightarrow> None
      | Ret (Some (history, edit, ok)) \<Rightarrow>
          if \<not> ok then Some (Ret (history, out)) else undo_all history (out @ [''undo: '' @ edit]))"

declare undo_all.simps [code]

fun push_edits :: "string list \<Rightarrow> string stack \<Rightarrow> string stack go" where
  "push_edits [] history = Ret history"
| "push_edits (edit # edits) history =
     go_bind (stack_Push [] edit history) (\<lambda>(history, ok, sig). push_edits edits history)"

definition stack_before :: "(string stack \<times> string list) go" where
  "stack_before =
     go_bind (NewStack [] 2) (\<lambda>history.
     go_bind (push_edits [''typed h'', ''typed i'', ''added !''] history) (\<lambda>history.
     go_bind (stack_TryPop [] history) (\<lambda>(history, edit, ok).
       Ret (fst (stack_Close history), if ok then [''undo: '' @ edit] else []))))"

definition stack_main :: "string list go option" where
  "stack_main =
     (case stack_before of
        Panic m \<Rightarrow> Some (Panic m)
      | Ret (history, out) \<Rightarrow>
          (case undo_all history out of
             None \<Rightarrow> None
           | Some (Panic m) \<Rightarrow> Some (Panic m)
           | Some (Ret (history, out)) \<Rightarrow>
               Some (go_bind (stack_Push [] ''typed again'' history) (\<lambda>(history, ok, sig).
                 Ret (out @ [''push after close accepted: '' @ show_bool ok])))))"

text \<open>Last in, first out; a closed stack is drained and takes no more.\<close>

lemma stack_output:
  "stack_main = Some (Ret [''undo: added !'', ''undo: typed i'', ''undo: typed h'',
     ''push after close accepted: false''])"
  by code_simp

section \<open>Buffer\<close>

definition pollWithoutBlocking :: "string list go" where
  "pollWithoutBlocking =
     go_bind (NewBuffer [] 1) (\<lambda>b.
     go_bind (buffer_TryNext ([] :: string) b) (\<lambda>(b, v, ok).
       Ret ([''non-blocking read:''] @
         (if \<not> ok then [''  buffer is empty; TryNext returned immediately''] else []))))"

partial_function (option) receive_all :: "string buffer \<Rightarrow> string list \<Rightarrow> (string buffer \<times> string list) go option" where
  "receive_all b out =
     (case buffer_Next [] b of
        Panic m \<Rightarrow> Some (Panic m)
      | Ret None \<Rightarrow> None
      | Ret (Some (b, message, ok)) \<Rightarrow>
          if \<not> ok then Some (Ret (b, out)) else receive_all b (out @ [''  received '' @ quoted_text message]))"

declare receive_all.simps [code]

fun push_messages :: "string list \<Rightarrow> string buffer \<Rightarrow> string buffer go" where
  "push_messages [] b = Ret b"
| "push_messages (v # vs) b = go_bind (buffer_Push [] v b) (\<lambda>(b, ok, sig). push_messages vs b)"

definition drainAfterClose :: "string list go option" where
  "drainAfterClose =
     (case go_bind (NewBuffer [] 2) (push_messages [''first'', ''second'', ''third'']) of
        Panic m \<Rightarrow> Some (Panic m)
      | Ret b \<Rightarrow>
          (let out = [[], ''FIFO delivery and close:'', ''  queued '' @ Itoa (buffer_Len b) @ '' messages'']
           in case receive_all (fst (buffer_Close b)) out of
                None \<Rightarrow> None
              | Some (Panic m) \<Rightarrow> Some (Panic m)
              | Some (Ret (b, out)) \<Rightarrow>
                  Some (go_bind (buffer_Push [] ''fourth'' b) (\<lambda>(b, ok, sig).
                    Ret (out @ [''  push after close accepted: '' @ show_bool ok])))))"

text \<open>First in, first out; a closed buffer is drained and takes no more.\<close>

lemma buffer_output:
  "pollWithoutBlocking = Ret [''non-blocking read:'', ''  buffer is empty; TryNext returned immediately'']"
  "drainAfterClose = Some (Ret [[], ''FIFO delivery and close:'', ''  queued 3 messages'',
     ''  received '' @ quoted_text ''first'', ''  received '' @ quoted_text ''second'', ''  received '' @ quoted_text ''third'',
     ''  push after close accepted: false''])"
  by code_simp+

section \<open>Dispatcher\<close>

record OrderSubmitted =
  os_ID :: string
  os_Product :: string

datatype submitted_handler = SAudit | SInventory | SEmail

definition errOutOfStock :: error where
  "errOutOfStock = NewError 1 ''product is out of stock''"

fun handle_submitted ::
  "submitted_handler \<Rightarrow> OrderSubmitted \<Rightarrow> string list \<Rightarrow> string list \<times> error option" where
  "handle_submitted SAudit e out = (out @ [''  audit: received order '' @ os_ID e], None)"
| "handle_submitted SInventory e out =
     (if os_Product e = ''unavailable'' then (out, Some errOutOfStock)
      else (out @ [''  inventory: reserved '' @ os_Product e], None))"
| "handle_submitted SEmail e out = (out @ [''  email: sent confirmation for '' @ os_ID e], None)"

text \<open>There is one event type. An error of the first dispatch ends the program: \<open>None\<close>.\<close>

definition dispatcher_main :: "string list option go" where
  "dispatcher_main =
     go_bind (dispatcher_Register () (Some SAudit) NewDispatcher) (\<lambda>d.
     go_bind (dispatcher_Register () (Some SInventory) d) (\<lambda>d.
     go_bind (dispatcher_Register () (Some SEmail) d) (\<lambda>d.
       let dispatch = (\<lambda>e. dispatcher_Dispatch (\<lambda>_. ''main.OrderSubmitted'') handle_submitted () e d);
           (out, err) = dispatch \<lparr>os_ID = ''order-123'', os_Product = ''keyboard''\<rparr> [''successful dispatch:'']
       in Ret (if err \<noteq> None then None
          else
            let (out, err) = dispatch \<lparr>os_ID = ''order-124'', os_Product = ''unavailable''\<rparr> (out @ [[], ''failed dispatch:''])
            in Some (if is_error err errOutOfStock
                 then out @ [''  caller received error: product is out of stock''] else out)))))"

text \<open>The handler after the failing one does not run.\<close>

lemma dispatcher_output:
  "dispatcher_main = Ret (Some [''successful dispatch:'', ''  audit: received order order-123'',
     ''  inventory: reserved keyboard'', ''  email: sent confirmation for order-123'', [],
     ''failed dispatch:'', ''  audit: received order order-124'',
     ''  caller received error: product is out of stock''])"
  by (simp add: dispatcher_main_def dispatcher_Register_def dispatcher_Dispatch_def NewDispatcher_def gm_defs
      gm_slice_def errOutOfStock_def)

section \<open>Throttler\<close>

text \<open>Each call is given the time it reads; the sleep in between is the gap before the last one.\<close>

definition throttle_request :: "int \<Rightarrow> int \<Rightarrow> throttler \<times> string list \<Rightarrow> throttler \<times> string list" where
  "throttle_request now request tw =
     (let (tw, run) = throttler_Do now (\<lambda>out. out @ [''  refreshed for request '' @ Itoa request]) tw
      in (fst tw, snd tw @ [''  request '' @ Itoa request @ '' ran: '' @ show_bool run]))"

definition throttleWithDo :: "int \<Rightarrow> int \<Rightarrow> int \<Rightarrow> int \<Rightarrow> string list" where
  "throttleWithDo t1 t2 t3 t4 =
     (let tw = (NewThrottler (100 * 10 ^ 6), [''Do:'']);
          tw = throttle_request t3 3 (throttle_request t2 2 (throttle_request t1 1 tw))
      in snd (fst (throttler_Do t4 (\<lambda>out. out @ [''  refreshed after the interval'']) tw)))"

definition throttleWithAllow :: "int \<Rightarrow> int \<Rightarrow> int \<Rightarrow> string list" where
  "throttleWithAllow t1 t2 t3 =
     (let t = NewThrottler (100 * 10 ^ 6);
          (t, ok) = throttler_Allow t1 t;
          out = [[], ''Allow:''] @ (if ok then [''  sent a status update''] else []);
          (t, ok) = throttler_Allow t2 t;
          out = out @ (if \<not> ok then [''  skipped a duplicate status update''] else []);
          (t, ok) = throttler_Allow t3 t
      in out @ (if ok then [''  sent the next status update''] else []))"

text \<open>The output, if the calls before the sleep come within the interval.\<close>

lemma throttler_output:
  assumes "0 < t1" and "t1 \<le> t2" and "t2 \<le> t3" and "t3 < t1 + 100 * 10 ^ 6" and "t1 + 100 * 10 ^ 6 \<le> t4" and "t4 < 2 ^ 63"
  shows "throttleWithDo t1 t2 t3 t4 =
      [''Do:'', ''  refreshed for request 1'', ''  request 1 ran: true'', ''  request 2 ran: false'',
       ''  request 3 ran: false'', ''  refreshed after the interval'']"
    and "throttleWithAllow t1 t2 t4 =
      [[], ''Allow:'', ''  sent a status update'', ''  skipped a duplicate status update'', ''  sent the next status update'']"
proof -
  let ?T = "NewThrottler (100 * 10 ^ 6)" and ?R = "\<lambda>t. \<lparr>th_interval = 100 * 10 ^ 6, th_lastRun = t\<rparr>"
  have first: "throttler_Allow t1 ?T = (?R t1, True)"
    by (simp add: throttler_Allow_def NewThrottler_def)
  have early: "throttler_Allow t (?R t1) = (?R t1, False)" if "t1 \<le> t" "t < t1 + 100 * 10 ^ 6" for t
    using that assms by (simp add: throttler_Allow_def time_Sub_small)
  have late: "throttler_Allow t4 (?R t1) = (?R t4, True)"
    using assms by (simp add: throttler_Allow_def time_Sub_small)
  have gaps: "t1 \<le> t2" "t2 < t1 + 100 * 10 ^ 6" "t1 \<le> t3" "t3 < t1 + 100 * 10 ^ 6"
    using assms by simp_all
  note calls = first early [OF gaps(1,2)] early [OF gaps(3,4)] late
  have "Itoa 1 = ''1''" "Itoa 2 = ''2''" "Itoa 3 = ''3''"
    by code_simp+
  then show "throttleWithDo t1 t2 t3 t4 =
      [''Do:'', ''  refreshed for request 1'', ''  request 1 ran: true'', ''  request 2 ran: false'',
       ''  request 3 ran: false'', ''  refreshed after the interval'']"
    unfolding throttleWithDo_def throttle_request_def throttler_Do_def Let_def fst_conv snd_conv
    by (simp only: calls prod.case fst_conv snd_conv if_True if_False show_bool_def) simp
  show "throttleWithAllow t1 t2 t4 =
      [[], ''Allow:'', ''  sent a status update'', ''  skipped a duplicate status update'', ''  sent the next status update'']"
    unfolding throttleWithAllow_def Let_def by (simp only: calls prod.case) simp
qed

section \<open>Accumulator\<close>

definition flush_lines :: "64 word list \<Rightarrow> string list" where
  "flush_lines totals = map (\<lambda>total. ''  flushed '' @ Itoa (sint total) @ '' events'') totals"

text \<open>A call on the accumulator, with the lines its callback prints.\<close>

definition acc_call ::
  "(accumulator \<Rightarrow> accumulator \<times> 64 word list) \<Rightarrow> accumulator \<times> string list \<Rightarrow> accumulator \<times> string list" where
  "acc_call f ao = (case f (fst ao) of (a, totals) \<Rightarrow> (a, snd ao @ flush_lines totals))"

definition flushOnMax :: "string + string list" where
  "flushOnMax =
     (case NewAccumulator live_ctx (3600 * 10 ^ 9) 10 True of
        Inl e \<Rightarrow> Inl e
      | Inr a \<Rightarrow>
          (let ao = (a, [''threshold-driven batch:'']);
               ao = acc_call (accumulator_Add 3) ao;
               ao = acc_call (accumulator_Add 4) ao;
               ao = acc_call (accumulator_Add 3) ao;
               ao = acc_call (accumulator_Add 2) ao;
               ao = acc_call accumulator_Close ao
           in Inr (snd ao)))"

text \<open>During the sleep of 250 ms the timer of 200 ms fires once and the goroutine ticks.\<close>

definition flushOnDelayOrMax :: "string + string list" where
  "flushOnDelayOrMax =
     (case NewAccumulator live_ctx (200 * 10 ^ 6) 10 True of
        Inl e \<Rightarrow> Inl e
      | Inr a \<Rightarrow>
          (let ao = (a, [[], ''time-and-threshold-driven batch:'']);
               ao = acc_call (accumulator_Add 3) ao;
               ao = acc_call (accumulator_Add 4) ao;
               ao = acc_call accumulator_tick ao;
               ao = acc_call (accumulator_Add 6) ao;
               ao = acc_call (accumulator_Add 4) ao;
               ao = acc_call accumulator_Close ao
           in Inr (snd ao)))"

lemma accumulator_output:
  "flushOnMax = Inr [''threshold-driven batch:'', ''  flushed 10 events'', ''  flushed 2 events'']"
  "flushOnDelayOrMax =
     Inr [[], ''time-and-threshold-driven batch:'', ''  flushed 7 events'', ''  flushed 10 events'']"
  by code_simp+

section \<open>Retry\<close>

definition errServiceUnavailable :: error where
  "errServiceUnavailable = NewError 3 ''service unavailable''"

definition retry_main_options :: retry_options where
  "retry_main_options =
     \<lparr>ro_Attempts = 5, ro_Backoff = f_of_int 2, ro_Delay = 50 * 1000000, ro_Jitter = Fin 1 (-1),
      ro_MaxDelay = 100 * 1000000, ro_MaxDuration = 1000000000\<rparr>"

text \<open>\<open>ctx_error\<close> is \<open>ctx.Err()\<close> when the context is done at the start of the call.\<close>

definition callService :: "error option \<Rightarrow> nat \<Rightarrow> error option" where
  "callService ctx_error attempt =
     (case ctx_error of
        Some err \<Rightarrow> Some err
      | None \<Rightarrow> if attempt < 4 then Some errServiceUnavailable else None)"

text \<open>The standard output, and the error \<open>log.Fatal\<close> ends the program with; \<open>Inl\<close> for the first one.\<close>

definition retry_main :: "retry_env \<Rightarrow> (nat \<Rightarrow> error option) \<Rightarrow> string + (string list \<times> error option) option" where
  "retry_main W ctx_error =
     (case NewRetry retry_main_options of
        Inl err \<Rightarrow> Inl err
      | Inr retry \<Rightarrow>
          Inr (case retry_Do (W\<lparr>re_fn := \<lambda>i. callService (ctx_error i) (Suc i)\<rparr>) retry of
                 None \<Rightarrow> None
               | Some (err, attempt, waits) \<Rightarrow>
                   Some (map (\<lambda>i. ''attempt '' @ Itoa (int i)) [1..<Suc attempt] @
                         (if err = None then [''request succeeded after '' @ Itoa (int attempt) @ '' attempts''] else []),
                       err)))"

lemma retry_options_valid:
  "NewRetry retry_main_options =
     Inr \<lparr>rt_attempts = 5, rt_backoff = f_of_int 2, rt_delay = 50 * 1000000, rt_jitter = Fin 1 (-1),
          rt_maxDelay = 100 * 1000000, rt_maxDuration = 1000000000\<rparr>"
  by code_simp

text \<open>While the context is live the fourth attempt succeeds, whatever the jitter.\<close>

lemma retry_output:
  assumes "\<And>i. ctx_error i = None" and "\<And>t i. re_err W t i = None" and "\<And>t i w. re_done W t i w = None"
  shows "retry_main W ctx_error =
     Inr (Some ([''attempt 1'', ''attempt 2'', ''attempt 3'', ''attempt 4'', ''request succeeded after 4 attempts''], None))"
proof -
  define V where "V = W\<lparr>re_fn := \<lambda>i. callService (ctx_error i) (Suc i)\<rparr>"
  define r where "r = projr (NewRetry retry_main_options)"
  have r: "NewRetry retry_main_options = Inr r" "rt_attempts r = 5"
    by (simp_all add: r_def retry_options_valid)
  have fails: "outcome_at V r j = None" if "j < 3" for j
    using that r(2) assms by (auto simp: outcome_at_def V_def callService_def)
  have "outcome_at V r (0 + 3) = Some None"
    using assms by (simp add: outcome_at_def V_def callService_def)
  from loop_stops [OF this] fails obtain waits where "retry_Do V r = Some (None, 4, waits)"
    by (simp add: retry_Do_def waits_upto_simps)
  moreover have "map (\<lambda>i. ''attempt '' @ Itoa (int i)) [1..<Suc 4] @
      [''request succeeded after '' @ Itoa (int 4) @ '' attempts''] =
      [''attempt 1'', ''attempt 2'', ''attempt 3'', ''attempt 4'', ''request succeeded after 4 attempts'']"
    by code_simp
  ultimately show ?thesis
    by (simp only: retry_main_def r(1) V_def [symmetric] sum.case option.case prod.case simp_thms if_True)
qed

text \<open>In every environment the program ends after at most five attempts.\<close>

lemma retry_ends:
  "\<exists>out err. retry_main W ctx_error = Inr (Some (out, err)) \<and> length out \<le> 6"
proof -
  define r where "r = projr (NewRetry retry_main_options)"
  have r: "NewRetry retry_main_options = Inr r" "rt_attempts r = 5"
    by (simp_all add: r_def retry_options_valid)
  obtain res n waits where "retry_Do (W\<lparr>re_fn := \<lambda>i. callService (ctx_error i) (Suc i)\<rparr>) r = Some (res, n, waits)"
    "int n \<le> 5"
    using Do_limited [of r] r(2) by fastforce
  then show ?thesis
    by (simp add: retry_main_def r(1))
qed

section \<open>Runner\<close>

definition errConfigurationMissing :: error where
  "errConfigurationMissing = NewError 2 ''configuration is missing''"

text \<open>
  Goroutine 0 is the background task, 1 the startup task. The channel \<open>workerReady\<close> lets the
  second fail only after the first has printed; the first waits for the end of the context.
  \<open>None\<close> is a goroutine that waits for ever.
\<close>

definition runner_main :: "(string list \<times> error option) option" where
  "runner_main =
     (let r = NewRunner live_ctx;
          r = runner_Run 0 r;
          r = runner_Run 1 r;
          out = [''background task: waiting for cancellation''];
          out = out @ [''startup task: configuration validation failed''];
          r = runner_finish 1 (Some errConfigurationMissing) r
      in if ctx_err (rn_ctx r) = None then None
         else
           let out = out @ [''background task: stopped ('' @
                  (case ctx_cause (rn_ctx r) of Some (NewError i t) \<Rightarrow> t | _ \<Rightarrow> ''context canceled'') @ '')''];
               r = runner_finish 0 None r
           in case runner_Wait r of
                None \<Rightarrow> None
              | Some (r, err) \<Rightarrow>
                  Some (if \<not> is_error err errConfigurationMissing then out
                        else out @ [''runner returned: configuration is missing''], err))"

lemma runner_output:
  "runner_main = Some ([''background task: waiting for cancellation'', ''startup task: configuration validation failed'',
     ''background task: stopped (configuration is missing)'', ''runner returned: configuration is missing''],
     Some errConfigurationMissing)"
  by (simp add: runner_main_def NewRunner_def runner_Run_def runner_finish_def runner_Wait_def inherit_def live_ctx_def
      cancel_cause_def errConfigurationMissing_def Let_def)

end
