(* ===== verification/Gx_Example_Runtime.thy ===== *)
theory Gx_Example_Runtime imports Gx_Runtime_Tasks Gx_Runtime_Hooks Gx_Chan begin

text \<open>
  \<open>examples/runtime/main.go\<close>: an application of two containers, a server and a worker, run by
  the runtime of \<open>Gx_Runtime\<close>. Its hooks and tasks are the functions of the program, its
  parent context is the one of the signals. A hook is one step at its return, since what it
  does to the runtime is its own business until then; a hook or task that waits has no step.
  Every step is one, or a few, of the runtime, so all that is shown of the runtime holds.
\<close>

section \<open>Data\<close>

datatype app_fn =
    CreateServer | ServerRun | StopAccepting | CloseResources
  | BuildWorker | WorkerRun | VerifyServer | FinalizeWorker

datatype app_type = ConfigType | ServerType | WorkerType

text \<open>
  Pointers: the server and the worker of the program live in \<open>ap_server\<close> and \<open>ap_worker\<close>. A
  worker is its message, a config its name.
\<close>

datatype app_value = ConfigValue string | ServerValue | WorkerValue string | ZeroValue

fun app_asserts :: "app_type \<Rightarrow> app_value \<Rightarrow> bool" where
  "app_asserts ConfigType (ConfigValue name) = True"
| "app_asserts ServerType ServerValue = True"
| "app_asserts WorkerType (WorkerValue message) = True"
| "app_asserts t v = False"

type_synonym app_rt = "(app_fn, app_type, app_value) rt_sys"

record app_server =
  sv_ready :: "unit chan"
  sv_stop :: "unit chan"
  sv_readyOnce :: bool
  sv_stopOnce :: bool

definition new_server :: app_server where
  "new_server = \<lparr>sv_ready = chan_make 0, sv_stop = chan_make 0, sv_readyOnce = False, sv_stopOnce = False\<rparr>"

text \<open>
  \<open>ap_serving\<close> and \<open>ap_greeted\<close> say whether the two tasks are past their first action;
  \<open>ap_out\<close> is what the program itself logs, a message with its attributes.
\<close>

record app =
  ap_rt :: app_rt
  ap_server :: app_server
  ap_worker :: app_value
  ap_serving :: bool
  ap_greeted :: bool
  ap_out :: "(string \<times> (string \<times> string) list) list"
  ap_panicked :: bool

definition say :: "string \<Rightarrow> (string \<times> string) list \<Rightarrow> app \<Rightarrow> app" where
  "say msg attrs a = a\<lparr>ap_out := ap_out a @ [(msg, attrs)]\<rparr>"

section \<open>Calls of the runtime and of containers\<close>

definition sys_runtime ::
  "(('h, 't, 'v) runtime \<Rightarrow> ('h, 't, 'v) runtime go) \<Rightarrow> ('h, 't, 'v) rt_sys \<Rightarrow> ('h, 't, 'v) rt_sys go" where
  "sys_runtime f y = go_bind (f (sy_rt y)) (\<lambda>r. Ret (y\<lparr>sy_rt := r\<rparr>))"

definition sys_container ::
  "nat \<Rightarrow> (('h, 't, 'v) container \<Rightarrow> ('h, 't, 'v) container go) \<Rightarrow> ('h, 't, 'v) rt_sys \<Rightarrow> ('h, 't, 'v) rt_sys go" where
  "sys_container i f y = go_bind (f (ct y i)) (\<lambda>c. Ret (put_ct i c y))"

definition sys_Run :: "nat \<Rightarrow> string \<Rightarrow> 'h \<Rightarrow> ('h, 't, 'v) rt_sys \<Rightarrow> ('h, 't, 'v) rt_sys go" where
  "sys_Run i name f y =
     go_bind (container_Run (sy_next y) name (Some f) (ct y i, rt_runner (sy_rt y))) (\<lambda>res.
       case res of
         Registered c \<Rightarrow> Ret (put_ct i c y)
       | Launched (c, r) \<Rightarrow> Ret (launch i [\<lparr>hk_fn = f, hk_name = name\<rparr>] (put_runner r (put_ct i c y))))"

section \<open>The server\<close>

text \<open>The once-guarded closes of the two channels.\<close>

definition server_ready :: "app_server \<Rightarrow> app_server go" where
  "server_ready s =
     (if sv_readyOnce s then Ret s
      else go_bind (chan_close (sv_ready s)) (\<lambda>ch. Ret (s\<lparr>sv_ready := ch, sv_readyOnce := True\<rparr>)))"

definition server_stopping :: "app_server \<Rightarrow> app_server go" where
  "server_stopping s =
     (if sv_stopOnce s then Ret s
      else go_bind (chan_close (sv_stop s)) (\<lambda>ch. Ret (s\<lparr>sv_stop := ch, sv_stopOnce := True\<rparr>)))"

definition newServer :: "nat \<Rightarrow> app \<Rightarrow> app go" where
  "newServer i a =
     go_bind (sys_Run i ''serve'' ServerRun (ap_rt a)) (\<lambda>y.
     go_bind (sys_container i (container_OnStopping ''stop accepting requests'' (Some StopAccepting)) y) (\<lambda>y.
     go_bind (sys_container i (container_OnStop ''close resources'' (Some CloseResources)) y) (\<lambda>y.
       Ret (a\<lparr>ap_server := new_server, ap_rt := y\<rparr>))))"

definition server_close :: "app \<Rightarrow> app" where
  [simp]: "server_close a = say ''server resources closed'' [] a"

text \<open>A \<open>select\<close> is the list of its possible outcomes, empty when it blocks.\<close>

definition server_select :: "ctx \<Rightarrow> app_server \<Rightarrow> error option list" where
  "server_select ctx s =
     (if ctx_err ctx \<noteq> None then [ctx_err ctx] else []) @ (if ch_closed (sv_stop s) then [None] else [])"

definition waitReady :: "ctx \<Rightarrow> app_server \<Rightarrow> error option list" where
  "waitReady ctx s =
     (if ch_closed (sv_ready s) then [None] else []) @ (if ctx_err ctx \<noteq> None then [ctx_err ctx] else [])"

section \<open>The worker\<close>

definition attachWorker :: "app_rt \<Rightarrow> app_rt go" where
  "attachWorker y =
     go_bind (sys_runtime (runtime_Attach ''worker'') y) (\<lambda>y.
       let i = cts y - 1
       in go_bind (sys_container i (container_OnInit ''build worker'' (Some BuildWorker)) y) (\<lambda>y.
          go_bind (sys_container i (container_OnStart ''verify server'' (Some VerifyServer)) y) (\<lambda>y.
          sys_container i (container_OnStop ''finalize worker'' (Some FinalizeWorker)) y)))"

definition app_Global :: "app_type \<Rightarrow> app_rt \<Rightarrow> app_value go" where
  "app_Global t y = container_Global app_asserts ZeroValue t (sy_rt y)"

fun config_Name :: "app_value \<Rightarrow> string" where
  "config_Name (ConfigValue name) = name"
| "config_Name v = []"

fun worker_message :: "app_value \<Rightarrow> string" where
  "worker_message (WorkerValue message) = message"
| "worker_message v = []"

definition buildWorker :: "nat \<Rightarrow> app \<Rightarrow> app go" where
  "buildWorker i a =
     go_bind (app_Global ConfigType (ap_rt a)) (\<lambda>cfg.
     go_bind (app_Global ServerType (ap_rt a)) (\<lambda>server.
       let worker = WorkerValue (''hello from '' @ config_Name cfg)
       in go_bind (sys_container i (container_Set WorkerType (Some worker)) (ap_rt a)) (\<lambda>y.
          go_bind (sys_Run i ''greeting'' WorkerRun y) (\<lambda>y.
            Ret (a\<lparr>ap_worker := worker, ap_rt := y\<rparr>)))))"

definition verifyServer :: "app \<Rightarrow> (app \<times> error option) go list" where
  "verifyServer a =
     (case go_bind (app_Global ServerType (ap_rt a)) (\<lambda>server. app_Global ConfigType (ap_rt a)) of
        Panic m \<Rightarrow> [Panic m]
      | Ret cfg \<Rightarrow>
          map (\<lambda>err. Ret (if err = None
                 then say ''worker startup complete'' [(''application'', config_Name cfg)] a else a, err))
            (waitReady (container_Ctx (sy_rt (ap_rt a))) (ap_server a)))"

definition finalize :: "app \<Rightarrow> app" where
  [simp]: "finalize a = say ''worker finalized'' [] a"

definition worker_finalize :: "nat \<Rightarrow> app \<Rightarrow> app go" where
  "worker_finalize i a =
     go_bind (container_Get app_asserts ZeroValue WorkerType (ct (ap_rt a) i)) (\<lambda>w.
       Ret (finalize a))"

section \<open>The program\<close>

definition app_setup :: "app_rt go" where
  "app_setup =
     go_bind (sys_runtime (runtime_Set ConfigType (Some (ConfigValue ''gx runtime example''))) rt_start) (\<lambda>y.
     go_bind (sys_runtime (runtime_Create ''server'' (Some CreateServer)) y) attachWorker)"

definition app_options :: run_options where
  "app_options =
     \<lparr>ro_NoSignals = False, ro_Signals = [''interrupt'', ''terminated''], ro_ShutdownTimeout = 10 * 1000000000\<rparr>"

text \<open>What a hook of container \<open>i\<close> can do; none of the outcomes while it waits.\<close>

fun app_hook :: "app_fn \<Rightarrow> nat \<Rightarrow> app \<Rightarrow> (app \<times> error option) go list" where
  "app_hook CreateServer i a =
     [go_bind (newServer i a) (\<lambda>a.
      go_bind (create_hook ServerType (Inr (Some ServerValue)) (sy_rt (ap_rt a))) (\<lambda>(r, err).
        Ret (a\<lparr>ap_rt := (ap_rt a)\<lparr>sy_rt := r\<rparr>\<rparr>, err)))]"
| "app_hook StopAccepting i a =
     [go_bind (server_stopping (ap_server a)) (\<lambda>s. Ret (say ''server is stopping'' [] (a\<lparr>ap_server := s\<rparr>), None))]"
| "app_hook CloseResources i a = [Ret (server_close a, None)]"
| "app_hook BuildWorker i a = [go_bind (buildWorker i a) (\<lambda>a. Ret (a, None))]"
| "app_hook VerifyServer i a = verifyServer a"
| "app_hook FinalizeWorker i a = [go_bind (worker_finalize i a) (\<lambda>a. Ret (a, None))]"
| "app_hook f i a = []"

text \<open>
  The hook the goroutine of \<open>Run\<close> or the shutdown is in, with the phase, the container, and
  the step of the runtime that takes its result.
\<close>

definition hook_in :: "app_rt \<Rightarrow> (rt_phase \<times> nat \<times> app_fn hook) option" where
  "hook_in y =
     (case sy_main y of
        MainInitCall i h hs \<Rightarrow> Some (PhInit, i, h)
      | MainStartCall i h hs \<Rightarrow> Some (PhStart, i, h)
      | _ \<Rightarrow>
          (case sy_sh y of
             ShStopping i (h # hs) stops e \<Rightarrow> Some (PhStopping, i, h)
           | ShStop i (h # hs) e \<Rightarrow> Some (PhStop, i, h)
           | _ \<Rightarrow> None))"

definition hook_returns :: "rt_phase \<Rightarrow> nat \<Rightarrow> app_fn hook \<Rightarrow> error option \<Rightarrow> app_rt \<Rightarrow> app_rt \<Rightarrow> bool" where
  "hook_returns ph i h err y z \<longleftrightarrow>
     (main_step y z \<or> shutdown_step y z) \<and>
     sy_log z = sy_log y @ [\<lparr>ev_ct = i, ev_err = hook_error (ct y i) h err, ev_hook = hk_name h, ev_phase = ph\<rparr>]"

text \<open>The tasks whose function runs. The context of a task is the one of the runtime.\<close>

definition bodies :: "app_rt \<Rightarrow> task_run list" where
  "bodies y = filter (\<lambda>t. tk_pc t = TaskBody) (sy_tasks y)"

definition task_returned :: "nat \<Rightarrow> task_run \<Rightarrow> error option \<Rightarrow> app_rt \<Rightarrow> app_rt" where
  "task_returned k t err y =
     set_task k (TaskStop (task_result (rt_ctx (sy_rt y)) (ct_name (ct y (tk_ct t))) (tk_name t) err)) y"

definition in_task :: "nat \<Rightarrow> task_run \<Rightarrow> string \<Rightarrow> app \<Rightarrow> bool" where
  "in_task k t name a \<longleftrightarrow> task_at k t (ap_rt a) \<and> tk_pc t = TaskBody \<and> tk_name t = name"

text \<open>
  The steps of the goroutines of the program once \<open>Run\<close> has been called: of \<open>Run\<close> and the
  shutdown between hooks, the ends of hooks, and the tasks. Each arm of a \<open>select\<close> that is
  ready is a step.
\<close>

inductive app_own :: "app \<Rightarrow> app \<Rightarrow> bool" where
  goes_on:
    "sy_main (ap_rt a) \<noteq> MainSetup \<Longrightarrow> main_step (ap_rt a) z \<or> shutdown_step (ap_rt a) z \<Longrightarrow>
     sy_log z = sy_log (ap_rt a) \<Longrightarrow> app_own a (a\<lparr>ap_rt := z\<rparr>)"
| hook_ends:
    "hook_in (ap_rt a) = Some (ph, i, h) \<Longrightarrow> Ret (b, err) \<in> set (app_hook (hk_fn h) i a) \<Longrightarrow>
     hook_returns ph i h err (ap_rt b) z \<Longrightarrow> app_own a (b\<lparr>ap_rt := z\<rparr>)"
| hook_panics:
    "hook_in (ap_rt a) = Some (ph, i, h) \<Longrightarrow> Panic m \<in> set (app_hook (hk_fn h) i a) \<Longrightarrow>
     app_own a (a\<lparr>ap_panicked := True\<rparr>)"
| serves:
    "in_task k t ''serve'' a \<Longrightarrow> \<not> ap_serving a \<Longrightarrow> server_ready (ap_server a) = Ret s \<Longrightarrow>
     app_own a (a\<lparr>ap_server := s, ap_serving := True\<rparr>)"
| serve_panics:
    "in_task k t ''serve'' a \<Longrightarrow> \<not> ap_serving a \<Longrightarrow> server_ready (ap_server a) = Panic m \<Longrightarrow>
     app_own a (a\<lparr>ap_panicked := True\<rparr>)"
| serve_returns:
    "in_task k t ''serve'' a \<Longrightarrow> ap_serving a \<Longrightarrow>
     err \<in> set (server_select (rt_ctx (sy_rt (ap_rt a))) (ap_server a)) \<Longrightarrow>
     app_own a (a\<lparr>ap_rt := task_returned k t err (ap_rt a)\<rparr>)"
| greets:
    "in_task k t ''greeting'' a \<Longrightarrow> \<not> ap_greeted a \<Longrightarrow> ch_closed (sv_ready (ap_server a)) \<Longrightarrow>
     app_own a (say ''worker running'' [(''message'', worker_message (ap_worker a))] (a\<lparr>ap_greeted := True\<rparr>))"
| greeting_returns:
    "in_task k t ''greeting'' a \<Longrightarrow> err = ctx_err (rt_ctx (sy_rt (ap_rt a))) \<Longrightarrow> err \<noteq> None \<Longrightarrow>
     app_own a (a\<lparr>ap_rt := task_returned k t err (ap_rt a)\<rparr>)"
| task_ends:
    "task_step (ap_rt a) z \<Longrightarrow> bodies z = bodies (ap_rt a) \<Longrightarrow> app_own a (a\<lparr>ap_rt := z\<rparr>)"
text \<open>The program calls \<open>Run\<close>, its goroutines go on, or a context changes.\<close>

inductive app_move :: "app \<Rightarrow> app \<Rightarrow> bool" where
  runs:
    "sy_main (ap_rt a) = MainSetup \<Longrightarrow>
     runtime_Run_begin (Some parent) [app_options] (sy_rt (ap_rt a)) = Ret r \<Longrightarrow>
     ctx_wf parent \<Longrightarrow> ctx_err parent \<in> {None, Some Canceled} \<Longrightarrow>
     app_move a (a\<lparr>ap_rt := main_at (MainInit 0) ((ap_rt a)\<lparr>sy_rt := r, sy_parent := parent, sy_deadline := False\<rparr>)\<rparr>)"
| by_program: "app_own a b \<Longrightarrow> app_move a b"
| context_changes:
    "context_step (ap_rt a) z \<Longrightarrow>
     sy_parent z = sy_parent (ap_rt a) \<or> ctx_err (sy_parent z) = Some Canceled \<Longrightarrow>
     app_move a (a\<lparr>ap_rt := z\<rparr>)"

text \<open>A panic ends the program.\<close>

definition app_step :: "app \<Rightarrow> app \<Rightarrow> bool" where
  "app_step a b \<longleftrightarrow> \<not> ap_panicked a \<and> app_move a b"

definition app_start :: "app \<Rightarrow> bool" where
  "app_start a \<longleftrightarrow>
     app_setup = Ret (ap_rt a) \<and> \<not> ap_serving a \<and> \<not> ap_greeted a \<and> ap_out a = [] \<and> \<not> ap_panicked a"

end
