(* ===== verification/Gx_Example_Runtime_Inv.thy ===== *)
theory Gx_Example_Runtime_Inv imports Gx_Example_Runtime begin

text \<open>
  The program of \<open>Gx_Example_Runtime\<close> runs the runtime, so the states it reaches are reachable
  states of \<open>Gx_Runtime\<close>; and where its hooks and tasks are in their order, in every step but
  the calls of hooks.
\<close>

section \<open>A run of the program is one of the runtime\<close>

lemma Ret_eq_bind: "Ret x = go_bind m f \<longleftrightarrow> (\<exists>y. m = Ret y \<and> f y = Ret x)"
  by (metis go_bind_eq_Ret)

lemma api_runtime:
  "sys_runtime (runtime_Set t v) y = Ret z \<Longrightarrow> api_step y z"
  "sys_runtime (runtime_Create n (Some h)) y = Ret z \<Longrightarrow> api_step y z"
  "sys_runtime (runtime_Attach n) y = Ret z \<Longrightarrow> api_step y z"
  by (auto simp: sys_runtime_def go_bind_eq_Ret intro: attaches creates sets_global)

lemma api_container:
  assumes "i < cts y"
  shows "sys_container i (container_OnInit n (Some h)) y = Ret z \<Longrightarrow> api_step y z"
    and "sys_container i (container_OnStart n (Some h)) y = Ret z \<Longrightarrow> api_step y z"
    and "sys_container i (container_OnStop n (Some h)) y = Ret z \<Longrightarrow> api_step y z"
    and "sys_container i (container_OnStopping n (Some h)) y = Ret z \<Longrightarrow> api_step y z"
    and "sys_container i (container_Set t v) y = Ret z \<Longrightarrow> api_step y z"
  using assms by (auto simp: sys_container_def go_bind_eq_Ret intro: registers)

lemma Run_cases:
  assumes "sys_Run i n f y = Ret z"
  obtains c where "container_Run (sy_next y) n (Some f) (ct y i, rt_runner (sy_rt y)) = Ret (Registered c)"
      "z = put_ct i c y"
  | c r where "container_Run (sy_next y) n (Some f) (ct y i, rt_runner (sy_rt y)) = Ret (Launched (c, r))"
      "z = launch i [\<lparr>hk_fn = f, hk_name = n\<rparr>] (put_runner r (put_ct i c y))"
proof -
  obtain res where res: "container_Run (sy_next y) n (Some f) (ct y i, rt_runner (sy_rt y)) = Ret res"
    using assms by (auto simp: sys_Run_def go_bind_eq_Ret)
  show thesis
  proof (cases res)
    case (Registered c)
    then show ?thesis using assms res that(1) by (simp add: sys_Run_def)
  next
    case (Launched cr)
    then show ?thesis using assms res that(2) by (cases cr) (simp add: sys_Run_def)
  qed
qed

lemma api_Run:
  assumes "sys_Run i n f y = Ret z" and "i < cts y"
  shows "api_step y z"
  using assms(1) by (rule Run_cases) (use assms(2) in \<open>auto intro: registers_task launches_task\<close>)

lemma cts_container: "sys_container i f y = Ret z \<Longrightarrow> cts z = cts y"
  by (auto simp: sys_container_def go_bind_eq_Ret put_ct_def)

lemma cts_Run: "sys_Run i n f y = Ret z \<Longrightarrow> cts z = cts y"
  by (erule Run_cases) (simp_all add: put_ct_def launch_def put_runner_def)

lemma newServer_api:
  assumes "newServer i a = Ret b" and "i < cts (ap_rt a)"
  shows "api_step\<^sup>*\<^sup>* (ap_rt a) (ap_rt b)"
proof -
  obtain y1 y2 y3 where y: "sys_Run i ''serve'' ServerRun (ap_rt a) = Ret y1"
      "sys_container i (container_OnStopping ''stop accepting requests'' (Some StopAccepting)) y1 = Ret y2"
      "sys_container i (container_OnStop ''close resources'' (Some CloseResources)) y2 = Ret y3"
      "ap_rt b = y3"
    using assms(1) by (auto simp: newServer_def go_bind_eq_Ret)
  have "api_step (ap_rt a) y1" "api_step y1 y2" "api_step y2 y3"
    using api_Run [OF y(1) assms(2)] api_container(4) [OF _ y(2)] api_container(3) [OF _ y(3)] cts_Run [OF y(1)]
      cts_container [OF y(2)] assms(2) by simp_all
  then show ?thesis
    unfolding y(4) by (meson converse_rtranclp_into_rtranclp r_into_rtranclp)
qed

lemma buildWorker_api:
  assumes "buildWorker i a = Ret b" and "i < cts (ap_rt a)"
  shows "api_step\<^sup>*\<^sup>* (ap_rt a) (ap_rt b)"
proof -
  obtain v y1 y2 where y: "sys_container i (container_Set WorkerType (Some v)) (ap_rt a) = Ret y1"
      "sys_Run i ''greeting'' WorkerRun y1 = Ret y2" "ap_rt b = y2"
    using assms(1) by (auto simp: buildWorker_def go_bind_eq_Ret Let_def)
  have "api_step (ap_rt a) y1" "api_step y1 y2"
    using api_container(5) [OF assms(2) y(1)] api_Run [OF y(2)] cts_container [OF y(1)] assms(2) by simp_all
  then show ?thesis
    unfolding y(3) by (meson converse_rtranclp_into_rtranclp r_into_rtranclp)
qed

lemma say_rt [simp]: "ap_rt (say m as a) = ap_rt a"
  by (simp add: say_def)

lemma create_hook_api:
  assumes "create_hook t (Inr v) (sy_rt y) = Ret (r, err)"
  shows "api_step y (y\<lparr>sy_rt := r\<rparr>)"
  using assms by (auto simp: create_hook_def go_bind_eq_Ret intro: sets_global)

text \<open>Whatever a hook does before it returns are calls anybody may make.\<close>

lemma app_hook_api:
  assumes "Ret (b, err) \<in> set (app_hook f i a)" and "i < cts (ap_rt a)"
  shows "api_step\<^sup>*\<^sup>* (ap_rt a) (ap_rt b)"
proof (cases f)
  case CreateServer
  then obtain a1 r where a1: "newServer i a = Ret a1"
      "create_hook ServerType (Inr (Some ServerValue)) (sy_rt (ap_rt a1)) = Ret (r, err)"
      "b = a1\<lparr>ap_rt := (ap_rt a1)\<lparr>sy_rt := r\<rparr>\<rparr>"
    using assms(1) by (auto simp: Ret_eq_bind go_bind_eq_Ret)
  then show ?thesis
    using newServer_api [OF a1(1) assms(2)] create_hook_api [OF a1(2)] by (simp add: rtranclp.rtrancl_into_rtrancl)
next
  case BuildWorker
  then show ?thesis
    using assms by (auto simp: Ret_eq_bind intro: buildWorker_api)
qed (use assms in \<open>auto simp: Ret_eq_bind go_bind_eq_Ret verifyServer_def worker_finalize_def split: go.splits\<close>)

lemma reach_api: "api_step\<^sup>*\<^sup>* y z \<Longrightarrow> reach rt_new rt_step y \<Longrightarrow> reach rt_new rt_step z"
  by (induction rule: rtranclp_induct) (auto intro: reach_step by_api)

lemma hook_in_ct:
  assumes "reach rt_new rt_step y" and "hook_in y = Some (ph, i, h)"
  shows "i < cts y"
proof -
  note ctl = runtime_control.reach_inv [OF assms(1)]
  show ?thesis
    using assms(2) main_ok_of [OF ctl refl] sh_ok_of [OF ctl refl]
    by (auto simp: hook_in_def split: main_pc.splits sh_pc.splits list.splits)
qed

lemma task_returned_step:
  assumes "in_task k t name a"
  shows "task_step (ap_rt a) (task_returned k t err (ap_rt a))"
  using assms unfolding in_task_def task_returned_def by (blast intro: task_returns)

lemma app_move_rt:
  assumes "app_move a b" and r: "reach rt_new rt_step (ap_rt a)"
  shows "reach rt_new rt_step (ap_rt b)"
  using assms(1)
proof cases
  case (runs parent r')
  have "main_step (ap_rt a) (ap_rt b)"
    unfolding runs(1) using runs(2-5) by (auto intro!: run_begins)
  then show ?thesis using r by (blast intro: reach_step by_main)
next
  case by_program
  then show ?thesis
  proof cases
    case (goes_on z)
    then show ?thesis using r by (auto intro: reach_step by_main by_shutdown)
  next
    case (hook_ends ph i h c err z)
    have "reach rt_new rt_step (ap_rt c)"
      using app_hook_api [OF hook_ends(3) hook_in_ct [OF r hook_ends(2)]] r by (rule reach_api)
    then show ?thesis
      using hook_ends(1,4) by (auto simp: hook_returns_def intro: reach_step by_main by_shutdown)
  next
    case (serve_returns k t err)
    then show ?thesis using task_returned_step r by (auto intro!: reach_step [OF r] by_task)
  next
    case (greeting_returns k t err)
    then show ?thesis using task_returned_step r by (auto intro!: reach_step [OF r] by_task)
  next
    case (task_ends z)
    then show ?thesis using r by (auto intro: reach_step by_task)
  qed (use r in simp_all)
next
  case (context_changes z)
  then show ?thesis using r by (auto intro: reach_step by_context)
qed

lemma app_setup_reach:
  assumes "app_setup = Ret y"
  shows "reach rt_new rt_step (y :: app_rt)"
proof -
  obtain y1 y2 y3 y4 y5 where y: "sys_runtime (runtime_Set ConfigType (Some (ConfigValue ''gx runtime example''))) rt_start = Ret y1"
      "sys_runtime (runtime_Create ''server'' (Some CreateServer)) y1 = Ret y2"
      "sys_runtime (runtime_Attach ''worker'') y2 = Ret y3"
      "sys_container (cts y3 - 1) (container_OnInit ''build worker'' (Some BuildWorker)) y3 = Ret y4"
      "sys_container (cts y3 - 1) (container_OnStart ''verify server'' (Some VerifyServer)) y4 = Ret y5"
      "sys_container (cts y3 - 1) (container_OnStop ''finalize worker'' (Some FinalizeWorker)) y5 = Ret y"
    using assms by (auto simp: app_setup_def attachWorker_def go_bind_eq_Ret Let_def)
  have "0 < cts y3"
    using y(3) by (auto simp: sys_runtime_def go_bind_eq_Ret dest!: attach_cases)
  then have i: "cts y3 - 1 < cts y3" "cts y3 - 1 < cts y4" "cts y3 - 1 < cts y5"
    using cts_container [OF y(4)] cts_container [OF y(5)] by simp_all
  have "api_step rt_start y1" "api_step y1 y2" "api_step y2 y3" "api_step y3 y4" "api_step y4 y5" "api_step y5 y"
    using api_runtime(1) [OF y(1)] api_runtime(2) [OF y(2)] api_runtime(3) [OF y(3)] api_container(1) [OF i(1) y(4)]
      api_container(2) [OF i(2) y(5)] api_container(3) [OF i(3) y(6)] by simp_all
  then have "api_step\<^sup>*\<^sup>* rt_start y"
    by (meson converse_rtranclp_into_rtranclp r_into_rtranclp)
  then show ?thesis
    by (rule reach_api) (simp add: rt_new_def reach_start)
qed

lemma app_reach_rt: "reach app_start app_step a \<Longrightarrow> reach rt_new rt_step (ap_rt a)"
  by (induction rule: reach.induct) (auto simp: app_start_def app_step_def intro: app_setup_reach app_move_rt)

section \<open>The hooks in order\<close>

text \<open>
  How far the program is: \<open>cr\<close>, the server has been created, \<open>bu\<close>, the worker has been built.
  \<open>lv\<close> is the liveness of the context.
\<close>

abbreviation h_create :: "app_fn hook" where "h_create \<equiv> \<lparr>hk_fn = CreateServer, hk_name = ''create''\<rparr>"
abbreviation h_build :: "app_fn hook" where "h_build \<equiv> \<lparr>hk_fn = BuildWorker, hk_name = ''build worker''\<rparr>"
abbreviation h_verify :: "app_fn hook" where "h_verify \<equiv> \<lparr>hk_fn = VerifyServer, hk_name = ''verify server''\<rparr>"
abbreviation h_stopping :: "app_fn hook" where
  "h_stopping \<equiv> \<lparr>hk_fn = StopAccepting, hk_name = ''stop accepting requests''\<rparr>"
abbreviation h_close :: "app_fn hook" where "h_close \<equiv> \<lparr>hk_fn = CloseResources, hk_name = ''close resources''\<rparr>"
abbreviation h_finalize :: "app_fn hook" where "h_finalize \<equiv> \<lparr>hk_fn = FinalizeWorker, hk_name = ''finalize worker''\<rparr>"
abbreviation h_serve :: "app_fn hook" where "h_serve \<equiv> \<lparr>hk_fn = ServerRun, hk_name = ''serve''\<rparr>"
abbreviation h_greeting :: "app_fn hook" where "h_greeting \<equiv> \<lparr>hk_fn = WorkerRun, hk_name = ''greeting''\<rparr>"

type_synonym app_ct = "(app_fn, app_type, app_value) container"

definition server_ct :: "bool \<Rightarrow> app_ct \<Rightarrow> bool" where
  "server_ct cr c \<longleftrightarrow>
     ct_name c = ''server'' \<and> ct_initFns c = [h_create] \<and> ct_startFns c = [] \<and>
     ct_stoppingFns c = (if cr then [h_stopping] else []) \<and> ct_stopFns c = (if cr then [h_close] else []) \<and>
     set (ct_tasks c) \<subseteq> {h_serve}"

definition worker_ct :: "bool \<Rightarrow> app_ct \<Rightarrow> bool" where
  "worker_ct bu c \<longleftrightarrow>
     ct_name c = ''worker'' \<and> ct_initFns c = [h_build] \<and> ct_startFns c = [h_verify] \<and>
     ct_stoppingFns c = [] \<and> ct_stopFns c = [h_finalize] \<and> set (ct_tasks c) \<subseteq> {h_greeting} \<and>
     store_get WorkerType (ct_store c) = (if bu then Some (Some (WorkerValue ''hello from gx runtime example'')) else None)"

text \<open>A task is launched at most once.\<close>

definition task_count :: "nat \<Rightarrow> app_rt \<Rightarrow> nat" where
  "task_count i y = length (ct_tasks (ct y i)) + length (filter (\<lambda>t. tk_ct t = i) (sy_tasks y))"

fun task_error :: "task_pc \<Rightarrow> error option" where
  "task_error TaskBody = None"
| "task_error (TaskStop err) = err"
| "task_error (TaskDone err) = err"
| "task_error (TaskReport err) = err"

definition task_fine :: "task_run \<Rightarrow> bool" where
  "task_fine t \<longleftrightarrow> task_error (tk_pc t) = None \<and>
     (tk_ct t = 0 \<and> tk_name t = ''serve'' \<or> tk_ct t = 1 \<and> tk_name t = ''greeting'')"

fun main_app :: "bool \<Rightarrow> bool \<Rightarrow> bool \<Rightarrow> app_fn main_pc \<Rightarrow> bool" where
  "main_app lv cr bu MainSetup \<longleftrightarrow> \<not> cr \<and> \<not> bu"
| "main_app lv cr bu (MainInit i) \<longleftrightarrow>
     (lv \<longrightarrow> (0 < i \<longrightarrow> cr) \<and> (1 < i \<longrightarrow> bu)) \<and> (i = 0 \<longrightarrow> \<not> cr) \<and> (i \<le> 1 \<longrightarrow> \<not> bu)"
| "main_app lv cr bu (MainInitHooks i hs) \<longleftrightarrow>
     i = 0 \<and> \<not> bu \<and> (hs = [h_create] \<and> \<not> cr \<or> hs = [] \<and> cr) \<or>
     i = 1 \<and> cr \<and> (hs = [h_build] \<and> \<not> bu \<or> hs = [] \<and> bu)"
| "main_app lv cr bu (MainInitCall i h hs) \<longleftrightarrow>
     hs = [] \<and> \<not> bu \<and> (i = 0 \<and> h = h_create \<and> \<not> cr \<or> i = 1 \<and> h = h_build \<and> cr)"
| "main_app lv cr bu MainStarting \<longleftrightarrow> (lv \<longrightarrow> cr \<and> bu)"
| "main_app lv cr bu (MainStart i) \<longleftrightarrow> cr \<and> bu"
| "main_app lv cr bu (MainStartHooks i hs) \<longleftrightarrow> cr \<and> bu \<and> (hs = [] \<or> i = 1 \<and> hs = [h_verify])"
| "main_app lv cr bu (MainStartCall i h hs) \<longleftrightarrow> cr \<and> bu \<and> i = 1 \<and> h = h_verify \<and> hs = []"
| "main_app lv cr bu (MainFail e) \<longleftrightarrow> \<not> lv"
| "main_app lv cr bu (MainCancel e) \<longleftrightarrow> False"
| "main_app lv cr bu p \<longleftrightarrow> True"

fun sh_app :: "bool \<Rightarrow> bool \<Rightarrow> app_fn sh_pc \<Rightarrow> bool" where
  "sh_app cr bu (ShStopping i hs stops e) \<longleftrightarrow>
     e = None \<and>
     (i = 1 \<and> hs = [] \<and> stops = [h_finalize] \<or>
      i = 0 \<and> (hs = [] \<or> cr \<and> hs = [h_stopping]) \<and> stops = (if cr then [h_close] else []))"
| "sh_app cr bu (ShStop i hs e) \<longleftrightarrow>
     e = None \<and> (i = 1 \<and> (hs = [h_finalize] \<or> hs = [] \<and> bu) \<or> i = 0 \<and> (hs = [] \<or> cr \<and> hs = [h_close]))"
| "sh_app cr bu p \<longleftrightarrow> True"

definition ctx_quiet :: "ctx \<Rightarrow> bool" where
  "ctx_quiet c \<longleftrightarrow> ctx_err c = None \<or> ctx_err c = Some Canceled"

definition rt_app :: "bool \<Rightarrow> bool \<Rightarrow> app_rt \<Rightarrow> bool" where
  "rt_app cr bu y \<longleftrightarrow>
     cts y = 2 \<and> server_ct cr (ct y 0) \<and> worker_ct bu (ct y 1) \<and> (bu \<longrightarrow> cr) \<and>
     task_count 0 y \<le> of_bool cr \<and> task_count 1 y \<le> of_bool bu \<and>
     store_get ConfigType (rt_store (sy_rt y)) = Some (Some (ConfigValue ''gx runtime example'')) \<and>
     store_get ServerType (rt_store (sy_rt y)) = (if cr then Some (Some ServerValue) else None) \<and>
     main_app (live y) cr bu (sy_main y) \<and> sh_app cr bu (sy_sh y) \<and>
     (\<forall>t \<in> set (sy_tasks y). task_fine t) \<and>
     sy_reported y = [] \<and> rt_stopErr (sy_rt y) = None \<and> \<not> sy_deadline y \<and>
     ctx_quiet (rt_ctx (sy_rt y)) \<and> ctx_quiet (sy_parent y)"

lemma rt_appD:
  assumes "rt_app cr bu y"
  shows "cts y = 2" "server_ct cr (ct y 0)" "worker_ct bu (ct y 1)" "bu \<Longrightarrow> cr"
    "task_count 0 y \<le> of_bool cr" "task_count 1 y \<le> of_bool bu"
    "store_get ConfigType (rt_store (sy_rt y)) = Some (Some (ConfigValue ''gx runtime example''))"
    "store_get ServerType (rt_store (sy_rt y)) = (if cr then Some (Some ServerValue) else None)"
    "main_app (live y) cr bu (sy_main y)" "sh_app cr bu (sy_sh y)" "\<And>t. t \<in> set (sy_tasks y) \<Longrightarrow> task_fine t"
    "sy_reported y = []" "rt_stopErr (sy_rt y) = None" "\<not> sy_deadline y"
    "ctx_quiet (rt_ctx (sy_rt y))" "ctx_quiet (sy_parent y)"
  using assms by (simp_all add: rt_app_def)

text \<open>A step that leaves the containers and the tasks alone.\<close>

lemma rt_app_frame:
  assumes "rt_app cr bu y" and "rt_containers (sy_rt z) = rt_containers (sy_rt y)" and "sy_tasks z = sy_tasks y"
    and "rt_store (sy_rt z) = rt_store (sy_rt y)" and "main_app (live z) cr bu (sy_main z)" and "sh_app cr bu (sy_sh z)"
    and "sy_reported z = []" and "rt_stopErr (sy_rt z) = None" and "sy_deadline z = sy_deadline y"
    and "ctx_quiet (rt_ctx (sy_rt z))" and "ctx_quiet (sy_parent z)"
  shows "rt_app cr bu z"
  using assms by (simp add: rt_app_def task_count_def)

lemma main_app_mono: "main_app lv cr bu p \<Longrightarrow> (lv' \<Longrightarrow> lv) \<Longrightarrow> main_app lv' cr bu p"
  by (cases p) auto

lemma ctx_quiet_cancel [simp]: "ctx_quiet c \<Longrightarrow> ctx_quiet (cancel_cause e c)"
  by (simp add: ctx_quiet_def cancel_cause_def)

lemma context_step_app:
  assumes "context_step y z" and inv: "rt_app cr bu y"
    and "sy_parent z = sy_parent y \<or> ctx_err (sy_parent z) = Some Canceled"
  shows "rt_app cr bu z"
proof -
  note facts = rt_appD [OF inv]
  have quiet: "ctx_quiet (sy_parent z)"
    using assms(3) facts(16) by (auto simp: ctx_quiet_def)
  have stays: "main_app False cr bu (sy_main y)"
    using facts(9) by (rule main_app_mono) simp
  from assms(1) show ?thesis
  proof cases
    case (parent_ends parent)
    then show ?thesis
      using facts quiet by (intro rt_app_frame [OF inv]) (simp_all add: put_runner_def)
  next
    case parent_mirrored
    then show ?thesis
      using facts quiet stays by (intro rt_app_frame [OF inv]) (simp_all add: put_ctx_def)
  next
    case deadline_hits
    then show ?thesis using facts by simp
  next
    case runner_ends
    then show ?thesis
      using facts quiet stays by (intro rt_app_frame [OF inv]) (simp_all add: put_ctx_def)
  qed
qed

text \<open>A step that changes the states and counters of containers, or ends tasks.\<close>

definition same_hooks :: "app_ct \<Rightarrow> app_ct \<Rightarrow> bool" where
  "same_hooks c d \<longleftrightarrow>
     ct_name d = ct_name c \<and> ct_initFns d = ct_initFns c \<and> ct_startFns d = ct_startFns c \<and>
     ct_stoppingFns d = ct_stoppingFns c \<and> ct_stopFns d = ct_stopFns c \<and> ct_tasks d = ct_tasks c \<and>
     ct_store d = ct_store c"

lemma same_hooks_refl [simp]: "same_hooks c c"
  by (simp add: same_hooks_def)

lemma same_hooks_put:
  "same_hooks (ct y i) c \<Longrightarrow> same_hooks (ct y j) (ct (put_ct i c y) j)"
  by (cases "i < cts y") (auto simp: put_ct_def nth_upd)

lemma same_hooks_ct:
  "same_hooks c d \<Longrightarrow> server_ct cr c \<Longrightarrow> server_ct cr d"
  "same_hooks c d \<Longrightarrow> worker_ct bu c \<Longrightarrow> worker_ct bu d"
  by (simp_all add: same_hooks_def server_ct_def worker_ct_def)

lemma rt_app_change:
  assumes "rt_app cr bu y" and "cts z = cts y" and "\<And>i. same_hooks (ct y i) (ct z i)"
    and "\<And>i. length (filter (\<lambda>t. tk_ct t = i) (sy_tasks z)) \<le> length (filter (\<lambda>t. tk_ct t = i) (sy_tasks y))"
    and "\<And>t. t \<in> set (sy_tasks z) \<Longrightarrow> task_fine t"
    and "rt_store (sy_rt z) = rt_store (sy_rt y)" and "main_app (live z) cr bu (sy_main z)" and "sh_app cr bu (sy_sh z)"
    and "sy_reported z = []" and "rt_stopErr (sy_rt z) = None" and "sy_deadline z = sy_deadline y"
    and "ctx_quiet (rt_ctx (sy_rt z))" and "ctx_quiet (sy_parent z)"
  shows "rt_app cr bu z"
proof -
  have "task_count i z \<le> task_count i y" for i
    using assms(3) [of i] assms(4) [of i] by (simp add: task_count_def same_hooks_def)
  then have "task_count 0 z \<le> of_bool cr" "task_count 1 z \<le> of_bool bu"
    using rt_appD(5,6) [OF assms(1)] order_trans by blast+
  moreover have "server_ct cr (ct z 0)" "worker_ct bu (ct z 1)"
    using same_hooks_ct assms(3) rt_appD(2,3) [OF assms(1)] by blast+
  ultimately show ?thesis
    using assms by (simp add: rt_app_def)
qed

lemma filter_set_task:
  "length (filter (\<lambda>t. tk_ct t = i) (sy_tasks (set_task k p y))) = length (filter (\<lambda>t. tk_ct t = i) (sy_tasks y))"
proof -
  have "map tk_ct (sy_tasks (set_task k p y)) = map tk_ct (sy_tasks y)"
    by (rule nth_equalityI) (auto simp: set_task_def nth_upd)
  then have "length (filter (\<lambda>j. j = i) (map tk_ct (sy_tasks (set_task k p y)))) =
      length (filter (\<lambda>j. j = i) (map tk_ct (sy_tasks y)))"
    by simp
  then show ?thesis
    by (simp add: filter_map o_def)
qed

lemma set_task_fine:
  assumes "task_at k t y" and "\<And>u. u \<in> set (sy_tasks y) \<Longrightarrow> task_fine u" and "task_error p = None"
    and "u \<in> set (sy_tasks (set_task k p y))"
  shows "task_fine u"
proof -
  have "task_fine t"
    using assms(1,2) by (auto simp: task_at_def)
  then have "task_fine (t\<lparr>tk_pc := p\<rparr>)"
    using assms(3) by (simp add: task_fine_def)
  moreover have "u = t\<lparr>tk_pc := p\<rparr> \<or> u \<in> set (sy_tasks y)"
    using assms(1,4) set_update_subset_insert [of "sy_tasks y" k "t\<lparr>tk_pc := p\<rparr>"]
    by (auto simp: set_task_def task_at_def)
  ultimately show ?thesis using assms(2) by auto
qed

lemma set_task_rest [simp]:
  "sy_rt (set_task k p y) = sy_rt y" "sy_main (set_task k p y) = sy_main y" "sy_sh (set_task k p y) = sy_sh y"
  "sy_reported (set_task k p y) = sy_reported y" "sy_deadline (set_task k p y) = sy_deadline y"
  "sy_parent (set_task k p y) = sy_parent y" "sy_log (set_task k p y) = sy_log y"
  by (simp_all add: set_task_def)

lemma put_ct_others [simp]:
  "sy_tasks (put_ct i c y) = sy_tasks y" "sy_main (put_ct i c y) = sy_main y" "sy_sh (put_ct i c y) = sy_sh y"
  "rt_store (sy_rt (put_ct i c y)) = rt_store (sy_rt y)" "rt_ctx (sy_rt (put_ct i c y)) = rt_ctx (sy_rt y)"
  "rt_stopErr (sy_rt (put_ct i c y)) = rt_stopErr (sy_rt y)" "sy_deadline (put_ct i c y) = sy_deadline y"
  "sy_reported (put_ct i c y) = sy_reported y" "sy_parent (put_ct i c y) = sy_parent y"
  by (simp_all add: put_ct_def)

lemma set_task_app:
  assumes "task_at k t y" and inv: "rt_app cr bu y" and "task_error p = None"
  shows "rt_app cr bu (set_task k p y)"
proof (rule rt_app_change [OF inv])
  show "u \<in> set (sy_tasks (set_task k p y)) \<Longrightarrow> task_fine u" for u
    using set_task_fine [OF assms(1) rt_appD(11) [OF inv] assms(3)] .
qed (use rt_appD [OF inv] in \<open>simp_all add: filter_set_task\<close>)

lemma put_ct_app:
  assumes inv: "rt_app cr bu y" and "same_hooks (ct y i) c"
  shows "rt_app cr bu (put_ct i c y)"
  using rt_appD [OF inv] by (intro rt_app_change [OF inv]) (simp_all add: same_hooks_put [OF assms(2)])

lemma task_step_app:
  assumes "task_step y z" and "bodies z = bodies y" and inv: "rt_app cr bu y"
  shows "rt_app cr bu z"
  using assms(1)
proof cases
  case (task_returns k t err)
  have "length (bodies z) < length (bodies y)"
  proof -
    have k: "k < length (sy_tasks y)" "sy_tasks y ! k = t"
      using task_returns(2) by (auto simp: task_at_def)
    have "sy_tasks y = take k (sy_tasks y) @ t # drop (Suc k) (sy_tasks y)"
      using k id_take_nth_drop by metis
    then have "bodies y = filter (\<lambda>t. tk_pc t = TaskBody) (take k (sy_tasks y) @ t # drop (Suc k) (sy_tasks y))"
      by (simp add: bodies_def)
    moreover have "bodies z = filter (\<lambda>t. tk_pc t = TaskBody) (take k (sy_tasks y) @ drop (Suc k) (sy_tasks y))"
      unfolding task_returns(1) using k by (simp add: bodies_def set_task_def upd_conv_take_nth_drop)
    ultimately show ?thesis
      using task_returns(3) by simp
  qed
  then show ?thesis using assms(2) by simp
next
  case (task_stops k t err)
  have err: "err = None"
    using rt_appD(11) [OF inv, of t] task_stops(2,3) by (auto simp: task_at_def task_fine_def)
  have "rt_app cr bu (put_ct (tk_ct t) (container_stopTask (tk_name t) (ct y (tk_ct t))) y)"
    by (rule put_ct_app [OF inv]) (simp add: same_hooks_def container_stopTask_def)
  then show ?thesis
    unfolding task_stops(1) using task_stops(2) err
    by (intro set_task_app) (simp_all add: task_at_def)
next
  case (task_done k t err)
  have err: "err = None"
    using rt_appD(11) [OF inv, of t] task_done(2,3) by (auto simp: task_at_def task_fine_def)
  have "rt_app cr bu (put_ct (tk_ct t) ((ct y (tk_ct t))\<lparr>ct_wg := ct_wg (ct y (tk_ct t)) - 1\<rparr>) y)"
    by (rule put_ct_app [OF inv]) (simp add: same_hooks_def)
  then show ?thesis
    unfolding task_done(1) using task_done(2) err
    by (intro set_task_app) (simp_all add: task_at_def)
next
  case (task_reports k t err)
  have err: "err = None"
    using rt_appD(11) [OF inv, of t] task_reports(2,3) by (auto simp: task_at_def task_fine_def)
  have split: "filter P (sy_tasks y) = filter P (take k (sy_tasks y)) @ filter P (sy_tasks y ! k # drop (Suc k) (sy_tasks y))" for P
    using task_reports(2) by (metis filter_append id_take_nth_drop task_at_def)
  show ?thesis
    unfolding task_reports(1) using rt_appD [OF inv] err
    by (intro rt_app_change [OF inv])
      (auto simp: report_error_def put_runner_def split dest: in_set_takeD in_set_dropD)
qed

text \<open>The caller of \<open>Run\<close>, but for the hooks it calls.\<close>

lemma main_at_others [simp]:
  "sy_tasks (main_at p y) = sy_tasks y" "sy_rt (main_at p y) = sy_rt y" "sy_reported (main_at p y) = sy_reported y"
  "sy_deadline (main_at p y) = sy_deadline y" "sy_parent (main_at p y) = sy_parent y"
  "sy_sh (main_at p y) = sy_sh y" "sy_main (main_at p y) = p"
  "sy_tasks (sh_at q y) = sy_tasks y" "sy_rt (sh_at q y) = sy_rt y" "sy_reported (sh_at q y) = sy_reported y"
  "sy_deadline (sh_at q y) = sy_deadline y" "sy_parent (sh_at q y) = sy_parent y"
  "sy_sh (sh_at q y) = q" "sy_main (sh_at q y) = sy_main y"
  by (simp_all add: main_at_def sh_at_def)

lemma move_app:
  assumes inv: "rt_app cr bu y" and "main_app (live y) cr bu p"
  shows "rt_app cr bu (main_at p y)"
  using rt_appD [OF inv] assms(2) by (intro rt_app_frame [OF inv]) simp_all

lemma sh_move_app:
  assumes inv: "rt_app cr bu y" and "sh_app cr bu q"
  shows "rt_app cr bu (sh_at q y)"
  using rt_appD [OF inv] assms(2) by (intro rt_app_frame [OF inv]) simp_all

lemma two: "i < 2 \<Longrightarrow> i = 0 \<or> i = (1 :: nat)"
  by auto

lemma init_fns: "rt_app cr bu y \<Longrightarrow> i < cts y \<Longrightarrow> ct_initFns (ct y i) = [if i = 0 then h_create else h_build]"
  using two [of i] by (auto simp: rt_app_def server_ct_def worker_ct_def)

lemma start_fns: "rt_app cr bu y \<Longrightarrow> i < cts y \<Longrightarrow> ct_startFns (ct y i) = (if i = 0 then [] else [h_verify])"
  using two [of i] by (auto simp: rt_app_def server_ct_def worker_ct_def)

lemma new_task_name:
  assumes "t \<in> set (new_tasks i g hs)"
  shows "\<exists>h \<in> set hs. tk_name t = hk_name h"
proof -
  have "tk_name t \<in> set (map tk_name (new_tasks i g hs))"
    using assms by simp
  then show ?thesis
    unfolding new_tasks_names by auto
qed

lemma new_task_fine:
  assumes inv: "rt_app cr bu y" and "i < cts y" and "t \<in> set (new_tasks i g (ct_tasks (ct y i)))"
  shows "task_fine t"
proof -
  have i: "i = 0 \<or> i = 1"
    using rt_appD(1) [OF inv] assms(2) two by simp
  have "set (ct_tasks (ct y i)) \<subseteq> {if i = 0 then h_serve else h_greeting}"
    using i rt_appD(2,3) [OF inv] by (auto simp: server_ct_def worker_ct_def)
  then have "tk_name t = (if i = 0 then ''serve'' else ''greeting'')"
    using new_task_name [OF assms(3)] by (auto split: if_splits)
  then show ?thesis
    using i new_tasks_all [OF assms(3)] by (auto simp: task_fine_def)
qed

lemma start_end_app:
  assumes inv: "rt_app cr bu y" and main: "sy_main y = MainStartHooks i []" and i: "i < cts y"
    and ends: "container_start_end (rt_ctx (sy_rt y)) (sy_next y) (ct y i, rt_runner (sy_rt y)) = ((c, r), hs)"
  shows "rt_app cr bu (main_at (MainStart (Suc i)) (launch i hs (put_runner r (put_ct i c y))))"
    (is "rt_app cr bu ?z")
proof -
  note facts = rt_appD [OF inv]
  have i2: "i = 0 \<or> i = 1" using facts(1) i two by simp
  have cts: "ct ?z j = (if j = i then c else ct y j)" "cts ?z = cts y" if "j < 2" for j
    using facts(1) i that by (auto simp: launch_def put_runner_def put_ct_def nth_upd)
  have tasks: "sy_tasks ?z = sy_tasks y @ new_tasks i (sy_next y) hs"
    by (simp add: launch_def put_runner_def put_ct_def)
  from start_end_cases [OF ends] consider "c = ct y i" "hs = []"
    | "hs = ct_tasks (ct y i)" "same_hooks (ct y i) (c\<lparr>ct_tasks := hs\<rparr>)" "ct_tasks c = []"
    by (auto simp: same_hooks_def)
  note cases = this
  have hooks: "server_ct cr (ct ?z 0) \<and> worker_ct bu (ct ?z 1)"
    using cases
  proof cases
    case 1
    then show ?thesis using facts(2,3) cts(1) [of 0] cts(1) [of 1] i2 by auto
  next
    case 2
    then show ?thesis
      using facts(2,3) i2 cts(1) [of 0] cts(1) [of 1] by (auto simp: same_hooks_def server_ct_def worker_ct_def)
  qed
  have new: "filter (\<lambda>t. tk_ct t = j) (new_tasks i (sy_next y) hs) = (if j = i then new_tasks i (sy_next y) hs else [])" for j
    using new_tasks_all by (auto simp: filter_id_conv filter_empty_conv)
  have count: "task_count j ?z = task_count j y" if "j < 2" for j
    unfolding task_count_def cts(1) [OF that] tasks filter_append new
    using cases by cases (simp_all add: new_tasks_def)
  have fine: "task_fine t" if "t \<in> set (sy_tasks ?z)" for t
  proof -
    have "t \<in> set (sy_tasks y) \<or> t \<in> set (new_tasks i (sy_next y) hs)"
      using that unfolding tasks by simp
    moreover have "task_fine t" if "t \<in> set (new_tasks i (sy_next y) hs)"
      using cases that new_task_fine [OF inv i] by cases (simp_all add: new_tasks_def)
    ultimately show ?thesis using facts(11) by blast
  qed
  have rest: "sy_reported ?z = sy_reported y" "rt_stopErr (sy_rt ?z) = rt_stopErr (sy_rt y)" "sy_deadline ?z = sy_deadline y"
      "rt_ctx (sy_rt ?z) = rt_ctx (sy_rt y)" "sy_parent ?z = sy_parent y" "sy_sh ?z = sy_sh y"
      "rt_store (sy_rt ?z) = rt_store (sy_rt y)" "sy_main ?z = MainStart (Suc i)"
    by (simp_all add: launch_def put_runner_def)
  show ?thesis
    unfolding rt_app_def rest using facts main hooks fine count [of 0] count [of 1] cts(2) [of 0] by simp
qed

lemma not_logged: "xs \<noteq> xs @ [x]" "xs @ [x] \<noteq> xs"
  by simp_all

lemma main_step_app:
  assumes "main_step y z" and "sy_main y \<noteq> MainSetup" and "sy_log z = sy_log y"
    and inv: "rt_app cr bu y" and ctl: "ctl_inv y"
  shows "rt_app cr bu z"
proof -
  note facts = rt_appD [OF inv]
  from assms(1) show ?thesis
  proof cases
    case run_begins
    then show ?thesis using assms(2) by simp
  next
    case (init_begins i c hs)
    have "rt_app cr bu (put_ct i c y)"
      using init_begin_cases(1) [OF init_begins(5)] by (intro put_ct_app [OF inv]) (simp add: same_hooks_def)
    then show ?thesis
      unfolding init_begins(1) using facts(1,4,9) init_begins init_begin_cases(1) [OF init_begins(5)] init_fns [OF inv init_begins(3)] two [of i]
      by (intro move_app) auto
  next
    case (init_panics i m)
    then show ?thesis using facts by (intro rt_app_frame [OF inv]) simp_all
  next
    case (start_panics i m)
    then show ?thesis using facts by (intro rt_app_frame [OF inv]) simp_all
  next
    case (init_hook i h hs err)
    then show ?thesis using assms(3) by (simp add: log_hook_def main_at_def)
  next
    case (start_hook i h hs err)
    then show ?thesis using assms(3) by (simp add: log_hook_def main_at_def)
  next
    case (init_ends i)
    have "rt_app cr bu (put_ct i (container_init_end (rt_ctx (sy_rt y)) (ct y i)) y)"
      by (intro put_ct_app [OF inv]) (simp add: same_hooks_def container_init_end_def)
    then show ?thesis
      unfolding init_ends(1) using facts(4,9) init_ends(2) by (intro move_app) auto
  next
    case (start_begins i c hs)
    have "rt_app cr bu (put_ct i c y)"
      using start_begin_cases(1) [OF start_begins(5)] by (intro put_ct_app [OF inv]) (simp add: same_hooks_def)
    then show ?thesis
      unfolding start_begins(1) using facts(1,9) start_begins start_begin_cases(1) [OF start_begins(5)] start_fns [OF inv start_begins(3)] two [of i]
      by (intro move_app) auto
  next
    case (start_ends i c r hs)
    then show ?thesis
      using start_end_app [OF inv start_ends(2) _ start_ends(3)] main_ok_of [OF ctl start_ends(2)] by simp
  next
    case starting
    then show ?thesis using facts by (intro rt_app_frame [OF inv]) simp_all
  next
    case (cancels e r)
    then show ?thesis using facts(9) by simp
  next
    case started
    then show ?thesis using facts by (intro rt_app_frame [OF inv]) simp_all
  next
    case (waited r err)
    then show ?thesis using facts by (intro rt_app_frame [OF inv]) (simp_all add: put_runner_def)
  next
    case (cancels_tasks err)
    then show ?thesis using facts by (intro rt_app_frame [OF inv]) (simp_all add: put_ctx_def)
  next
    case (main_returns err)
    then show ?thesis using facts by (intro rt_app_frame [OF inv]) simp_all
  qed (use inv facts(1,4,9) in \<open>auto intro!: move_app\<close>)
qed

text \<open>The shutdown, but for the hooks it calls.\<close>

lemma stop_fns:
  "rt_app cr bu y \<Longrightarrow> i < cts y \<Longrightarrow>
     ct_stoppingFns (ct y i) = (if i = 0 \<and> cr then [h_stopping] else []) \<and>
     ct_stopFns (ct y i) = (if i = 0 then if cr then [h_close] else [] else [h_finalize])"
  using two [of i] by (auto simp: rt_app_def server_ct_def worker_ct_def)

lemma shutdown_step_app:
  assumes "shutdown_step y z" and "sy_log z = sy_log y" and inv: "rt_app cr bu y" and ctl: "ctl_inv y"
  shows "rt_app cr bu z"
proof -
  note facts = rt_appD [OF inv]
  from assms(1) show ?thesis
  proof cases
    case (sh_stops i c stopping stops)
    have i: "i < cts y"
      using sh_ok_of [OF ctl sh_stops(2)] by simp
    have c: "c = (ct y i)\<lparr>ct_state := ContainerStopping\<rparr>" "stopping = ct_stoppingFns (ct y i)" "stops = ct_stopFns (ct y i)"
      using sh_stops(3) by (auto simp: container_shutdown_begin_def split: if_splits)
    have "rt_app cr bu (put_ct i c y)"
      by (intro put_ct_app [OF inv]) (simp add: c same_hooks_def)
    then show ?thesis
      unfolding sh_stops(1) using stop_fns [OF inv i] i facts(1) by (intro sh_move_app) (cases i, simp_all add: c)
  next
    case (sh_stopping_hook i h hs stops e err)
    then show ?thesis using assms(2) by (simp add: log_hook_def sh_at_def)
  next
    case (sh_stop_hook i h hs e err)
    then show ?thesis using assms(2) by (simp add: log_hook_def sh_at_def)
  next
    case (sh_ends i e)
    have e: "e = None"
      using facts(10) sh_ends(2) by auto
    have put: "rt_app cr bu (put_ct i (container_shutdown_end (ct y i)) y)"
      by (intro put_ct_app [OF inv]) (simp add: same_hooks_def container_shutdown_end_def)
    have "rt_app cr bu (put_ct i (container_shutdown_end (ct y i))
        (y\<lparr>sy_rt := (sy_rt y)\<lparr>rt_stopErr := keep_first (rt_stopErr (sy_rt y)) e\<rparr>\<rparr>))"
      using facts e by (intro rt_app_frame [OF put]) (simp_all add: put_ct_def)
    then show ?thesis
      unfolding sh_ends(1) by (intro sh_move_app) simp_all
  next
    case (sh_waits i stops e)
    have "sh_app cr bu (ShStop i stops e)"
      using facts(10) sh_waits(2) by (cases cr) auto
    then show ?thesis
      unfolding sh_waits(1) by (rule sh_move_app [OF inv])
  qed (simp_all add: sh_move_app [OF inv])
qed

text \<open>The start of the program and of \<open>Run\<close>.\<close>

lemma runs_app:
  assumes "sy_main y = MainSetup" and "runtime_Run_begin (Some parent) opts (sy_rt y) = Ret r"
    and "ctx_err parent \<in> {None, Some Canceled}" and inv: "rt_app cr bu y"
  shows "rt_app cr bu (main_at (MainInit 0) (y\<lparr>sy_rt := r, sy_parent := parent, sy_deadline := False\<rparr>))"
proof -
  note facts = rt_appD [OF inv]
  have "rt_containers r = rt_containers (sy_rt y)" "rt_store r = rt_store (sy_rt y)" "rt_stopErr r = rt_stopErr (sy_rt y)"
      "rt_ctx r = newRuntimeTaskContext parent"
    using assms(2) by (auto simp: runtime_Run_begin_def split: if_splits)
  then show ?thesis
    using facts assms(1,3)
    by (intro rt_app_frame [OF inv]) (auto simp: newRuntimeTaskContext_def ctx_quiet_def live_ctx_def)
qed

lemma app_setup_Ret:
  "app_setup = Ret y \<Longrightarrow> y = (rt_start :: app_rt)\<lparr>sy_rt := NewRuntime\<lparr>
     rt_store := \<lparr>st_m = Some [(ConfigType, Some (ConfigValue ''gx runtime example''))]\<rparr>,
     rt_containers := [(NewContainer ''server'')\<lparr>ct_initFns := [h_create]\<rparr>,
       (NewContainer ''worker'')\<lparr>ct_initFns := [h_build], ct_startFns := [h_verify], ct_stopFns := [h_finalize]\<rparr>]\<rparr>\<rparr>"
  by (simp add: app_setup_def attachWorker_def sys_runtime_def sys_container_def runtime_Set_def runtime_Create_def
      runtime_Attach_def container_OnInit_def container_OnStart_def container_OnStop_def NewContainer_def
      NewRuntime_def rt_start_def store_set_def newStore_def gm_defs put_ct_def Let_def)

end
