(* ===== verification/Gx_Example_Runtime_Out.thy ===== *)
theory Gx_Example_Runtime_Out imports Gx_Example_Runtime_Inv Gx_Runtime_States begin

text \<open>
  What the program of \<open>Gx_Example_Runtime\<close> has logged, as a function of where it is: \<open>v\<close>, the
  server has been verified, \<open>g\<close>, the worker has greeted.
\<close>

abbreviation line_complete :: "string \<times> (string \<times> string) list" where
  "line_complete \<equiv> (''worker startup complete'', [(''application'', ''gx runtime example'')])"
abbreviation line_running :: "string \<times> (string \<times> string) list" where
  "line_running \<equiv> (''worker running'', [(''message'', ''hello from gx runtime example'')])"
abbreviation line_finalized :: "string \<times> (string \<times> string) list" where "line_finalized \<equiv> (''worker finalized'', [])"
abbreviation line_stopping :: "string \<times> (string \<times> string) list" where "line_stopping \<equiv> (''server is stopping'', [])"
abbreviation line_closed :: "string \<times> (string \<times> string) list" where "line_closed \<equiv> (''server resources closed'', [])"

definition startup_out :: "bool \<Rightarrow> bool \<Rightarrow> (string \<times> (string \<times> string) list) list" where
  "startup_out v g = (if v then [line_complete] else []) @ (if g then [line_running] else [])"

definition worker_out :: "bool \<Rightarrow> (string \<times> (string \<times> string) list) list" where
  "worker_out bu = (if bu then [line_finalized] else [])"

fun sh_out :: "bool \<Rightarrow> bool \<Rightarrow> app_fn sh_pc \<Rightarrow> (string \<times> (string \<times> string) list) list" where
  "sh_out cr bu ShIdle = []"
| "sh_out cr bu (ShNext k) =
     (if 2 \<le> k then [] else worker_out bu @ (if k = 0 \<and> cr then [line_stopping, line_closed] else []))"
| "sh_out cr bu (ShStopping i hs stops e) =
     (if i = 0 then worker_out bu @ (if hs = [] \<and> cr then [line_stopping] else []) else [])"
| "sh_out cr bu (ShStop i hs e) =
     (if i = 0 then worker_out bu @ (if cr then line_stopping # (if hs = [] then [line_closed] else []) else [])
      else if hs = [] then [line_finalized] else [])"
| "sh_out cr bu ShDone = worker_out bu @ (if cr then [line_stopping, line_closed] else [])"

fun main_out :: "bool \<Rightarrow> app_fn main_pc \<Rightarrow> bool" where
  "main_out v (MainStart i) \<longleftrightarrow> i \<le> 1 \<longrightarrow> \<not> v"
| "main_out v (MainStartHooks i hs) \<longleftrightarrow> (if i = 1 then v = (hs = []) else \<not> v)"
| "main_out v (MainStartCall i h hs) \<longleftrightarrow> \<not> v"
| "main_out v p \<longleftrightarrow> p \<in> range MainFail \<union> {MainStarted} \<or> \<not> early p \<or> \<not> v"

definition out_ok :: "bool \<Rightarrow> bool \<Rightarrow> bool \<Rightarrow> app_rt \<Rightarrow> bool" where
  "out_ok cr bu v y \<longleftrightarrow>
     (v \<longrightarrow> bu) \<and> main_out v (sy_main y) \<and> (1 \<in> tk_ct ` set (sy_tasks y) \<longrightarrow> v) \<and>
     (cr \<longrightarrow> ct_state (ct y 0) \<noteq> ContainerSetup) \<and> (bu \<longrightarrow> ct_state (ct y 1) \<noteq> ContainerSetup)"

lemma advances_setup:
  assumes "advances y z" and "i < cts y" and "ct_state (ct y i) \<noteq> ContainerSetup"
  shows "ct_state (ct z i) \<noteq> ContainerSetup"
proof -
  have "ct_state (ct y i) \<le> ct_state (ct z i)"
    using assms(1,2) by (simp add: advances_def)
  then show ?thesis
    using assms(3) ct_state_bounds(1) [of "ct_state (ct y i)"] by (metis order_antisym)
qed

lemma out_ok_frame:
  assumes "out_ok cr bu v y" and "advances y z" and "cts y = 2" and "main_out v (sy_main z)"
    and "tk_ct ` set (sy_tasks z) \<subseteq> tk_ct ` set (sy_tasks y)"
  shows "out_ok cr bu v z"
  using assms advances_setup [OF assms(2), of 0] advances_setup [OF assms(2), of 1] by (auto simp: out_ok_def)

lemma tk_set_task: "tk_ct ` set (sy_tasks (set_task k p y)) = tk_ct ` set (sy_tasks y)"
proof -
  have "map tk_ct (sy_tasks (set_task k p y)) = map tk_ct (sy_tasks y)"
    by (rule nth_equalityI) (auto simp: set_task_def nth_upd)
  then show ?thesis by (metis set_map)
qed

lemma task_step_out:
  assumes "task_step y z" and "out_ok cr bu v y" and "cts y = 2"
  shows "out_ok cr bu v z" and "sy_sh z = sy_sh y"
proof -
  have "tk_ct ` set (sy_tasks z) \<subseteq> tk_ct ` set (sy_tasks y) \<and> sy_main z = sy_main y \<and> sy_sh z = sy_sh y"
    using assms(1)
    by cases (auto simp: tk_set_task report_error_def put_runner_def dest: in_set_takeD in_set_dropD)
  then show "out_ok cr bu v z" "sy_sh z = sy_sh y"
    using out_ok_frame [OF assms(2) task_step_advances [OF assms(1)] assms(3)] assms(2) by (auto simp: out_ok_def)
qed

lemma context_step_out:
  assumes "context_step y z" and "out_ok cr bu v y"
  shows "out_ok cr bu v z" and "sy_sh z = sy_sh y"
  using assms by (auto elim!: context_step.cases simp: out_ok_def put_runner_def put_ctx_def)

lemma main_step_sh: "main_step y z \<Longrightarrow> sy_sh z = sy_sh y"
  by (erule main_step.cases) (auto simp: rt_put_defs)

lemma main_step_out:
  assumes "main_step y z" and "sy_main y \<noteq> MainSetup" and "sy_log z = sy_log y"
    and app: "rt_app cr bu y" and ctl: "ctl_inv y" and inv: "out_ok cr bu v y"
  shows "out_ok cr bu v z"
proof -
  note facts = rt_appD [OF app]
  note adv = main_step_advances [OF assms(1) ctl]
  have now: "main_out v (sy_main y)"
    using inv by (simp add: out_ok_def)
  have frame: ?thesis if "main_out v (sy_main z)" "sy_tasks z = sy_tasks y"
    using that by (intro out_ok_frame [OF inv adv facts(1)]) simp_all
  from assms(1) show ?thesis
  proof cases
    case run_begins
    then show ?thesis using assms(2) by simp
  next
    case (init_hook i h hs err)
    then show ?thesis using assms(3) by (simp add: log_hook_def main_at_def)
  next
    case (start_hook i h hs err)
    then show ?thesis using assms(3) by (simp add: log_hook_def main_at_def)
  next
    case (start_begins i c hs)
    then show ?thesis
      using start_begin_cases(1) [OF start_begins(5)] start_fns [OF app start_begins(3)] now facts(1) two [of i]
      by (intro frame) auto
  next
    case (start_ends i c r hs)
    have i: "i < 2"
      using main_ok_of [OF ctl start_ends(2)] facts(1) by simp
    have tasks: "sy_tasks z = sy_tasks y @ new_tasks i (sy_next y) hs"
      unfolding start_ends(1) by (simp add: launch_def put_runner_def put_ct_def)
    have "\<forall>t \<in> set (new_tasks i (sy_next y) hs). tk_ct t = i"
      using new_tasks_all by blast
    then have "1 \<in> tk_ct ` set (sy_tasks z) \<longrightarrow> v"
      using inv start_ends(2) now unfolding tasks by (auto simp: out_ok_def)
    moreover have "main_out v (sy_main z)"
      using start_ends(1,2) now i by auto
    ultimately show ?thesis
      using inv advances_setup [OF adv, of 0] advances_setup [OF adv, of 1] facts(1) by (simp add: out_ok_def)
  qed ((rule frame; use now facts(1,9) in \<open>auto simp: put_ctx_def put_runner_def report_error_def\<close>)+)
qed

lemma shutdown_step_out:
  assumes "shutdown_step y z" and "sy_log z = sy_log y"
    and app: "rt_app cr bu y" and ctl: "ctl_inv y" and inv: "out_ok cr bu v y"
  shows "out_ok cr bu v z" and "sh_out cr bu (sy_sh z) = sh_out cr bu (sy_sh y)"
proof -
  note facts = rt_appD [OF app]
  have "sy_main z = sy_main y" "sy_tasks z = sy_tasks y"
    using assms(1) by (auto elim!: shutdown_step.cases simp: rt_put_defs)
  then show "out_ok cr bu v z"
    using inv by (intro out_ok_frame [OF inv shutdown_step_advances [OF assms(1)] facts(1)]) (simp_all add: out_ok_def)
  from assms(1) show "sh_out cr bu (sy_sh z) = sh_out cr bu (sy_sh y)"
  proof cases
    case sh_begins
    then show ?thesis using facts(1) by simp
  next
    case (sh_skips i)
    have i: "i < 2" "ct_state (ct y i) \<in> unstopped"
      using sh_ok_of [OF ctl sh_skips(2)] facts(1) states_nth [of i y] by (auto simp: all_at_last)
    then have "ct_state (ct y i) = ContainerSetup"
      using shutdown_begin_cases(1) [OF sh_skips(3)] by (auto simp: stopped_def unstopped_def)
    then show ?thesis
      using inv two [OF i(1)] sh_skips(1,2) by (auto simp: out_ok_def worker_out_def)
  next
    case (sh_stops i c stopping stops)
    have i: "i < cts y"
      using sh_ok_of [OF ctl sh_stops(2)] by simp
    then show ?thesis
      using sh_stops(1,2) shutdown_begin_cases(2) [OF sh_stops(3)] stop_fns [OF app i] two [of i] facts(1) by auto
  next
    case (sh_stopping_hook i h hs stops e err)
    then show ?thesis using assms(2) by (simp add: log_hook_def sh_at_def)
  next
    case (sh_waits i stops e)
    then show ?thesis using facts(10) by auto
  next
    case (sh_stop_hook i h hs e err)
    then show ?thesis using assms(2) by (simp add: log_hook_def sh_at_def)
  next
    case (sh_ends i e)
    then show ?thesis using facts(10) by (auto simp: worker_out_def)
  next
    case sh_done
    then show ?thesis by simp
  qed
qed

lemma out_ok_at [simp]:
  "out_ok cr bu v (sh_at q y) = out_ok cr bu v y" "out_ok cr bu v (log_hook i ph n err y) = out_ok cr bu v y"
  by (simp_all add: out_ok_def sh_at_def log_hook_def)

lemma run_out:
  assumes "sy_main y = MainSetup" and "runtime_Run_begin (Some parent) opts (sy_rt y) = Ret r" and "out_ok cr bu v y"
  shows "out_ok cr bu v (main_at (MainInit 0) (y\<lparr>sy_rt := r, sy_parent := parent, sy_deadline := False\<rparr>))"
  using assms by (auto simp: out_ok_def runtime_Run_begin_def split: if_splits)

text \<open>While the worker's task has not been told to the container, nothing of the worker is finalized.\<close>

lemma greeting_quiet:
  assumes "t \<in> set (sy_tasks y)" and t: "tk_ct t = 1" "tk_pc t = TaskBody"
    and app: "rt_app cr bu y" and ctl: "ctl_inv y" and tasks: "tasks_inv y"
  shows "sh_out cr bu (sy_sh y) = []"
proof -
  have cts: "1 < cts y"
    using rt_appD(1) [OF app] by simp
  have "tasks_of 1 counted (sy_tasks y) \<noteq> []"
    using assms(1) t by (auto simp: tasks_of_def filter_empty_conv)
  then have wg: "ct_wg (ct y 1) \<noteq> 0"
    using tasks cts by (auto simp: tasks_inv_def task_inv_def)
  then have busy: "ct_state (ct y 1) \<notin> idle_states" "\<And>hs e. sy_sh y \<noteq> ShStop 1 hs e"
    using tasks cts by (auto simp: tasks_inv_def idle_inv_def)
  then have busy': "states_of y ! 1 \<notin> stopped"
    using cts by (auto simp: idle_states_def stopped_def)
  have sh: "sh_ok (states_of y) (sy_sh y)"
    using sh_ok_of [OF ctl refl] .
  have cases: "\<not> all_at (states_of y) k 2 stopped" if "k \<le> 1" for k
    using busy' that by (auto simp: all_at_def)
  show ?thesis
  proof (cases "sy_sh y")
    case (ShNext k)
    then show ?thesis using sh cases [of k] rt_appD(1) [OF app] by auto
  next
    case (ShStopping i hs stops e)
    then show ?thesis using sh cases [of 1] rt_appD(1) [OF app] by (cases "i = 0") auto
  next
    case (ShStop i hs e)
    then show ?thesis using sh cases [of 1] rt_appD(1) [OF app] busy(2) two [of i] by (cases "i = 0") auto
  next
    case ShDone
    then show ?thesis using sh cases [of 0] rt_appD(1) [OF app] by auto
  qed simp
qed

end
