(* ===== verification/Gx_Example_Runtime_Correct.thy ===== *)
theory Gx_Example_Runtime_Correct imports Gx_Example_Runtime_Out begin

text \<open>
  What the program of \<open>Gx_Example_Runtime\<close> does: each of its hooks and tasks does its part
  where the runtime calls it, so every run of the program keeps the order of its containers,
  says its lines in that order, and returns nil.
\<close>

section \<open>What the hooks do\<close>

lemma store_set_new:
  assumes "store_get t s = None"
  obtains s' where "store_set t v s = Ret (s', True)" "\<forall>u. store_get u s' = (if u = t then Some v else store_get u s)"
proof (cases "st_m s")
  case None
  then show ?thesis
    by (intro that [of "\<lparr>st_m = Some [(t, v)]\<rparr>"]) (simp_all add: store_set_def store_get_def gm_defs)
next
  case (Some kvs)
  then show ?thesis
    using assms
    by (intro that [of "\<lparr>st_m = Some (AList.update t v kvs)\<rparr>"])
      (simp_all add: store_set_def store_get_def gm_defs update_conv')
qed

lemma put_ct_put [simp]: "put_ct i c (put_ct i d y) = put_ct i c y"
  by (simp add: put_ct_def)

lemma ct_put [simp]: "i < cts y \<Longrightarrow> ct (put_ct i c y) i = c" "i \<noteq> j \<Longrightarrow> ct (put_ct i c y) j = ct y j"
  by (simp_all add: put_ct_def)

lemma sys_registers:
  assumes "ct_state (ct y i) = ContainerInitializing" and "n \<noteq> []"
  shows "sys_Run i n f y = Ret (put_ct i ((ct y i)\<lparr>ct_tasks := ct_tasks (ct y i) @ [\<lparr>hk_fn = f, hk_name = n\<rparr>]\<rparr>) y)"
    and "sys_container i (container_OnStopping n (Some f)) y =
      Ret (put_ct i ((ct y i)\<lparr>ct_stoppingFns := ct_stoppingFns (ct y i) @ [\<lparr>hk_fn = f, hk_name = n\<rparr>]\<rparr>) y)"
    and "sys_container i (container_OnStop n (Some f)) y =
      Ret (put_ct i ((ct y i)\<lparr>ct_stopFns := ct_stopFns (ct y i) @ [\<lparr>hk_fn = f, hk_name = n\<rparr>]\<rparr>) y)"
  using assms by (simp_all add: sys_Run_def container_Run_def sys_container_def container_OnStopping_def
      container_OnStop_def Let_def)

lemma newServer_ok:
  assumes "i < cts (ap_rt a)" and "ct_state (ct (ap_rt a) i) = ContainerInitializing"
  shows "newServer i a = Ret (a\<lparr>ap_server := new_server, ap_rt := put_ct i
     ((ct (ap_rt a) i)\<lparr>ct_tasks := ct_tasks (ct (ap_rt a) i) @ [h_serve],
        ct_stoppingFns := ct_stoppingFns (ct (ap_rt a) i) @ [h_stopping],
        ct_stopFns := ct_stopFns (ct (ap_rt a) i) @ [h_close]\<rparr>) (ap_rt a)\<rparr>)"
  using assms by (simp add: newServer_def sys_registers)

lemma Global_ok:
  assumes "rt_app cr bu y"
  shows "app_Global ConfigType y = Ret (ConfigValue ''gx runtime example'')" and "cr \<Longrightarrow> app_Global ServerType y = Ret ServerValue"
  using rt_appD(7,8) [OF assms]
  by (simp_all add: app_Global_def container_Global_def runtime_Get_def runtime_GetTry_def getValue_def)

abbreviation hello :: app_value where
  "hello \<equiv> WorkerValue ''hello from gx runtime example''"

lemma buildWorker_ok:
  assumes inv: "rt_app True False (ap_rt a)" and state: "ct_state (ct (ap_rt a) 1) = ContainerInitializing"
  obtains s where "buildWorker 1 a = Ret (a\<lparr>ap_worker := hello, ap_rt := put_ct 1 ((ct (ap_rt a) 1)\<lparr>ct_store := s,
      ct_tasks := ct_tasks (ct (ap_rt a) 1) @ [h_greeting]\<rparr>) (ap_rt a)\<rparr>)"
    "store_get WorkerType s = Some (Some hello)"
proof -
  have i: "1 < cts (ap_rt a)" using rt_appD(1) [OF inv] by simp
  have "store_get WorkerType (ct_store (ct (ap_rt a) 1)) = None"
    using rt_appD(3) [OF inv] by (simp add: worker_ct_def)
  then obtain s where s: "store_set WorkerType (Some hello) (ct_store (ct (ap_rt a) 1)) = Ret (s, True)"
      "\<forall>u. store_get u s = (if u = WorkerType then Some (Some hello) else store_get u (ct_store (ct (ap_rt a) 1)))"
    by (rule store_set_new [where v = "Some hello"])
  then have "sys_container 1 (container_Set WorkerType (Some hello)) (ap_rt a) =
      Ret (put_ct 1 ((ct (ap_rt a) 1)\<lparr>ct_store := s\<rparr>) (ap_rt a))"
    using state by (simp add: sys_container_def container_Set_def)
  then have "buildWorker 1 a = Ret (a\<lparr>ap_worker := hello, ap_rt := put_ct 1 ((ct (ap_rt a) 1)\<lparr>ct_store := s,
      ct_tasks := ct_tasks (ct (ap_rt a) 1) @ [h_greeting]\<rparr>) (ap_rt a)\<rparr>)"
    using i state Global_ok [OF inv] by (simp add: buildWorker_def sys_registers)
  then show ?thesis
    by (rule that) (simp add: s(2))
qed

section \<open>The runtime is initializing while it initializes\<close>

fun in_init :: "'h main_pc \<Rightarrow> bool" where
  "in_init (MainInit i) = True"
| "in_init (MainInitHooks i hs) = True"
| "in_init (MainInitCall i h hs) = True"
| "in_init MainStarting = True"
| "in_init p = False"

definition init_inv :: "('h, 't, 'v) rt_sys \<Rightarrow> bool" where
  "init_inv y \<longleftrightarrow> (in_init (sy_main y) \<longrightarrow> rt_state (sy_rt y) = RuntimeInitializing)"

lemma rt_step_init: "init_inv y \<Longrightarrow> rt_step y z \<Longrightarrow> init_inv z"
  by (elim rt_step.cases main_step.cases shutdown_step.cases task_step.cases context_step.cases api_step.cases)
    (auto simp: init_inv_def rt_put_defs runtime_Run_begin_def runtime_Attach_def runtime_Create_def runtime_Set_def
      go_bind_eq_Ret split: option.splits if_splits)

interpretation runtime_init: inductive_invariant rt_new rt_step init_inv
proof
  show "init_inv y" if "rt_new y" for y :: "('h, 't, 'v) rt_sys"
    using that by (simp add: rt_new_def init_inv_def rt_start_def)
qed (rule rt_step_init)

section \<open>The results of hooks\<close>

lemma hook_error_simps [simp]:
  "hook_error c h None = None" "hook_error c h (Some e) = Some (Wrap (ct_name c @ '': '' @ hk_name h @ '': '') e)"
  by (simp_all add: hook_error_def)

lemma idle_returns:
  assumes "hook_returns ph i h err y z" and "sy_sh y = ShIdle"
  shows "main_step y z"
  using assms by (auto simp: hook_returns_def elim: shutdown_step.cases) (auto elim!: shutdown_step.cases simp: sh_at_def)

lemma init_returns:
  assumes "hook_returns ph i h err y z" and main: "sy_main y = MainInitCall i h hs" and ctl: "ctl_inv y"
  shows "z = main_at (case hook_error (ct y i) h err of None \<Rightarrow> MainInitHooks i hs | Some e \<Rightarrow> MainFail e)
    (log_hook i PhInit (hk_name h) (hook_error (ct y i) h err) y)"
proof -
  have "main_step y z"
    using assms(1) by (rule idle_returns) (use ctl_idle [OF ctl] main in simp)
  then show ?thesis
    using main assms(1) by cases (auto simp: hook_returns_def log_hook_def main_at_def)
qed

lemma start_returns:
  assumes "hook_returns ph i h err y z" and main: "sy_main y = MainStartCall i h hs" and ctl: "ctl_inv y"
  shows "z = main_at (case hook_error (ct y i) h err of None \<Rightarrow> MainStartHooks i hs | Some e \<Rightarrow> MainFail e)
    (log_hook i PhStart (hk_name h) (hook_error (ct y i) h err) y)"
proof -
  have "main_step y z"
    using assms(1) by (rule idle_returns) (use ctl_idle [OF ctl] main in simp)
  then show ?thesis
    using main assms(1) by cases (auto simp: hook_returns_def log_hook_def main_at_def)
qed

lemma late_logs: "main_step y z \<Longrightarrow> \<not> early (sy_main y) \<Longrightarrow> sy_log z = sy_log y"
  by (erule main_step.cases) (auto simp: rt_put_defs)

lemma late_returns:
  assumes "hook_returns ph i h err y z" and "sy_sh y \<noteq> ShIdle" and ctl: "ctl_inv y"
  shows "shutdown_step y z"
proof -
  have "\<not> early (sy_main y)"
    using ctl assms(2) by (auto simp: ctl_inv_def)
  then show ?thesis
    using assms(1) by (auto simp: hook_returns_def dest: late_logs)
qed

lemma stopping_returns:
  assumes "hook_returns ph i h err y z" and sh: "sy_sh y = ShStopping i (h # hs) stops e" and ctl: "ctl_inv y"
  shows "z = sh_at (ShStopping i hs stops (keep_first e (hook_error (ct y i) h err)))
    (log_hook i PhStopping (hk_name h) (hook_error (ct y i) h err) y)"
proof -
  have "shutdown_step y z"
    using assms(1) by (rule late_returns) (use sh ctl in simp_all)
  then show ?thesis
    using sh assms(1) by cases (auto simp: hook_returns_def log_hook_def sh_at_def)
qed

lemma stop_returns:
  assumes "hook_returns ph i h err y z" and sh: "sy_sh y = ShStop i (h # hs) e" and ctl: "ctl_inv y"
  shows "z = sh_at (ShStop i hs (keep_first e (hook_error (ct y i) h err)))
    (log_hook i PhStop (hk_name h) (hook_error (ct y i) h err) y)"
proof -
  have "shutdown_step y z"
    using assms(1) by (rule late_returns) (use sh ctl in simp_all)
  then show ?thesis
    using sh assms(1) by cases (auto simp: hook_returns_def log_hook_def sh_at_def)
qed

text \<open>Which hook is called where.\<close>

lemma hook_in_app:
  assumes "hook_in y = Some (ph, i, h)" and inv: "rt_app cr bu y" and ctl: "ctl_inv y"
  obtains "ph = PhInit" "i = 0" "h = h_create" "sy_main y = MainInitCall 0 h_create []" "\<not> cr" "\<not> bu"
  | "ph = PhInit" "i = 1" "h = h_build" "sy_main y = MainInitCall 1 h_build []" "cr" "\<not> bu"
  | "ph = PhStart" "i = 1" "h = h_verify" "sy_main y = MainStartCall 1 h_verify []" "cr" "bu"
  | stops where "ph = PhStopping" "i = 0" "h = h_stopping" "sy_sh y = ShStopping 0 [h_stopping] stops None" "cr"
  | "ph = PhStop" "i = 1" "h = h_finalize" "sy_sh y = ShStop 1 [h_finalize] None"
  | "ph = PhStop" "i = 0" "h = h_close" "sy_sh y = ShStop 0 [h_close] None" "cr"
proof -
  note facts = rt_appD(4,9,10) [OF inv]
  from assms(1) consider hs where "ph = PhInit" "sy_main y = MainInitCall i h hs"
    | hs where "ph = PhStart" "sy_main y = MainStartCall i h hs"
    | hs stops e where "ph = PhStopping" "sy_sh y = ShStopping i (h # hs) stops e"
    | hs e where "ph = PhStop" "sy_sh y = ShStop i (h # hs) e"
    by (auto simp: hook_in_def split: main_pc.splits sh_pc.splits list.splits)
  then show thesis
  proof cases
    case (1 hs)
    then show ?thesis using facts that(1,2) by auto
  next
    case (2 hs)
    then show ?thesis using facts that(3) by auto
  next
    case (3 hs stops e)
    then show ?thesis using facts that(4) by auto
  next
    case (4 hs e)
    then show ?thesis using facts that(5,6) by auto
  qed
qed

section \<open>The hooks in order\<close>

text \<open>
  The program panics in one place: when the worker is finalized that was never built.
\<close>

definition panic_place :: "bool \<Rightarrow> app \<Rightarrow> bool" where
  "panic_place bu a \<longleftrightarrow> \<not> bu \<and> sy_sh (ap_rt a) = ShStop 1 [h_finalize] None"

definition once_ok :: "app_server \<Rightarrow> bool" where
  "once_ok s \<longleftrightarrow> sv_readyOnce s = ch_closed (sv_ready s) \<and> sv_stopOnce s = ch_closed (sv_stop s)"

definition same_app :: "app \<Rightarrow> app \<Rightarrow> bool" where
  "same_app a b \<longleftrightarrow> ap_serving b = ap_serving a \<and> ap_greeted b = ap_greeted a \<and> ap_out b = ap_out a \<and>
     ap_panicked b = ap_panicked a \<and> sy_tasks (ap_rt b) = sy_tasks (ap_rt a) \<and> sy_sh (ap_rt b) = sy_sh (ap_rt a)"

lemma log_hook_app:
  assumes "rt_app cr bu y"
  shows "rt_app cr bu (log_hook i ph n err y)"
  using rt_appD [OF assms] by (intro rt_app_frame [OF assms]) (simp_all add: log_hook_def)

lemma create_app:
  assumes inv: "rt_app False False (ap_rt a)" and ctl: "ctl_inv (ap_rt a)" and state: "init_inv (ap_rt a)"
    and main: "sy_main (ap_rt a) = MainInitCall 0 h_create []"
  obtains b where "app_hook CreateServer 0 a = [Ret (b, None)]" "same_app a b" "ap_server b = new_server"
    "sy_main (ap_rt b) = MainInitCall 0 h_create []" "ct_name (ct (ap_rt b) 0) = ''server''"
    "rt_app True False (main_at (MainInitHooks 0 []) (ap_rt b))"
proof -
  let ?y = "ap_rt a"
  note facts = rt_appD [OF inv]
  have ct: "0 < cts ?y" "ct_state (ct ?y 0) = ContainerInitializing"
    using main_ok_of [OF ctl main] facts(1) by simp_all
  let ?c = "(ct ?y 0)\<lparr>ct_tasks := ct_tasks (ct ?y 0) @ [h_serve], ct_stoppingFns := ct_stoppingFns (ct ?y 0) @ [h_stopping],
        ct_stopFns := ct_stopFns (ct ?y 0) @ [h_close]\<rparr>"
  obtain s where s: "store_set ServerType (Some ServerValue) (rt_store (sy_rt ?y)) = Ret (s, True)"
      "\<forall>u. store_get u s = (if u = ServerType then Some (Some ServerValue) else store_get u (rt_store (sy_rt ?y)))"
    using facts(8) by (auto elim: store_set_new [where v = "Some ServerValue"])
  let ?z = "put_ct 0 ?c ?y"
  let ?b = "a\<lparr>ap_server := new_server, ap_rt := ?z\<lparr>sy_rt := (sy_rt ?z)\<lparr>rt_store := s\<rparr>\<rparr>\<rparr>"
  have "rt_state (sy_rt ?y) = RuntimeInitializing"
    using state main by (simp add: init_inv_def)
  then have "create_hook ServerType (Inr (Some ServerValue)) (sy_rt ?z) = Ret ((sy_rt ?z)\<lparr>rt_store := s\<rparr>, None)"
    using s(1) by (simp add: create_hook_def runtime_Set_def put_ct_def)
  then have hook: "app_hook CreateServer 0 a = [Ret (?b, None)]"
    using ct by (simp add: newServer_ok)
  have cts: "ct (ap_rt ?b) 0 = ?c" "ct (ap_rt ?b) 1 = ct ?y 1" "cts (ap_rt ?b) = 2"
    using ct(1) facts(1) by (simp_all add: put_ct_def)
  have "server_ct True ?c"
    using facts(2) by (auto simp: server_ct_def)
  moreover have "task_count 0 (ap_rt ?b) \<le> 1" "task_count 1 (ap_rt ?b) = 0"
    using facts(5,6) unfolding task_count_def cts by (simp_all add: put_ct_def)
  moreover have "sy_sh ?y = ShIdle"
    using ctl_idle [OF ctl] main by simp
  ultimately have "rt_app True False (main_at (MainInitHooks 0 []) (ap_rt ?b))"
    using facts s(2) cts unfolding rt_app_def task_count_def by (simp add: put_ct_def)
  then show ?thesis
    using hook facts(2) cts(1) main by (intro that [of ?b]) (simp_all add: server_ct_def put_ct_def same_app_def)
qed

lemma build_app:
  assumes inv: "rt_app True False (ap_rt a)" and ctl: "ctl_inv (ap_rt a)"
    and main: "sy_main (ap_rt a) = MainInitCall 1 h_build []"
  obtains b where "app_hook BuildWorker 1 a = [Ret (b, None)]" "same_app a b" "ap_server b = ap_server a" "ap_worker b = hello"
    "sy_main (ap_rt b) = MainInitCall 1 h_build []" "rt_app True True (main_at (MainInitHooks 1 []) (ap_rt b))"
proof -
  let ?y = "ap_rt a"
  note facts = rt_appD [OF inv]
  have ct: "1 < cts ?y" "ct_state (ct ?y 1) = ContainerInitializing"
    using main_ok_of [OF ctl main] facts(1) by simp_all
  obtain s where s: "buildWorker 1 a = Ret (a\<lparr>ap_worker := hello, ap_rt := put_ct 1 ((ct ?y 1)\<lparr>ct_store := s,
      ct_tasks := ct_tasks (ct ?y 1) @ [h_greeting]\<rparr>) ?y\<rparr>)" "store_get WorkerType s = Some (Some hello)"
    by (rule buildWorker_ok [OF inv ct(2)])
  let ?c = "(ct ?y 1)\<lparr>ct_store := s, ct_tasks := ct_tasks (ct ?y 1) @ [h_greeting]\<rparr>"
  let ?b = "a\<lparr>ap_worker := hello, ap_rt := put_ct 1 ?c ?y\<rparr>"
  have hook: "app_hook BuildWorker 1 a = [Ret (?b, None)]"
    using s(1) by simp
  have cts: "ct (ap_rt ?b) 0 = ct ?y 0" "ct (ap_rt ?b) 1 = ?c" "cts (ap_rt ?b) = 2"
    using ct(1) facts(1) by (simp_all add: put_ct_def)
  have "worker_ct True ?c"
    using facts(3) s(2) by (auto simp: worker_ct_def)
  moreover have "task_count 0 (ap_rt ?b) \<le> 1" "task_count 1 (ap_rt ?b) \<le> 1"
    using facts(5,6) unfolding task_count_def cts by simp_all
  moreover have "sy_sh ?y = ShIdle"
    using ctl_idle [OF ctl] main by simp
  ultimately have "rt_app True True (main_at (MainInitHooks 1 []) (ap_rt ?b))"
    using facts cts unfolding rt_app_def task_count_def by simp
  then show ?thesis
    using hook main by (intro that [of ?b]) (simp_all add: same_app_def)
qed

lemma verify_outcomes:
  assumes inv: "rt_app cr bu (ap_rt a)" and "cr" and "Ret (b, err) \<in> set (app_hook VerifyServer i a)"
  shows "err = None \<and> ch_closed (sv_ready (ap_server a)) \<and>
      b = say ''worker startup complete'' [(''application'', ''gx runtime example'')] a \<or>
    err \<noteq> None \<and> err = ctx_err (rt_ctx (sy_rt (ap_rt a))) \<and> b = a"
  using assms Global_ok [OF inv] by (auto simp: verifyServer_def waitReady_def container_Ctx_def split: if_splits)

lemma verify_no_panic:
  assumes inv: "rt_app cr bu (ap_rt a)" and "cr"
  shows "Panic m \<notin> set (app_hook VerifyServer i a)"
  using assms Global_ok [OF inv] by (auto simp: verifyServer_def)

lemma finalize_built:
  assumes inv: "rt_app cr bu (ap_rt a)"
  shows "worker_finalize 1 a =
    (if bu then Ret (say ''worker finalized'' [] a) else Panic (''gx: container worker has no value''))"
  using rt_appD(3) [OF inv]
  by (simp add: worker_ct_def worker_finalize_def container_Get_def container_GetTry_def getValue_def)

lemma stopping_ok:
  assumes "once_ok s"
  obtains s' where "server_stopping s = Ret s'" "once_ok s'" "ch_closed (sv_stop s')" "sv_ready s' = sv_ready s"
proof (cases "sv_stopOnce s")
  case True
  then show ?thesis
    using assms by (intro that [of s]) (simp_all add: server_stopping_def once_ok_def)
next
  case False
  then show ?thesis
    using assms by (intro that [of "s\<lparr>sv_stop := (sv_stop s)\<lparr>ch_closed := True\<rparr>, sv_stopOnce := True\<rparr>"])
      (simp_all add: server_stopping_def chan_close_def once_ok_def)
qed

lemma ready_ok:
  assumes "once_ok s"
  obtains s' where "server_ready s = Ret s'" "once_ok s'" "ch_closed (sv_ready s')" "sv_stop s' = sv_stop s"
proof (cases "sv_readyOnce s")
  case True
  then show ?thesis
    using assms by (intro that [of s]) (simp_all add: server_ready_def once_ok_def)
next
  case False
  then show ?thesis
    using assms by (intro that [of "s\<lparr>sv_ready := (sv_ready s)\<lparr>ch_closed := True\<rparr>, sv_readyOnce := True\<rparr>"])
      (simp_all add: server_ready_def chan_close_def once_ok_def)
qed

definition spoken :: "bool \<Rightarrow> bool \<Rightarrow> bool \<Rightarrow> app \<Rightarrow> bool" where
  "spoken cr bu v a \<longleftrightarrow>
     out_ok cr bu v (ap_rt a) \<and> (ap_greeted a \<longrightarrow> v) \<and>
     ap_out a = startup_out v (ap_greeted a) @ sh_out cr bu (sy_sh (ap_rt a))"

definition app_inv :: "bool \<Rightarrow> bool \<Rightarrow> bool \<Rightarrow> app \<Rightarrow> bool" where
  "app_inv cr bu v a \<longleftrightarrow>
     rt_app cr bu (ap_rt a) \<and> (cr \<longrightarrow> once_ok (ap_server a)) \<and> (bu \<longrightarrow> ap_worker a = hello) \<and>
     (ap_panicked a \<longrightarrow> panic_place bu a) \<and> spoken cr bu v a"

lemma new_once [simp]: "once_ok new_server"
  by (simp add: once_ok_def new_server_def chan_make_def)

lemma main_at_log: "main_at p (log_hook i ph n err y) = log_hook i ph n err (main_at p y)"
    "sh_at q (log_hook i ph n err y) = log_hook i ph n err (sh_at q y)"
  by (simp_all add: main_at_def sh_at_def log_hook_def)

lemma say_rest [simp]:
  "ap_server (say m as a) = ap_server a" "ap_panicked (say m as a) = ap_panicked a" "ap_worker (say m as a) = ap_worker a"
  "ap_serving (say m as a) = ap_serving a" "ap_greeted (say m as a) = ap_greeted a"
  by (simp_all add: say_def)

lemma log_frame [simp]:
  "sy_sh (log_hook i ph n err y) = sy_sh y" "sy_main (log_hook i ph n err y) = sy_main y"
  "sy_tasks (log_hook i ph n err y) = sy_tasks y"
  by (simp_all add: log_hook_def)

lemma say_out [simp]: "ap_out (say m as a) = ap_out a @ [(m, as)]"
  by (simp add: say_def)

lemma out_ok_init_hooks: "out_ok cr bu v (main_at (MainInitHooks i hs) y) \<longleftrightarrow>
    \<not> v \<and> 1 \<notin> tk_ct ` set (sy_tasks y) \<and>
    (cr \<longrightarrow> ct_state (ct y 0) \<noteq> ContainerSetup) \<and> (bu \<longrightarrow> ct_state (ct y 1) \<noteq> ContainerSetup)"
  by (auto simp: out_ok_def)

lemma out_ok_call:
  "out_ok cr bu v y \<Longrightarrow> sy_main y = MainInitCall i h hs \<Longrightarrow> \<not> v \<and> 1 \<notin> tk_ct ` set (sy_tasks y)"
  "out_ok cr bu v y \<Longrightarrow> sy_main y = MainStartCall i h hs \<Longrightarrow> \<not> v \<and> 1 \<notin> tk_ct ` set (sy_tasks y)"
  by (auto simp: out_ok_def)

lemma hook_ends_inv:
  assumes inv: "app_inv cr bu v a" and r: "reach rt_new rt_step (ap_rt a)" and alive: "\<not> ap_panicked a"
    and hook: "hook_in (ap_rt a) = Some (ph, i, h)" and out: "Ret (b, err) \<in> set (app_hook (hk_fn h) i a)"
    and returns: "hook_returns ph i h err (ap_rt b) z"
  shows "\<exists>cr bu v. app_inv cr bu v (b\<lparr>ap_rt := z\<rparr>)"
proof -
  note ctl = runtime_control.reach_inv [OF r]
  have ctl_b: "ctl_inv (ap_rt b)"
    using runtime_control.reach_inv [OF reach_api [OF app_hook_api [OF out hook_in_ct [OF r hook]] r]] .
  have app: "rt_app cr bu (ap_rt a)" and once: "cr \<Longrightarrow> once_ok (ap_server a)"
    and hello: "bu \<Longrightarrow> ap_worker a = hello" and said: "out_ok cr bu v (ap_rt a)" "ap_greeted a \<longrightarrow> v"
      "ap_out a = startup_out v (ap_greeted a) @ sh_out cr bu (sy_sh (ap_rt a))"
    using inv by (simp_all add: app_inv_def spoken_def)
  show ?thesis
    using hook app ctl
  proof (cases rule: hook_in_app)
    case 1
    obtain b' where b: "app_hook CreateServer 0 a = [Ret (b', None)]" "same_app a b'" "ap_server b' = new_server"
        "sy_main (ap_rt b') = MainInitCall 0 h_create []" "rt_app True False (main_at (MainInitHooks 0 []) (ap_rt b'))"
      using create_app [OF _ ctl runtime_init.reach_inv [OF r] 1(4)] app 1(5,6) by auto
    then have eq: "b = b'" "err = None"
      using out 1(2,3) by simp_all
    have z: "z = log_hook 0 PhInit ''create'' None (main_at (MainInitHooks 0 []) (ap_rt b'))"
      using init_returns [OF returns _ ctl_b] 1 b(4) eq by (simp add: main_at_log)
    have "sy_sh (ap_rt a) = ShIdle" "ct_state (ct (ap_rt b') 0) = ContainerInitializing"
      using ctl_idle [OF ctl] main_ok_of [OF ctl_b] 1(4) b(4,5) eq rt_appD(1) [OF b(5)] by auto
    then have "spoken True False v (b\<lparr>ap_rt := z\<rparr>)"
      using said out_ok_call(1) [OF said(1) 1(4)] b(2) eq
      unfolding z by (simp add: spoken_def same_app_def out_ok_init_hooks)
    then show ?thesis
      using b(2,3,5) eq alive
      by (intro exI [of _ True] exI [of _ False] exI [of _ v]) (simp add: app_inv_def same_app_def z log_hook_app)
  next
    case 2
    obtain b' where b: "app_hook BuildWorker 1 a = [Ret (b', None)]" "same_app a b'" "ap_server b' = ap_server a"
        "ap_worker b' = hello"
        "sy_main (ap_rt b') = MainInitCall 1 h_build []" "rt_app True True (main_at (MainInitHooks 1 []) (ap_rt b'))"
      using build_app [OF _ ctl 2(4)] app 2(5,6) by auto
    then have eq: "b = b'" "err = None"
      using out 2(2,3) by simp_all
    have z: "z = log_hook 1 PhInit ''build worker'' None (main_at (MainInitHooks 1 []) (ap_rt b'))"
      using init_returns [OF returns _ ctl_b] 2 b(5) eq by (simp add: main_at_log)
    have "sy_sh (ap_rt a) = ShIdle" "states_of (ap_rt b') ! 1 = ContainerInitializing" "states_of (ap_rt b') ! 0 \<noteq> ContainerSetup"
      using ctl_idle [OF ctl] main_ok_of [OF ctl_b] 2(4) b(5) eq by (auto simp: all_at_def split: if_splits)
    then have "spoken True True v (b\<lparr>ap_rt := z\<rparr>)"
      using said out_ok_call(1) [OF said(1) 2(4)] b(2) eq rt_appD(1) [OF b(6)]
      unfolding z by (simp add: spoken_def same_app_def out_ok_init_hooks)
    then show ?thesis
      using b(2,3,4,6) eq alive once 2(5)
      by (intro exI [of _ True] exI [of _ v]) (simp add: app_inv_def same_app_def z log_hook_app)
  next
    case 3
    have verified: "err = None \<and> b = say ''worker startup complete'' [(''application'', ''gx runtime example'')] a \<or>
        err \<noteq> None \<and> err = ctx_err (rt_ctx (sy_rt (ap_rt a))) \<and> b = a"
      using verify_outcomes [OF app 3(5), of b err i] out 3(3) by auto
    then have b: "ap_rt b = ap_rt a" "ap_server b = ap_server a" "ap_panicked b = ap_panicked a"
      by auto
    have ended: "\<not> live (ap_rt a)" if "err \<noteq> None"
      using verified that by metis
    have app': "rt_app cr bu (main_at (case err of None \<Rightarrow> MainStartHooks 1 [] | Some e \<Rightarrow> MainFail x) (ap_rt a))" for x
      using ended 3(5,6) by (intro move_app [OF app]) (simp split: option.split)
    have idle: "sy_sh (ap_rt a) = ShIdle" "\<not> v \<and> 1 \<notin> tk_ct ` set (sy_tasks (ap_rt a))"
      using ctl_idle [OF ctl] 3(4) out_ok_call(2) [OF said(1) 3(4)] by auto
    show ?thesis
    proof (cases err)
      case None
      then have z: "z = log_hook 1 PhStart ''verify server'' None (main_at (MainStartHooks 1 []) (ap_rt a))"
        using start_returns [OF returns _ ctl_b, of "[]"] 3(2-4) b(1) by (simp add: main_at_log)
      have "spoken cr bu True (b\<lparr>ap_rt := z\<rparr>)"
        using said idle verified None 3(6) by (auto simp: spoken_def z out_ok_def startup_out_def)
      then show ?thesis
        using b alive once hello app' None verified
        by (intro exI [of _ cr] exI [of _ bu] exI [of _ True]) (simp add: app_inv_def z log_hook_app)
    next
      case (Some e)
      then obtain x where z: "z = log_hook 1 PhStart ''verify server'' (Some x) (main_at (MainFail x) (ap_rt a))"
        using start_returns [OF returns _ ctl_b, of "[]"] 3(2-4) b(1) by (simp add: main_at_log)
      have "spoken cr bu v (b\<lparr>ap_rt := z\<rparr>)"
        using said idle verified Some by (auto simp: spoken_def z out_ok_def)
      then show ?thesis
        using b alive once hello app' [of x] Some verified
        by (intro exI [of _ cr] exI [of _ bu] exI [of _ v]) (simp add: app_inv_def z log_hook_app)
    qed
  next
    case (4 stops)
    obtain s where s: "server_stopping (ap_server a) = Ret s" "once_ok s"
      using stopping_ok [OF once [OF 4(5)]] by metis
    then have b: "b = say ''server is stopping'' [] (a\<lparr>ap_server := s\<rparr>)" "err = None"
      using out 4(3) by simp_all
    have sh: "sh_app cr bu (ShStopping 0 [] stops None)"
      using rt_appD(10) [OF app] 4(4) by auto
    have z: "z = log_hook 0 PhStopping ''stop accepting requests'' None (sh_at (ShStopping 0 [] stops None) (ap_rt a))"
      using stopping_returns [OF returns _ ctl_b, of "[]" stops None] 4(2-4) b by (simp add: main_at_log)
    have "spoken cr bu v (b\<lparr>ap_rt := z\<rparr>)"
      using said 4(4,5) unfolding z b by (simp add: spoken_def)
    then show ?thesis
      using b alive s(2) hello log_hook_app [OF sh_move_app [OF app sh]]
      by (intro exI [of _ cr] exI [of _ bu] exI [of _ v]) (simp add: app_inv_def z)
  next
    case 5
    then have b: "bu" "b = say ''worker finalized'' [] a" "err = None"
      using out finalize_built [OF app] by (auto split: if_splits)
    then have sh: "sh_app cr bu (ShStop 1 [] None)" by simp
    have z: "z = log_hook 1 PhStop ''finalize worker'' None (sh_at (ShStop 1 [] None) (ap_rt a))"
      using stop_returns [OF returns _ ctl_b, of "[]" None] 5(2-4) b by (simp add: main_at_log)
    have "spoken cr bu v (b\<lparr>ap_rt := z\<rparr>)"
      using said 5(4) unfolding z b by (simp add: spoken_def)
    then show ?thesis
      using b alive once hello log_hook_app [OF sh_move_app [OF app sh]]
      by (intro exI [of _ cr] exI [of _ bu] exI [of _ v]) (simp add: app_inv_def z)
  next
    case 6
    then have b: "b = say ''server resources closed'' [] a" "err = None"
      using out by simp_all
    have sh: "sh_app cr bu (ShStop 0 [] None)" by simp
    have z: "z = log_hook 0 PhStop ''close resources'' None (sh_at (ShStop 0 [] None) (ap_rt a))"
      using stop_returns [OF returns _ ctl_b, of "[]" None] 6(2-4) b by (simp add: main_at_log)
    have "spoken cr bu v (b\<lparr>ap_rt := z\<rparr>)"
      using said 6(4,5) unfolding z b by (simp add: spoken_def)
    then show ?thesis
      using b alive once hello log_hook_app [OF sh_move_app [OF app sh]]
      by (intro exI [of _ cr] exI [of _ bu] exI [of _ v]) (simp add: app_inv_def z)
  qed
qed

lemma app_move_inv:
  assumes "app_move a b" and r: "reach rt_new rt_step (ap_rt a)" and alive: "\<not> ap_panicked a" and inv: "app_inv cr bu v a"
  shows "\<exists>cr bu v. app_inv cr bu v b"
proof -
  note ctl = runtime_control.reach_inv [OF r]
  have app: "rt_app cr bu (ap_rt a)" and once: "cr \<Longrightarrow> once_ok (ap_server a)"
    and hello: "bu \<Longrightarrow> ap_worker a = hello" and said: "spoken cr bu v a"
    using inv by (simp_all add: app_inv_def)
  have out: "out_ok cr bu v (ap_rt a)"
    using said by (simp add: spoken_def)
  note two_cts = rt_appD(1) [OF app]
  have rest: ?thesis if "b = a\<lparr>ap_rt := z\<rparr>" "rt_app cr bu z" "out_ok cr bu v z"
      "sh_out cr bu (sy_sh z) = sh_out cr bu (sy_sh (ap_rt a))" for z
    using that once alive hello said
    by (intro exI [of _ cr] exI [of _ bu] exI [of _ v]) (simp add: app_inv_def spoken_def)
  have task: cr "task_error (tk_pc t) = None" if "in_task k t name a" for k t name
  proof -
    have t: "t \<in> set (sy_tasks (ap_rt a))"
      using that by (auto simp: in_task_def task_at_def)
    then have "filter (\<lambda>u. tk_ct u = tk_ct t) (sy_tasks (ap_rt a)) \<noteq> []"
      by (auto simp: filter_empty_conv)
    then have "0 < task_count (tk_ct t) (ap_rt a)"
      by (simp add: task_count_def)
    moreover have fine: "task_fine t"
      using rt_appD(11) [OF app t] .
    ultimately show cr
      using rt_appD(4,5,6) [OF app] by (cases cr; cases bu) (auto simp: task_fine_def)
    show "task_error (tk_pc t) = None"
      using fine by (simp add: task_fine_def)
  qed
  have returned: "rt_app cr bu (task_returned k t err (ap_rt a))"
    if "in_task k t name a" "err = None \<or> err = ctx_err (rt_ctx (sy_rt (ap_rt a)))" for k t name err
  proof -
    have "task_result (rt_ctx (sy_rt (ap_rt a))) c n err = None" for c n
      using that(2) rt_appD(15) [OF app] by (auto simp: task_result_def ctx_quiet_def Let_def)
    then show ?thesis
      using that(1) unfolding task_returned_def in_task_def by (intro set_task_app [OF _ app, of k t]) simp_all
  qed
  have after: "out_ok cr bu v (task_returned k t err (ap_rt a))"
      "sy_sh (task_returned k t err (ap_rt a)) = sy_sh (ap_rt a)" if "in_task k t name a" for k t name err
    using task_step_out [OF task_returned_step [OF that] out two_cts] .
  from assms(1) show ?thesis
  proof cases
    case (runs parent r')
    then show ?thesis
      using runs_app [OF runs(2,3,5) app] run_out [OF runs(2,3) out] by (intro rest [OF runs(1)]) simp_all
  next
    case by_program
    then show ?thesis
    proof cases
      case (goes_on z)
      then show ?thesis
        using main_step_app [OF _ goes_on(2,4) app ctl] shutdown_step_app [OF _ goes_on(4) app ctl]
          main_step_out [OF _ goes_on(2,4) app ctl out] shutdown_step_out [OF _ goes_on(4) app ctl out]
          main_step_sh [of "ap_rt a" z]
        by (intro rest [OF goes_on(1)]) auto
    next
      case (hook_ends ph i h c err z)
      then show ?thesis using hook_ends_inv [OF inv r alive hook_ends(2,3,4)] by simp
    next
      case (hook_panics ph i h m)
      from hook_panics(2) app ctl have "panic_place bu a"
      proof (cases rule: hook_in_app)
        case 1
        then show ?thesis
          using create_app [OF _ ctl runtime_init.reach_inv [OF r] 1(4)] app hook_panics(3) by fastforce
      next
        case 2
        then show ?thesis using build_app [OF _ ctl 2(4)] app hook_panics(3) by fastforce
      next
        case 3
        then show ?thesis using verify_no_panic [OF app 3(5)] hook_panics(3) by simp
      next
        case (4 stops)
        obtain s where "server_stopping (ap_server a) = Ret s"
          using stopping_ok [OF once [OF 4(5)]] by metis
        then show ?thesis using hook_panics(3) 4(3) by simp
      next
        case 5
        then show ?thesis using finalize_built [OF app] hook_panics(3) by (auto simp: panic_place_def split: if_splits)
      next
        case 6
        then show ?thesis using hook_panics(3) by simp
      qed
      then show ?thesis
        using app once hello said hook_panics(1)
        by (intro exI [of _ cr] exI [of _ bu] exI [of _ v]) (simp add: app_inv_def spoken_def panic_place_def)
    next
      case (serves k t s)
      obtain s' where "server_ready (ap_server a) = Ret s'" "once_ok s'"
        using ready_ok [OF once [OF task(1) [OF serves(2)]]] by metis
      then show ?thesis
        using serves app alive hello said
        by (intro exI [of _ cr] exI [of _ bu] exI [of _ v]) (simp add: app_inv_def spoken_def)
    next
      case (serve_panics k t m)
      obtain s' where "server_ready (ap_server a) = Ret s'"
        using ready_ok [OF once [OF task(1) [OF serve_panics(2)]]] by metis
      then show ?thesis using serve_panics by simp
    next
      case (serve_returns k t err)
      then show ?thesis
        using returned [OF serve_returns(2), of err] after [OF serve_returns(2), of err]
        by (intro rest [OF serve_returns(1)]) (auto simp: server_select_def split: if_splits)
    next
      case (greets k t)
      have t: "t \<in> set (sy_tasks (ap_rt a))" "tk_ct t = 1" "tk_pc t = TaskBody"
        using greets(2) rt_appD(11) [OF app, of t] by (auto simp: in_task_def task_at_def task_fine_def)
      moreover have "1 \<in> tk_ct ` set (sy_tasks (ap_rt a))"
        using t(1,2) by (metis imageI)
      ultimately have "v" "bu"
        using out by (auto simp: out_ok_def)
      then have "spoken cr bu v b"
        using greeting_quiet [OF t app ctl runtime_tasks.reach_inv [OF r]] said greets(3) hello
        unfolding greets(1) by (simp add: spoken_def startup_out_def)
      then show ?thesis
        using app once hello alive unfolding greets(1)
        by (intro exI [of _ cr] exI [of _ bu] exI [of _ v]) (simp add: app_inv_def)
    next
      case (greeting_returns k t err)
      then show ?thesis
        using returned [OF greeting_returns(2), of err] after [OF greeting_returns(2), of err]
        by (intro rest [OF greeting_returns(1)]) simp_all
    next
      case (task_ends z)
      then show ?thesis
        using task_step_app [OF task_ends(2,3) app] task_step_out [OF task_ends(2) out two_cts]
        by (intro rest [OF task_ends(1)]) simp_all
    qed
  next
    case (context_changes z)
    then show ?thesis
      using context_step_app [OF context_changes(2) app context_changes(3)] context_step_out [OF context_changes(2) out]
      by (intro rest [OF context_changes(1)]) simp_all
  qed
qed

lemma app_start_inv:
  assumes "app_start a"
  shows "app_inv False False False a"
proof -
  note y = app_setup_Ret [of "ap_rt a"]
  show ?thesis
    using assms y
    by (simp add: app_start_def app_inv_def rt_app_def server_ct_def worker_ct_def task_count_def NewContainer_def
        spoken_def out_ok_def startup_out_def rt_start_def NewRuntime_def store_get_def newStore_def gm_defs ctx_quiet_def live_ctx_def)
qed

lemma app_reach_inv: "reach app_start app_step a \<Longrightarrow> \<exists>cr bu v. app_inv cr bu v a"
proof (induction rule: reach.induct)
  case (reach_start s)
  then show ?case by (blast intro: app_start_inv)
next
  case (reach_step s t)
  then show ?case
    using app_move_inv app_reach_rt unfolding app_step_def by metis
qed

end
