(* ===== verification/Gx_Example_Runtime_Run.thy ===== *)
theory Gx_Example_Runtime_Run imports Gx_Example_Runtime_Correct begin

text \<open>
  A scheduler for the program of \<open>Gx_Example_Runtime\<close>: who goes next, and which of its possible
  outcomes a \<open>select\<close> has, is a choice; what they do is computed. Two runs of it: one that is interrupted when everything works, and one that
  is interrupted between the creation of the server and the construction of the worker.
\<close>

section \<open>Choices\<close>

datatype app_choice = ChRun ctx | ChMain | ChShutdown | ChHook nat | ChTask nat nat | ChSignal | ChMirror

fun init_hooks_go :: "nat \<Rightarrow> app_fn hook list \<Rightarrow> app_rt \<Rightarrow> app_rt" where
  "init_hooks_go i [] y = main_at (MainInit (Suc i)) (put_ct i (container_init_end (rt_ctx (sy_rt y)) (ct y i)) y)"
| "init_hooks_go i (h # hs) y = main_at (if live y then MainInitCall i h hs else MainInit (Suc i)) y"

fun start_hooks_go :: "nat \<Rightarrow> app_fn hook list \<Rightarrow> app_rt \<Rightarrow> app_rt" where
  "start_hooks_go i [] y =
     (case container_start_end (rt_ctx (sy_rt y)) (sy_next y) (ct y i, rt_runner (sy_rt y)) of
        ((c, r), hs) \<Rightarrow> main_at (MainStart (Suc i)) (launch i hs (put_runner r (put_ct i c y))))"
| "start_hooks_go i (h # hs) y = main_at (if live y then MainStartCall i h hs else MainStart (Suc i)) y"

definition main_go :: "app_rt \<Rightarrow> app_rt option" where
  "main_go y =
     (case sy_main y of
        MainInit i \<Rightarrow>
          (if i = cts y then Some (main_at MainStarting y)
           else if cts y < i then None
           else if \<not> live y then Some (main_at MainStarted y)
           else (case container_init_begin (ct y i) of
                   Panic m \<Rightarrow> None
                 | Ret (c, hs) \<Rightarrow> Some (main_at (MainInitHooks i hs) (put_ct i c y))))
      | MainInitHooks i hs \<Rightarrow> Some (init_hooks_go i hs y)
      | MainStarting \<Rightarrow>
          Some (if live y then main_at (MainStart 0) (y\<lparr>sy_rt := (sy_rt y)\<lparr>rt_state := RuntimeRunning\<rparr>\<rparr>)
                else main_at MainStarted y)
      | MainStart i \<Rightarrow>
          (if i = cts y then Some (main_at MainStarted y)
           else if cts y < i then None
           else if \<not> live y then Some (main_at MainStarted y)
           else (case container_start_begin (ct y i) of
                   Panic m \<Rightarrow> None
                 | Ret (c, hs) \<Rightarrow> Some (main_at (MainStartHooks i hs) (put_ct i c y))))
      | MainStartHooks i hs \<Rightarrow> Some (start_hooks_go i hs y)
      | MainFail e \<Rightarrow> (if live y then None else Some (main_at MainStarted y))
      | MainStarted \<Rightarrow> Some (main_at MainWait (y\<lparr>sy_rt := (sy_rt y)\<lparr>rt_startupDone := True\<rparr>\<rparr>))
      | MainWait \<Rightarrow>
          map_option (\<lambda>(r, err). main_at (MainCancelTasks err) (put_runner r y)) (runner_Wait (rt_runner (sy_rt y)))
      | MainCancelTasks err \<Rightarrow> Some (main_at (MainShutdown err) (put_ctx (cancel_cause None (rt_ctx (sy_rt y))) y))
      | MainShutdown err \<Rightarrow>
          (if sy_sh y = ShDone
           then Some (main_at (MainReturned (if err \<noteq> None then err else rt_stopErr (sy_rt y)))
                  (y\<lparr>sy_rt := (sy_rt y)\<lparr>rt_state := RuntimeStopped\<rparr>\<rparr>))
           else None)
      | _ \<Rightarrow> None)"

definition sh_go :: "app_rt \<Rightarrow> app_rt option" where
  "sh_go y =
     (case sy_sh y of
        ShIdle \<Rightarrow>
          (if sy_main y \<noteq> MainSetup \<and> \<not> live y \<and> rt_startupDone (sy_rt y) then Some (sh_at (ShNext (cts y)) y) else None)
      | ShNext 0 \<Rightarrow> Some (sh_at ShDone y)
      | ShNext (Suc i) \<Rightarrow>
          (case container_shutdown_begin (ct y i) of
             None \<Rightarrow> Some (sh_at (ShNext i) y)
           | Some (c, stopping, stops) \<Rightarrow> Some (sh_at (ShStopping i (rev stopping) (rev stops) None) (put_ct i c y)))
      | ShStopping i [] stops e \<Rightarrow> (if ct_wg (ct y i) = 0 then Some (sh_at (ShStop i stops e) y) else None)
      | ShStop i [] e \<Rightarrow>
          Some (sh_at (ShNext i) (put_ct i (container_shutdown_end (ct y i))
            (y\<lparr>sy_rt := (sy_rt y)\<lparr>rt_stopErr := keep_first (rt_stopErr (sy_rt y)) e\<rparr>\<rparr>)))
      | _ \<Rightarrow> None)"

definition hook_return :: "rt_phase \<Rightarrow> nat \<Rightarrow> app_fn hook \<Rightarrow> error option \<Rightarrow> app_rt \<Rightarrow> app_rt" where
  "hook_return ph i h err y =
     (let e = hook_error (ct y i) h err; z = log_hook i ph (hk_name h) e y
      in case sy_main y of
           MainInitCall j g hs \<Rightarrow> main_at (case e of None \<Rightarrow> MainInitHooks j hs | Some x \<Rightarrow> MainFail x) z
         | MainStartCall j g hs \<Rightarrow> main_at (case e of None \<Rightarrow> MainStartHooks j hs | Some x \<Rightarrow> MainFail x) z
         | _ \<Rightarrow>
             (case sy_sh y of
                ShStopping j hs stops e' \<Rightarrow> sh_at (ShStopping j (tl hs) stops (keep_first e' e)) z
              | ShStop j hs e' \<Rightarrow> sh_at (ShStop j (tl hs) (keep_first e' e)) z
              | _ \<Rightarrow> z))"

definition pick :: "nat \<Rightarrow> 'a list \<Rightarrow> 'a option" where
  "pick n xs = (if n < length xs then Some (xs ! n) else None)"

lemma pick_set: "pick n xs = Some x \<Longrightarrow> x \<in> set xs"
  by (auto simp: pick_def split: if_splits)

definition hook_go :: "nat \<Rightarrow> app \<Rightarrow> app option" where
  "hook_go n a =
     (case hook_in (ap_rt a) of
        None \<Rightarrow> None
      | Some (ph, i, h) \<Rightarrow>
          (case pick n (app_hook (hk_fn h) i a) of
             None \<Rightarrow> None
           | Some (Panic m) \<Rightarrow> Some (a\<lparr>ap_panicked := True\<rparr>)
           | Some (Ret (b, err)) \<Rightarrow> Some (b\<lparr>ap_rt := hook_return ph i h err (ap_rt b)\<rparr>)))"

text \<open>\<open>Worker.run\<close>: the first \<open>select\<close> until the greeting, then only the end of the context.\<close>

definition worker_select :: "ctx \<Rightarrow> app \<Rightarrow> error option list" where
  "worker_select ctx a =
     (if \<not> ap_greeted a \<and> ch_closed (sv_ready (ap_server a)) then [None] else []) @
     (if ctx_err ctx \<noteq> None then [ctx_err ctx] else [])"

definition body_go :: "nat \<Rightarrow> nat \<Rightarrow> task_run \<Rightarrow> app \<Rightarrow> app option" where
  "body_go n k t a =
     (let x = rt_ctx (sy_rt (ap_rt a))
      in if tk_name t = ''serve'' then
           if ap_serving a then
             (case pick n (server_select x (ap_server a)) of
                None \<Rightarrow> None
              | Some err \<Rightarrow> Some (a\<lparr>ap_rt := task_returned k t err (ap_rt a)\<rparr>))
           else (case server_ready (ap_server a) of
                   Panic m \<Rightarrow> Some (a\<lparr>ap_panicked := True\<rparr>)
                 | Ret s \<Rightarrow> Some (a\<lparr>ap_server := s, ap_serving := True\<rparr>))
         else if tk_name t = ''greeting'' then
           (case pick n (worker_select x a) of
              None \<Rightarrow> None
            | Some None \<Rightarrow>
                Some (say ''worker running'' [(''message'', worker_message (ap_worker a))] (a\<lparr>ap_greeted := True\<rparr>))
            | Some err \<Rightarrow> Some (a\<lparr>ap_rt := task_returned k t err (ap_rt a)\<rparr>))
         else None)"

definition task_go :: "nat \<Rightarrow> task_run \<Rightarrow> app_rt \<Rightarrow> app_rt option" where
  "task_go k t y =
     (case tk_pc t of
        TaskBody \<Rightarrow> None
      | TaskStop err \<Rightarrow> Some (set_task k (TaskDone err) (put_ct (tk_ct t) (container_stopTask (tk_name t) (ct y (tk_ct t))) y))
      | TaskDone err \<Rightarrow>
          Some (set_task k (TaskReport err)
            (put_ct (tk_ct t) ((ct y (tk_ct t))\<lparr>ct_wg := ct_wg (ct y (tk_ct t)) - 1\<rparr>) y))
      | TaskReport err \<Rightarrow>
          Some (report_error err (put_runner (runner_finish (tk_id t) err (rt_runner (sy_rt y)))
            (y\<lparr>sy_tasks := take k (sy_tasks y) @ drop (Suc k) (sy_tasks y)\<rparr>))))"

fun app_choose :: "app_choice \<Rightarrow> app \<Rightarrow> app option" where
  "app_choose (ChRun parent) a =
     (if sy_main (ap_rt a) = MainSetup \<and> ctx_wf parent \<and> ctx_err parent \<in> {None, Some Canceled}
      then (case runtime_Run_begin (Some parent) [app_options] (sy_rt (ap_rt a)) of
              Panic m \<Rightarrow> None
            | Ret r \<Rightarrow> Some (a\<lparr>ap_rt := main_at (MainInit 0)
                         ((ap_rt a)\<lparr>sy_rt := r, sy_parent := parent, sy_deadline := False\<rparr>)\<rparr>))
      else None)"
| "app_choose ChMain a = map_option (\<lambda>z. a\<lparr>ap_rt := z\<rparr>) (main_go (ap_rt a))"
| "app_choose ChShutdown a =
     (if sy_main (ap_rt a) = MainSetup then None else map_option (\<lambda>z. a\<lparr>ap_rt := z\<rparr>) (sh_go (ap_rt a)))"
| "app_choose (ChHook n) a = hook_go n a"
| "app_choose (ChTask n k) a =
     (if k < length (sy_tasks (ap_rt a))
      then let t = sy_tasks (ap_rt a) ! k
           in if tk_pc t = TaskBody then body_go n k t a
              else map_option (\<lambda>z. a\<lparr>ap_rt := z\<rparr>) (task_go k t (ap_rt a))
      else None)"
| "app_choose ChSignal a =
     (let y = ap_rt a; parent = cancel_cause None live_ctx
      in if sy_main y \<noteq> MainSetup \<and> ctx_err (sy_parent y) = None
         then Some (a\<lparr>ap_rt := put_runner ((rt_runner (sy_rt y))\<lparr>rn_ctx := inherit parent (rn_ctx (rt_runner (sy_rt y)))\<rparr>)
                (y\<lparr>sy_parent := parent\<rparr>)\<rparr>)
         else None)"
| "app_choose ChMirror a =
     (let y = ap_rt a
      in if ctx_err (sy_parent y) = Some Canceled
         then Some (a\<lparr>ap_rt := put_ctx (cancel_cause None (rt_ctx (sy_rt y))) y\<rparr>) else None)"

fun app_run :: "app_choice list \<Rightarrow> app \<Rightarrow> app option" where
  "app_run [] a = Some a"
| "app_run (c # cs) a = (if ap_panicked a then None else Option.bind (app_choose c a) (app_run cs))"

section \<open>Choices are steps\<close>

lemma logs [simp]:
  "sy_log (main_at p y) = sy_log y" "sy_log (sh_at q y) = sy_log y" "sy_log (put_ctx x y) = sy_log y"
  "sy_log (put_runner r y) = sy_log y" "sy_log (launch i hs y) = sy_log y" "sy_log (report_error e y) = sy_log y"
  by (simp_all add: rt_put_defs)

lemma init_hooks_step: "sy_main y = MainInitHooks i hs \<Longrightarrow> main_step y (init_hooks_go i hs y) \<and> sy_log (init_hooks_go i hs y) = sy_log y"
  by (cases hs) (auto intro: init_ends init_calls init_hooks_ctx)

lemma start_hooks_step: "sy_main y = MainStartHooks i hs \<Longrightarrow> main_step y (start_hooks_go i hs y) \<and> sy_log (start_hooks_go i hs y) = sy_log y"
  by (cases hs) (auto intro: start_ends start_calls start_hooks_ctx split: prod.split)

lemma main_go_step:
  assumes "main_go y = Some z"
  shows "main_step y z \<and> sy_log z = sy_log y \<and> sy_main y \<noteq> MainSetup"
proof (cases "sy_main y")
  case (MainInitHooks i hs)
  then show ?thesis using assms init_hooks_step [OF MainInitHooks] by (auto simp: main_go_def)
next
  case (MainStartHooks i hs)
  then show ?thesis using assms start_hooks_step [OF MainStartHooks] by (auto simp: main_go_def)
next
  case (MainShutdown err)
  then show ?thesis using assms main_returns [OF MainShutdown] by (auto simp: main_go_def split: if_splits)
qed (use assms in \<open>auto simp: main_go_def linorder_neq_iff intro: main_step.intros split: if_splits go.splits prod.splits\<close>)

lemma sh_go_step:
  assumes "sh_go y = Some z"
  shows "shutdown_step y z \<and> sy_log z = sy_log y"
proof (cases "sy_sh y")
  case (ShNext k)
  then show ?thesis
    using assms by (cases k) (auto simp: sh_go_def intro: shutdown_step.intros split: option.splits)
next
  case (ShStopping i hs stops e)
  then show ?thesis
    using assms by (cases hs) (auto simp: sh_go_def intro: shutdown_step.intros split: if_splits)
next
  case (ShStop i hs e)
  then show ?thesis
    using assms by (cases hs) (auto simp: sh_go_def intro: shutdown_step.intros)
qed (use assms in \<open>auto simp: sh_go_def intro: shutdown_step.intros split: if_splits\<close>)

lemma hook_in_cases:
  assumes "hook_in y = Some (ph, i, h)"
  obtains hs where "sy_main y = MainInitCall i h hs" "ph = PhInit"
  | hs where "sy_main y = MainStartCall i h hs" "ph = PhStart"
  | hs stops e where "\<forall>j g gs. sy_main y \<noteq> MainInitCall j g gs \<and> sy_main y \<noteq> MainStartCall j g gs"
      "sy_sh y = ShStopping i (h # hs) stops e" "ph = PhStopping"
  | hs e where "\<forall>j g gs. sy_main y \<noteq> MainInitCall j g gs \<and> sy_main y \<noteq> MainStartCall j g gs"
      "sy_sh y = ShStop i (h # hs) e" "ph = PhStop"
  using assms by (auto simp: hook_in_def split: main_pc.splits sh_pc.splits list.splits)

text \<open>A hook does not move the goroutine that calls it.\<close>

lemma sys_calls_stay:
  "sys_container i f y = Ret z \<Longrightarrow> sy_main z = sy_main y \<and> sy_sh z = sy_sh y"
  "sys_Run i n g y = Ret z \<Longrightarrow> sy_main z = sy_main y \<and> sy_sh z = sy_sh y"
  by (auto simp: sys_container_def go_bind_eq_Ret put_ct_def)
    (auto elim!: Run_cases simp: put_ct_def launch_def put_runner_def)

lemma hook_stays:
  assumes "Ret (b, err) \<in> set (app_hook f i a)"
  shows "sy_main (ap_rt b) = sy_main (ap_rt a) \<and> sy_sh (ap_rt b) = sy_sh (ap_rt a)"
proof (cases f)
  case CreateServer
  then show ?thesis
    using assms by (auto simp: Ret_eq_bind go_bind_eq_Ret newServer_def dest!: sys_calls_stay)
next
  case BuildWorker
  then show ?thesis
    using assms by (auto simp: Ret_eq_bind go_bind_eq_Ret buildWorker_def Let_def dest!: sys_calls_stay)
qed (use assms in \<open>auto simp: Ret_eq_bind go_bind_eq_Ret verifyServer_def worker_finalize_def split: go.splits\<close>)

lemma hook_return_ok:
  assumes "hook_in y = Some (ph, i, h)"
  shows "hook_returns ph i h err y (hook_return ph i h err y)"
  using assms
proof (cases rule: hook_in_cases)
  case (1 hs)
  then show ?thesis
    using init_hook [OF 1(1), of err] by (auto simp: hook_returns_def hook_return_def Let_def log_hook_def main_at_def)
next
  case (2 hs)
  then show ?thesis
    using start_hook [OF 2(1), of err] by (auto simp: hook_returns_def hook_return_def Let_def log_hook_def main_at_def)
next
  case (3 hs stops e)
  then have "hook_return ph i h err y =
      sh_at (ShStopping i hs stops (keep_first e (hook_error (ct y i) h err)))
        (log_hook i PhStopping (hk_name h) (hook_error (ct y i) h err) y)"
    by (auto simp: hook_return_def Let_def split: main_pc.split)
  then show ?thesis
    using sh_stopping_hook [OF 3(2), of err] 3(3) by (simp add: hook_returns_def log_hook_def)
next
  case (4 hs e)
  then have "hook_return ph i h err y = sh_at (ShStop i hs (keep_first e (hook_error (ct y i) h err)))
        (log_hook i PhStop (hk_name h) (hook_error (ct y i) h err) y)"
    by (auto simp: hook_return_def Let_def split: main_pc.split)
  then show ?thesis
    using sh_stop_hook [OF 4(2), of err] 4(3) by (simp add: hook_returns_def log_hook_def)
qed

lemma hook_go_own:
  assumes "hook_go n a = Some b"
  shows "app_own a b"
proof -
  obtain ph i h o1 where hook: "hook_in (ap_rt a) = Some (ph, i, h)" "pick n (app_hook (hk_fn h) i a) = Some o1"
    using assms by (auto simp: hook_go_def split: option.splits prod.splits)
  note out = pick_set [OF hook(2)]
  show ?thesis
  proof (cases o1)
    case (Ret r)
    obtain c err where r: "r = (c, err)" by (cases r)
    have out': "Ret (c, err) \<in> set (app_hook (hk_fn h) i a)"
      using out Ret r by simp
    have "hook_in (ap_rt c) = Some (ph, i, h)"
      using hook(1) unfolding hook_in_def conjunct1 [OF hook_stays [OF out']] conjunct2 [OF hook_stays [OF out']] .
    then show ?thesis
      using hook_ends [OF hook(1) out' hook_return_ok] assms hook Ret r by (simp add: hook_go_def)
  next
    case (Panic m)
    then show ?thesis
      using hook_panics [OF hook(1), of m] assms hook out by (simp add: hook_go_def)
  qed
qed

lemma task_go_step:
  assumes "task_go k t y = Some z" and "task_at k t y"
  shows "task_step y z \<and> bodies z = bodies y"
proof -
  have k: "k < length (sy_tasks y)" "sy_tasks y ! k = t"
    using assms(2) by (auto simp: task_at_def)
  have tasks: "sy_tasks y = take k (sy_tasks y) @ t # drop (Suc k) (sy_tasks y)"
    using k id_take_nth_drop by metis
  have old: "bodies y = filter (\<lambda>t. tk_pc t = TaskBody) (take k (sy_tasks y)) @ filter (\<lambda>t. tk_pc t = TaskBody) (drop (Suc k) (sy_tasks y))"
    if "tk_pc t \<noteq> TaskBody"
    by (subst bodies_def, subst tasks) (use that in simp)
  have "bodies (set_task k p (put_ct i c y)) = bodies y" if "tk_pc t \<noteq> TaskBody" "p \<noteq> TaskBody" for p i c
    unfolding old [OF that(1)] using k that(2) by (simp add: bodies_def set_task_def upd_conv_take_nth_drop)
  note keeps = this
  show ?thesis
  proof (cases "tk_pc t")
    case (TaskStop err)
    then show ?thesis using assms task_stops [OF assms(2) TaskStop] keeps by (auto simp: task_go_def)
  next
    case (TaskDone err)
    then show ?thesis using assms task_done [OF assms(2) TaskDone] keeps by (auto simp: task_go_def)
  next
    case (TaskReport err)
    then have "bodies z = bodies y"
      using assms(1) old by (auto simp: task_go_def bodies_def report_error_def put_runner_def)
    then show ?thesis using assms task_reports [OF assms(2) TaskReport] TaskReport by (auto simp: task_go_def)
  qed (use assms in \<open>simp add: task_go_def\<close>)
qed

lemma body_go_own:
  assumes "body_go n k t a = Some b" and "task_at k t (ap_rt a)" and "tk_pc t = TaskBody"
  shows "app_own a b"
proof (cases "tk_name t = ''greeting''")
  case True
  then have task: "in_task k t ''greeting'' a"
    using assms(2,3) by (simp add: in_task_def)
  obtain err where err: "pick n (worker_select (rt_ctx (sy_rt (ap_rt a))) a) = Some err"
    using assms(1) True by (auto simp: body_go_def Let_def split: option.splits)
  then show ?thesis
    using assms(1) True pick_set [OF err] greets [OF task] greeting_returns [OF task refl]
    by (cases err) (auto simp: body_go_def Let_def worker_select_def split: if_splits)
next
  case False
  then show ?thesis
    using assms
    by (auto simp: body_go_def Let_def in_task_def split: if_splits option.splits go.splits dest: pick_set intro: app_own.intros)
qed

fun own_choice :: "app_choice \<Rightarrow> bool" where
  "own_choice (ChRun parent) = False"
| "own_choice ChSignal = False"
| "own_choice ChMirror = False"
| "own_choice c = True"

lemma own_choice_own:
  assumes "app_choose c a = Some b" and "own_choice c"
  shows "app_own a b"
proof (cases c)
  case ChMain
  then show ?thesis
    using assms main_go_step by (auto intro!: goes_on)
next
  case ChShutdown
  then show ?thesis
    using assms sh_go_step by (auto intro!: goes_on split: if_splits)
next
  case (ChHook n)
  then show ?thesis
    using assms hook_go_own by simp
next
  case (ChTask n k)
  then show ?thesis
    using assms body_go_own [of n k "sy_tasks (ap_rt a) ! k" a b] task_go_step [of k "sy_tasks (ap_rt a) ! k" "ap_rt a"]
    by (auto simp: Let_def task_at_def split: if_splits intro: task_ends)
qed (use assms(2) in simp_all)

lemma app_choose_move:
  assumes "app_choose c a = Some b"
  shows "app_move a b"
proof (cases "own_choice c")
  case True
  then show ?thesis
    using assms own_choice_own by (blast intro: by_program)
next
  case False
  then consider parent where "c = ChRun parent" | "c = ChSignal" | "c = ChMirror"
    by (cases c) simp_all
  then show ?thesis
  proof cases
    case (1 parent)
    then show ?thesis
      using assms by (auto split: if_splits go.splits intro: runs)
  next
    case 2
    then show ?thesis
      using assms parent_ends [of "ap_rt a" "cancel_cause None live_ctx"]
      by (auto simp: Let_def put_runner_def cancel_cause_def live_ctx_def ctx_wf_def split: if_splits intro!: context_changes)
  next
    case 3
    then show ?thesis
      using assms by (auto simp: Let_def put_ctx_def split: if_splits intro!: context_changes parent_mirrored [unfolded put_ctx_def])
  qed
qed

lemma app_run_reach:
  "app_run cs a = Some b \<Longrightarrow> reach app_start app_step a \<Longrightarrow> reach app_start app_step b"
proof (induction cs arbitrary: a)
  case (Cons c cs)
  then obtain d where d: "\<not> ap_panicked a" "app_choose c a = Some d" "app_run cs d = Some b"
    by (auto split: if_splits bind_splits)
  have "app_step a d"
    using app_choose_move [OF d(2)] d(1) by (simp add: app_step_def)
  with Cons.prems(2) have "reach app_start app_step d"
    by (rule reach_step)
  then show ?case
    using Cons.IH [OF d(3)] by simp
qed simp

section \<open>Two runs\<close>

definition app_new :: app where
  "app_new =
     \<lparr>ap_rt = (case app_setup of Panic m \<Rightarrow> rt_start | Ret y \<Rightarrow> y), ap_server = new_server, ap_worker = ZeroValue,
      ap_serving = False, ap_greeted = False, ap_out = [], ap_panicked = False\<rparr>"

lemma app_new_reach: "reach app_start app_step app_new"
proof (rule reach_start)
  have "app_setup = Ret (case app_setup of Panic m \<Rightarrow> rt_start | Ret y \<Rightarrow> y)"
    by code_simp
  then show "app_start app_new"
    by (simp add: app_start_def app_new_def)
qed

text \<open>The signal comes when both tasks are running.\<close>

definition good_run :: "app_choice list" where
  "good_run =
     [ChRun live_ctx, ChMain, ChMain, ChHook 0, ChMain, ChMain, ChMain, ChHook 0] @ replicate 7 ChMain @
     [ChTask 0 0, ChHook 0, ChMain, ChMain, ChMain, ChTask 0 1, ChSignal, ChMirror, ChShutdown, ChShutdown] @
     replicate 4 (ChTask 0 1) @ [ChShutdown, ChHook 0, ChShutdown, ChShutdown, ChHook 0] @
     replicate 4 (ChTask 0 0) @ [ChShutdown, ChHook 0, ChShutdown, ChShutdown, ChMain, ChMain, ChMain]"

text \<open>The signal comes when the worker's container has begun to initialize, before its hook.\<close>

definition bad_run :: "app_choice list" where
  "bad_run =
     [ChRun live_ctx, ChMain, ChMain, ChHook 0, ChMain, ChMain, ChSignal, ChMirror, ChMain, ChMain, ChMain, ChMain,
      ChShutdown, ChShutdown, ChShutdown, ChHook 0]"

definition app_seen :: "app_choice list \<Rightarrow> (app_fn main_pc \<times> app_fn sh_pc \<times> (string \<times> (string \<times> string) list) list \<times> bool) option" where
  "app_seen cs = map_option (\<lambda>a. (sy_main (ap_rt a), sy_sh (ap_rt a), ap_out a, ap_panicked a)) (app_run cs app_new)"

lemma good_run_seen:
  "app_seen good_run =
     Some (MainReturned None, ShDone, [line_complete, line_running, line_finalized, line_stopping, line_closed], False)"
  by code_simp

lemma bad_run_seen: "app_seen bad_run = Some (MainWait, ShStop 1 [h_finalize] None, [], True)"
  by code_simp

lemma app_seen_reach:
  assumes "app_seen cs = Some (p, q, out, b)"
  obtains a where "reach app_start app_step a" "app_run cs app_new = Some a" "sy_main (ap_rt a) = p" "sy_sh (ap_rt a) = q"
    "ap_out a = out" "ap_panicked a = b"
  using assms app_run_reach [OF _ app_new_reach] by (auto simp: app_seen_def)

text \<open>\<open>Get\<close> in the last hook of the worker panics when its first hook never ran.\<close>

lemma app_can_panic:
  obtains a where "reach app_start app_step a" "ap_panicked a" "sy_sh (ap_rt a) = ShStop 1 [h_finalize] None" "ap_out a = []"
  using bad_run_seen by (rule app_seen_reach) (rule that, simp_all)

end
