(* ===== verification/Gx_Example_Runtime_Ends.thy ===== *)
theory Gx_Example_Runtime_Ends imports Gx_Example_Runtime_Run Gx_Runtime_Return "HOL-Library.Sublist" begin

text \<open>
  The properties of the program of \<open>Gx_Example_Runtime\<close>: what it has logged and returned, and
  that once its context has ended it ends, whoever goes next.
\<close>

section \<open>What is left\<close>

fun main_left :: "app_fn main_pc \<Rightarrow> nat" where
  "main_left MainSetup = 13"
| "main_left (MainInitCall i h hs) = 12"
| "main_left (MainInitHooks i hs) = 11"
| "main_left (MainInit i) = 10"
| "main_left (MainStartCall i h hs) = 11"
| "main_left (MainStartHooks i hs) = 10"
| "main_left (MainReturned err) = 0"
| "main_left (MainShutdown err) = 4"
| "main_left (MainCancelTasks err) = 5"
| "main_left MainWait = 6"
| "main_left MainStarted = 7"
| "main_left p = 9"

fun sh_left :: "app_fn sh_pc \<Rightarrow> nat" where
  "sh_left ShIdle = 22"
| "sh_left (ShNext k) = 10 * k + 1"
| "sh_left (ShStopping i hs stops e) = 10 * i + length hs + length stops + 5"
| "sh_left (ShStop i hs e) = 10 * i + length hs + 3"
| "sh_left ShDone = 0"

definition rt_left :: "app_rt \<Rightarrow> nat" where
  "rt_left y = main_left (sy_main y) + sh_left (sy_sh y) + tasks_left y"

definition app_left :: "app \<Rightarrow> nat" where
  "app_left a = rt_left (ap_rt a) + of_bool (\<not> ap_serving a) + of_bool (\<not> ap_greeted a) + of_bool (\<not> ap_panicked a)"

lemma tasks_left_same: "sy_tasks z = sy_tasks y \<Longrightarrow> tasks_left z = tasks_left y"
  by (simp add: tasks_left_def)

text \<open>With an ended context every step of a goroutine that is not the end of a hook counts.\<close>

lemma main_step_left:
  assumes "main_step y z" and "sy_log z = sy_log y" and "sy_main y \<noteq> MainSetup"
    and app: "rt_app cr bu y" and over: "\<not> live y"
  shows "rt_left z < rt_left y \<and> \<not> live z"
  using assms(1)
proof cases
  case (start_ends i c r hs)
  then have "hs = []" "c = ct y i" "r = rt_runner (sy_rt y)"
    using over by (auto simp: container_start_end_def)
  then show ?thesis
    using start_ends over by (simp add: rt_left_def tasks_left_def launch_def new_tasks_def put_runner_def)
next
  case (cancels e r)
  then show ?thesis
    using rt_appD(9) [OF app] by simp
qed (use assms(2,3) over in \<open>auto simp: rt_left_def tasks_left_def put_runner_def put_ctx_def log_hook_def
    cancel_cause_def\<close>)

lemma shutdown_step_left:
  assumes "shutdown_step y z" and "sy_log z = sy_log y" and app: "rt_app cr bu y" and ctl: "ctl_inv y" and over: "\<not> live y"
  shows "rt_left z < rt_left y \<and> \<not> live z"
  using assms(1)
proof cases
  case (sh_stops i c stopping stops)
  have "i < cts y"
    using sh_ok_of [OF ctl sh_stops(2)] by simp
  then have "length (ct_stoppingFns (ct y i)) \<le> 1" "length (ct_stopFns (ct y i)) \<le> 1"
    using stop_fns [OF app, of i] by auto
  then show ?thesis
    using over sh_stops shutdown_begin_cases(2) [OF sh_stops(3)] by (simp add: rt_left_def tasks_left_def)
qed (use assms(2) over rt_appD(1) [OF app] in \<open>auto simp: rt_left_def tasks_left_def log_hook_def put_ct_def\<close>)

text \<open>Tasks.\<close>

lemma set_task_left:
  assumes "task_at k t y" and "task_left p < task_left (tk_pc t)"
  shows "tasks_left (set_task k p y) < tasks_left y"
proof -
  have k: "k < length (sy_tasks y)" "sy_tasks y ! k = t"
    using assms(1) by (auto simp: task_at_def)
  have "sy_tasks y = take k (sy_tasks y) @ t # drop (Suc k) (sy_tasks y)"
    using k id_take_nth_drop by metis
  then have "tasks_left y = sum_list (map (\<lambda>t. task_left (tk_pc t)) (take k (sy_tasks y) @ t # drop (Suc k) (sy_tasks y)))"
    by (simp add: tasks_left_def)
  then show ?thesis
    using k assms(2) by (simp add: tasks_left_def set_task_def upd_conv_take_nth_drop)
qed

lemma bodies_shrink:
  assumes "task_at k t y" and "tk_pc t = TaskBody"
  shows "length (bodies (set_task k (TaskStop err) y)) < length (bodies y)"
proof -
  have k: "k < length (sy_tasks y)" "sy_tasks y ! k = t"
    using assms(1) by (auto simp: task_at_def)
  have "sy_tasks y = take k (sy_tasks y) @ t # drop (Suc k) (sy_tasks y)"
    using k id_take_nth_drop by metis
  then have "bodies y = filter (\<lambda>t. tk_pc t = TaskBody) (take k (sy_tasks y) @ t # drop (Suc k) (sy_tasks y))"
    by (simp add: bodies_def)
  then show ?thesis
    using k assms(2) by (simp add: bodies_def set_task_def upd_conv_take_nth_drop)
qed

lemma drop_task_left:
  assumes "task_at k t y" and "sy_tasks z = take k (sy_tasks y) @ drop (Suc k) (sy_tasks y)"
  shows "tasks_left z < tasks_left y"
proof -
  have k: "k < length (sy_tasks y)" "sy_tasks y ! k = t"
    using assms(1) by (auto simp: task_at_def)
  have "sy_tasks y = take k (sy_tasks y) @ t # drop (Suc k) (sy_tasks y)"
    using k id_take_nth_drop by metis
  then have "tasks_left y = sum_list (map (\<lambda>t. task_left (tk_pc t)) (take k (sy_tasks y) @ t # drop (Suc k) (sy_tasks y)))"
    by (simp add: tasks_left_def)
  moreover have "0 < task_left (tk_pc t)"
    by (cases "tk_pc t") simp_all
  ultimately show ?thesis
    using assms(2) by (simp add: tasks_left_def)
qed

lemma task_step_left:
  assumes "task_step y z" and "bodies z = bodies y" and over: "\<not> live y"
  shows "rt_left z < rt_left y \<and> \<not> live z"
proof -
  have put: "task_at k t (put_ct i c y) = task_at k t y" "tasks_left (put_ct i c y) = tasks_left y" for i c k t
    by (simp_all add: task_at_def tasks_left_def)
  from assms(1) show ?thesis
  proof cases
    case (task_returns k t err)
    then have "length (bodies z) < length (bodies y)"
      using bodies_shrink [of k t y] by simp
    then show ?thesis
      using assms(2) by simp
  next
    case (task_stops k t err)
    then show ?thesis
      using over set_task_left [of k t "put_ct (tk_ct t) (container_stopTask (tk_name t) (ct y (tk_ct t))) y" "TaskDone err"] put
      by (simp add: rt_left_def)
  next
    case (task_done k t err)
    then show ?thesis
      using over set_task_left [of k t "put_ct (tk_ct t) ((ct y (tk_ct t))\<lparr>ct_wg := ct_wg (ct y (tk_ct t)) - 1\<rparr>) y" "TaskReport err"] put
      by (simp add: rt_left_def)
  next
    case (task_reports k t err)
    then have "tasks_left z < tasks_left y"
      by (intro drop_task_left [OF task_reports(2)]) (simp add: report_error_def put_runner_def)
    then show ?thesis
      using over task_reports by (simp add: rt_left_def report_error_def put_runner_def)
  qed
qed

lemma task_returned_left:
  assumes "in_task k t name a" and over: "\<not> live (ap_rt a)"
  shows "rt_left (task_returned k t err (ap_rt a)) < rt_left (ap_rt a) \<and> \<not> live (task_returned k t err (ap_rt a))"
  using set_task_left [of k t "ap_rt a"] assms by (simp add: in_task_def rt_left_def task_returned_def)

text \<open>Hooks.\<close>

lemma hook_effect:
  assumes "hook_in (ap_rt a) = Some (ph, i, h)" and "Ret (b, err) \<in> set (app_hook (hk_fn h) i a)"
    and inv: "app_inv cr bu v a" and r: "reach rt_new rt_step (ap_rt a)"
  shows "sy_tasks (ap_rt b) = sy_tasks (ap_rt a) \<and> ap_serving b = ap_serving a \<and> ap_greeted b = ap_greeted a \<and>
    ap_panicked b = ap_panicked a"
proof -
  note ctl = runtime_control.reach_inv [OF r]
  have app: "rt_app cr bu (ap_rt a)"
    using inv by (simp add: app_inv_def)
  from assms(1) app ctl show ?thesis
  proof (cases rule: hook_in_app)
    case 1
    then obtain b' where "app_hook CreateServer 0 a = [Ret (b', None)]" "same_app a b'"
      using create_app [OF _ ctl runtime_init.reach_inv [OF r] 1(4)] app by auto
    then show ?thesis using assms(2) 1(2,3) by (simp add: same_app_def)
  next
    case 2
    then obtain b' where "app_hook BuildWorker 1 a = [Ret (b', None)]" "same_app a b'"
      using build_app [OF _ ctl 2(4)] app by auto
    then show ?thesis using assms(2) 2(2,3) by (simp add: same_app_def)
  next
    case 3
    then show ?thesis using verify_outcomes [OF app 3(5), of b err i] assms(2) by auto
  next
    case (4 stops)
    then show ?thesis using assms(2) by (auto simp: Ret_eq_bind)
  next
    case 5
    then show ?thesis using assms(2) finalize_built [OF app] by (auto split: if_splits)
  next
    case 6
    then show ?thesis using assms(2) by simp
  qed
qed

lemma sys_calls_ctx:
  "sys_container i f y = Ret z \<Longrightarrow> rt_ctx (sy_rt z) = rt_ctx (sy_rt y)"
  "sys_Run i n g y = Ret z \<Longrightarrow> rt_ctx (sy_rt z) = rt_ctx (sy_rt y)"
  by (auto simp: sys_container_def go_bind_eq_Ret put_ct_def)
    (auto elim!: Run_cases simp: put_ct_def launch_def put_runner_def)

lemma hook_ctx:
  assumes "Ret (b, err) \<in> set (app_hook f i a)"
  shows "rt_ctx (sy_rt (ap_rt b)) = rt_ctx (sy_rt (ap_rt a))"
proof (cases f)
  case CreateServer
  then show ?thesis
    using assms by (auto simp: Ret_eq_bind go_bind_eq_Ret newServer_def create_hook_def runtime_Set_def
        dest!: sys_calls_ctx split: if_splits)
next
  case BuildWorker
  then show ?thesis
    using assms by (auto simp: Ret_eq_bind go_bind_eq_Ret buildWorker_def Let_def dest!: sys_calls_ctx)
qed (use assms in \<open>auto simp: Ret_eq_bind go_bind_eq_Ret verifyServer_def worker_finalize_def split: go.splits\<close>)

lemma hook_returns_left:
  assumes "hook_in y = Some (ph, i, h)" and "hook_returns ph i h err y z"
  shows "rt_left z < rt_left y \<and> rt_ctx (sy_rt z) = rt_ctx (sy_rt y)"
proof -
  have log: "sy_log z \<noteq> sy_log y" and step: "main_step y z \<or> shutdown_step y z"
    using assms(2) by (auto simp: hook_returns_def)
  from step show ?thesis
  proof
    assume "main_step y z"
    then show ?thesis
      using log by cases (auto simp: rt_put_defs rt_left_def tasks_left_def split: option.split)
  next
    assume "shutdown_step y z"
    then show ?thesis
      using log by cases (auto simp: rt_put_defs rt_left_def tasks_left_def)
  qed
qed

lemma hook_ends_left:
  assumes "hook_in (ap_rt a) = Some (ph, i, h)" and out: "Ret (b, err) \<in> set (app_hook (hk_fn h) i a)"
    and "hook_returns ph i h err (ap_rt b) z" and over: "\<not> live (ap_rt a)"
    and inv: "app_inv cr bu v a" and r: "reach rt_new rt_step (ap_rt a)"
  shows "app_left (b\<lparr>ap_rt := z\<rparr>) < app_left a \<and> \<not> live z"
proof -
  have "hook_in (ap_rt b) = Some (ph, i, h)"
    using assms(1) unfolding hook_in_def conjunct1 [OF hook_stays [OF out]] conjunct2 [OF hook_stays [OF out]] .
  then have "rt_left z < rt_left (ap_rt b)" "rt_ctx (sy_rt z) = rt_ctx (sy_rt (ap_rt a))"
    using hook_returns_left [OF _ assms(3)] hook_ctx [OF out] by simp_all
  moreover have "rt_left (ap_rt b) = rt_left (ap_rt a)"
    using hook_stays [OF out] hook_effect [OF assms(1) out inv r] by (simp add: rt_left_def tasks_left_def)
  ultimately show ?thesis
    using hook_effect [OF assms(1) out inv r] over by (simp add: app_left_def)
qed

section \<open>Every step of the program leaves less\<close>

lemma app_own_left:
  assumes "app_own a b" and alive: "\<not> ap_panicked a" and over: "\<not> live (ap_rt a)"
    and main: "sy_main (ap_rt a) \<noteq> MainSetup" and inv: "app_inv cr bu v a" and r: "reach rt_new rt_step (ap_rt a)"
  shows "app_left b < app_left a \<and> \<not> live (ap_rt b)"
proof -
  note ctl = runtime_control.reach_inv [OF r]
  have app: "rt_app cr bu (ap_rt a)"
    using inv by (simp add: app_inv_def)
  from assms(1) show ?thesis
  proof cases
    case (goes_on z)
    then show ?thesis
      using main_step_left [OF _ goes_on(4) main app over] shutdown_step_left [OF _ goes_on(4) app ctl over]
      by (auto simp: app_left_def)
  next
    case (hook_ends ph i h c err z)
    then show ?thesis
      using hook_ends_left [OF hook_ends(2-4) over inv r] by simp
  next
    case (serve_returns k t err)
    then show ?thesis
      using task_returned_left [OF serve_returns(2) over] by (simp add: app_left_def)
  next
    case (greeting_returns k t err)
    then show ?thesis
      using task_returned_left [OF greeting_returns(2) over] by (simp add: app_left_def)
  next
    case (task_ends z)
    then show ?thesis
      using task_step_left [OF _ _ over] by (simp add: app_left_def)
  qed (use alive over in \<open>auto simp: app_left_def\<close>)
qed

text \<open>A context that changes leaves the rest of the program alone, and an ended one ended.\<close>

lemma context_step_left:
  assumes "context_step y z" and "\<not> live y"
  shows "rt_left z = rt_left y \<and> \<not> live z"
  using assms
  by cases (auto simp: rt_left_def tasks_left_def put_runner_def put_ctx_def cancel_cause_def)

section \<open>The context is live until Run is called\<close>

definition setup_inv :: "('h, 't, 'v) rt_sys \<Rightarrow> bool" where
  "setup_inv y \<longleftrightarrow> (sy_main y = MainSetup \<longrightarrow> live y \<and> ctx_err (sy_parent y) = None)"

lemma setup_api: "api_step y z \<Longrightarrow> rt_ctx (sy_rt z) = rt_ctx (sy_rt y) \<and> sy_main z = sy_main y \<and> sy_parent z = sy_parent y"
  by (erule api_step.cases) (auto dest!: attach_cases create_cases global_set_cases simp: put_ct_def launch_def put_runner_def)

lemma rt_step_setup: "setup_inv y \<Longrightarrow> rt_step y z \<Longrightarrow> setup_inv z"
  by (elim rt_step.cases main_step.cases shutdown_step.cases task_step.cases context_step.cases)
    (auto simp: setup_inv_def rt_put_defs dest: setup_api split: option.splits)

interpretation runtime_setup: inductive_invariant rt_new rt_step setup_inv
proof
  show "setup_inv y" if "rt_new y" for y :: "('h, 't, 'v) rt_sys"
    using that by (simp add: rt_new_def setup_inv_def rt_start_def NewRuntime_def live_ctx_def)
qed (rule rt_step_setup)

lemma over_running: "reach rt_new rt_step y \<Longrightarrow> \<not> live y \<Longrightarrow> sy_main y \<noteq> MainSetup"
  using runtime_setup.reach_inv [of y] by (auto simp: setup_inv_def)

section \<open>There is a choice until the end\<close>

definition can_choose :: "app \<Rightarrow> bool" where
  "can_choose a \<longleftrightarrow> (\<exists>c b. own_choice c \<and> app_choose c a = Some b)"

lemma main_choice: "\<exists>z. main_go (ap_rt a) = Some z \<Longrightarrow> can_choose a"
  unfolding can_choose_def by (intro exI [of _ ChMain]) auto

lemma shutdown_go_choice: "\<exists>z. sh_go (ap_rt a) = Some z \<Longrightarrow> sy_main (ap_rt a) \<noteq> MainSetup \<Longrightarrow> can_choose a"
  unfolding can_choose_def by (intro exI [of _ ChShutdown]) auto

lemma hook_choice:
  assumes "hook_in (ap_rt a) = Some (ph, i, h)" and "app_hook (hk_fn h) i a \<noteq> []"
  shows "can_choose a"
proof -
  obtain o1 outs where "app_hook (hk_fn h) i a = o1 # outs"
    using assms(2) by (cases "app_hook (hk_fn h) i a") auto
  then have "pick 0 (app_hook (hk_fn h) i a) = Some o1"
    by (simp add: pick_def)
  then have "\<exists>b. hook_go 0 a = Some b"
    using assms(1) by (cases o1) (auto simp: hook_go_def)
  then show ?thesis
    unfolding can_choose_def by (intro exI [of _ "ChHook 0"]) auto
qed

lemma task_choice:
  assumes "sy_tasks (ap_rt a) \<noteq> []" and over: "\<not> live (ap_rt a)" and app: "rt_app cr bu (ap_rt a)"
  shows "can_choose a"
proof -
  obtain t ts where t: "sy_tasks (ap_rt a) = t # ts"
    using assms(1) by (cases "sy_tasks (ap_rt a)") auto
  have "task_fine t"
    using rt_appD(11) [OF app] t by simp
  then have name: "tk_name t = ''serve'' \<or> tk_name t = ''greeting''"
    by (auto simp: task_fine_def)
  have "\<exists>b. app_choose (ChTask 0 0) a = Some b"
  proof (cases "tk_pc t")
    case TaskBody
    then show ?thesis
      using name over t
      by (auto simp: body_go_def server_select_def worker_select_def pick_def Let_def split: go.split option.split)
  qed (simp_all add: t task_go_def)
  then show ?thesis
    unfolding can_choose_def by (intro exI [of _ "ChTask 0 0"]) simp
qed

lemma verify_choice:
  assumes "rt_app cr bu (ap_rt a)" and "cr" and "\<not> live (ap_rt a)"
  shows "app_hook VerifyServer i a \<noteq> []"
  using assms Global_ok [OF assms(1)] by (auto simp: verifyServer_def waitReady_def container_Ctx_def)

lemma startup_choice:
  assumes app: "rt_app cr bu (ap_rt a)" and ctl: "ctl_inv (ap_rt a)" and over: "\<not> live (ap_rt a)"
    and early: "early (sy_main (ap_rt a))" and "sy_main (ap_rt a) \<noteq> MainSetup"
  shows "can_choose a"
proof (cases "sy_main (ap_rt a)")
  case (MainInitCall i h hs)
  then have "hook_in (ap_rt a) = Some (PhInit, i, h)" "hk_fn h \<in> {CreateServer, BuildWorker}"
    using rt_appD(9) [OF app] by (auto simp: hook_in_def)
  then show ?thesis by (intro hook_choice) auto
next
  case (MainStartCall i h hs)
  then have "hook_in (ap_rt a) = Some (PhStart, i, h)" "hk_fn h = VerifyServer" "cr"
    using rt_appD(9) [OF app] by (auto simp: hook_in_def)
  then show ?thesis using verify_choice [OF app _ over] by (intro hook_choice) auto
qed (use assms rt_appD(9) [OF app] main_ok_of [OF ctl refl] in
    \<open>auto intro!: main_choice simp: main_go_def split: if_splits\<close>)

lemma shutdown_choice:
  assumes app: "rt_app cr bu (ap_rt a)" and over: "\<not> live (ap_rt a)" and late: "\<not> early (sy_main (ap_rt a))"
    and ready: "rt_startupDone (sy_rt (ap_rt a))" and wg: "\<And>i. i < cts (ap_rt a) \<Longrightarrow> ct_wg (ct (ap_rt a) i) = 0"
    and ctl: "ctl_inv (ap_rt a)" and "sy_sh (ap_rt a) \<noteq> ShDone"
  shows "can_choose a"
proof -
  have main: "sy_main (ap_rt a) \<noteq> MainSetup" "\<And>i h hs. sy_main (ap_rt a) \<noteq> MainInitCall i h hs"
      "\<And>i h hs. sy_main (ap_rt a) \<noteq> MainStartCall i h hs"
    using late by auto
  note go = shutdown_go_choice [OF _ main(1)]
  have hook: ?thesis if "sy_sh (ap_rt a) = ShStopping i (h # hs) stops e \<or> sy_sh (ap_rt a) = ShStop i (h # hs) e"
    for i h hs stops e
  proof -
    have "\<exists>ph. hook_in (ap_rt a) = Some (ph, i, h)"
      using that main(2,3) by (auto simp: hook_in_def split: main_pc.split)
    moreover have "app_hook (hk_fn h) i a \<noteq> []"
      using that rt_appD(10) [OF app] by auto
    ultimately show ?thesis
      using hook_choice by blast
  qed
  show ?thesis
  proof (cases "sy_sh (ap_rt a)")
    case ShIdle
    then show ?thesis using over ready main(1) by (intro go) (simp add: sh_go_def)
  next
    case (ShNext k)
    then show ?thesis by (intro go, cases k) (auto simp: sh_go_def split: option.split)
  next
    case (ShStopping i hs stops e)
    then show ?thesis
      using hook [of i _ _ stops e] wg [of i] sh_ok_of [OF ctl ShStopping] go by (cases hs) (auto simp: sh_go_def)
  next
    case (ShStop i hs e)
    then show ?thesis
      using hook [of i _ _ _ e] go by (cases hs) (auto simp: sh_go_def)
  qed (use assms in simp)
qed

lemma app_goes_on:
  assumes inv: "app_inv cr bu v a" and r: "reach rt_new rt_step (ap_rt a)" and over: "\<not> live (ap_rt a)"
    and "sy_main (ap_rt a) \<noteq> MainSetup" and "\<forall>res. sy_main (ap_rt a) \<noteq> MainReturned res"
  shows "can_choose a"
proof (cases "sy_tasks (ap_rt a) = []")
  case False
  then show ?thesis
    using task_choice over inv by (auto simp: app_inv_def)
next
  case True
  note ctl = runtime_control.reach_inv [OF r]
  have app: "rt_app cr bu (ap_rt a)"
    using inv by (simp add: app_inv_def)
  have tasks: "task_inv (ap_rt a)"
    using runtime_tasks.reach_inv [OF r] by (simp add: tasks_inv_def)
  then have wg: "ct_wg (ct (ap_rt a) i) = 0" if "i < cts (ap_rt a)" for i
    using True that by (auto simp: task_inv_def)
  have "rn_wg (rt_runner (sy_rt (ap_rt a))) = []"
    using tasks True by (simp add: task_inv_def)
  then have waits: "\<exists>r err. runner_Wait (rt_runner (sy_rt (ap_rt a))) = Some (r, err)"
    by (simp add: runner_Wait_def)
  show ?thesis
  proof (cases "early (sy_main (ap_rt a))")
    case True
    then show ?thesis using startup_choice [OF app ctl over _ assms(4)] by simp
  next
    case False
    then have done': "rt_startupDone (sy_rt (ap_rt a))"
      using ctl by (simp add: ctl_inv_def)
    show ?thesis
    proof (cases "sy_sh (ap_rt a) = ShDone")
      case True
      then show ?thesis
        using False assms(5) waits
        by (cases "sy_main (ap_rt a)") (auto intro!: main_choice simp: main_go_def)
    next
      case False
      then show ?thesis
        using shutdown_choice [OF app over _ done' wg ctl] \<open>\<not> early (sy_main (ap_rt a))\<close> by simp
    qed
  qed
qed

text \<open>
  Schedules: \<open>app_sched n a b\<close> when the program gets from \<open>a\<close> to \<open>b\<close> by \<open>n\<close> steps of its
  goroutines, between which contexts change as they like.
\<close>

inductive app_sched :: "nat \<Rightarrow> app \<Rightarrow> app \<Rightarrow> bool" where
  sched_none: "app_sched 0 a a"
| sched_own: "app_sched n a b \<Longrightarrow> \<not> ap_panicked b \<Longrightarrow> app_own b c \<Longrightarrow> app_sched (Suc n) a c"
| sched_context:
    "app_sched n a b \<Longrightarrow> \<not> ap_panicked b \<Longrightarrow> context_step (ap_rt b) z \<Longrightarrow>
     sy_parent z = sy_parent (ap_rt b) \<or> ctx_err (sy_parent z) = Some Canceled \<Longrightarrow>
     app_sched n a (b\<lparr>ap_rt := z\<rparr>)"

lemma app_sched_left:
  "app_sched n a b \<Longrightarrow> reach app_start app_step a \<Longrightarrow> \<not> live (ap_rt a) \<Longrightarrow>
     reach app_start app_step b \<and> \<not> live (ap_rt b) \<and> n + app_left b \<le> app_left a"
proof (induction rule: app_sched.induct)
  case (sched_own n a b c)
  then have b: "reach app_start app_step b" "\<not> live (ap_rt b)" "n + app_left b \<le> app_left a"
    by blast+
  obtain cr bu v where inv: "app_inv cr bu v b"
    using app_reach_inv [OF b(1)] by blast
  note r = app_reach_rt [OF b(1)]
  have "app_left c < app_left b \<and> \<not> live (ap_rt c)"
    by (rule app_own_left [OF sched_own(3,2) b(2) over_running [OF r b(2)] inv r])
  moreover have "app_step b c"
    using sched_own(2,3) by (simp add: app_step_def by_program)
  ultimately show ?case
    using b(3) reach_step [OF b(1)] by simp
next
  case (sched_context n a b z)
  then have b: "reach app_start app_step b" "\<not> live (ap_rt b)" "n + app_left b \<le> app_left a"
    by blast+
  have "app_step b (b\<lparr>ap_rt := z\<rparr>)"
    using sched_context(2-4) by (simp add: app_step_def context_changes)
  then show ?case
    using b(3) reach_step [OF b(1)] context_step_left [OF sched_context(3) b(2)] by (simp add: app_left_def)
qed simp

text \<open>The scheduler of \<open>Gx_Example_Runtime_Run\<close> gives such schedules.\<close>

lemma sched_own_first: "app_sched n b c \<Longrightarrow> app_own a b \<Longrightarrow> \<not> ap_panicked a \<Longrightarrow> app_sched (Suc n) a c"
proof (induction rule: app_sched.induct)
  case (sched_none b)
  show ?case
    by (rule app_sched.sched_own [OF app_sched.sched_none sched_none(2,1)])
qed (auto intro: app_sched.intros)

lemma run_sched:
  "app_run cs a = Some b \<Longrightarrow> list_all own_choice cs \<Longrightarrow> app_sched (length cs) a b"
proof (induction cs arbitrary: a)
  case (Cons c cs)
  then obtain d where d: "\<not> ap_panicked a" "app_choose c a = Some d" "app_run cs d = Some b" "own_choice c"
    by (auto split: if_splits bind_splits)
  have "app_sched (length cs) d b"
    using Cons d(3) by simp
  then show ?case
    using sched_own_first [OF _ own_choice_own [OF d(2,4)] d(1)] by simp
qed (simp add: sched_none)

lemma tasks_left_bound: "tasks_left y \<le> 4 * length (sy_tasks y)"
proof -
  have "task_left p \<le> 4" for p
    by (cases p) simp_all
  then have "sum_list (map (\<lambda>t. task_left (tk_pc t)) ts) \<le> 4 * length ts" for ts
    by (induction ts) (simp_all add: add_mono)
  then show ?thesis
    by (simp add: tasks_left_def)
qed

lemma app_left_bound:
  assumes inv: "app_inv cr bu v a" and r: "reach rt_new rt_step (ap_rt a)" and over: "\<not> live (ap_rt a)"
  shows "app_left a \<le> 46"
proof -
  let ?y = "ap_rt a"
  have app: "rt_app cr bu ?y"
    using inv by (simp add: app_inv_def)
  have "\<forall>t \<in> set (sy_tasks ?y). tk_ct t = 0 \<or> tk_ct t = 1"
    by (rule ballI, drule rt_appD(11) [OF app]) (auto simp: task_fine_def)
  then have "filter (\<lambda>t. tk_ct t \<noteq> 0) (sy_tasks ?y) = filter (\<lambda>t. tk_ct t = 1) (sy_tasks ?y)"
    by (intro filter_cong) auto
  then have "length (sy_tasks ?y) \<le> task_count 0 ?y + task_count 1 ?y"
    using sum_length_filter_compl [of "\<lambda>t. tk_ct t = 0" "sy_tasks ?y"] by (simp add: task_count_def)
  also have "\<dots> \<le> 2"
    using rt_appD(5,6) [OF app] by (cases cr; cases bu) simp_all
  finally have "length (sy_tasks ?y) \<le> 2" .
  then have "tasks_left ?y \<le> 8"
    using tasks_left_bound [of ?y] by simp
  moreover have "main_left (sy_main ?y) \<le> 13"
    by (cases "sy_main ?y") simp_all
  moreover have "sh_left (sy_sh ?y) \<le> 22"
    using sh_ok_of [OF runtime_control.reach_inv [OF r] refl] rt_appD(1,10) [OF app] by (cases "sy_sh ?y") (auto split: if_splits)
  ultimately show ?thesis
    by (simp add: app_left_def rt_left_def)
qed

lemma app_returns_nil:
  assumes inv: "app_inv cr bu v a" and r: "reach rt_new rt_step (ap_rt a)" and main: "sy_main (ap_rt a) = MainReturned res"
  shows "res = None \<and> sy_sh (ap_rt a) = ShDone"
proof -
  have "hooks_inv (ap_rt a)"
    by (rule runtime_hooks.reach_inv [OF r])
  then have "res = rt_stopErr (sy_rt (ap_rt a)) \<or> sy_reported (ap_rt a) \<noteq> []"
    using main by (auto simp: hooks_inv_def err_inv_def)
  moreover have "sy_sh (ap_rt a) = ShDone"
    using runtime_control.reach_inv [OF r] main by (auto simp: ctl_inv_def)
  ultimately show ?thesis
    using rt_appD(12,13) [of cr bu "ap_rt a"] inv by (simp add: app_inv_def)
qed

section \<open>Properties\<close>

definition app_outputs :: "(string \<times> (string \<times> string) list) list list" where
  "app_outputs =
     [[], [line_stopping, line_closed], [line_finalized, line_stopping, line_closed],
      [line_complete, line_finalized, line_stopping, line_closed],
      [line_complete, line_running, line_finalized, line_stopping, line_closed]]"

lemma outputs_done:
  assumes "spoken cr bu v a" and "bu \<longrightarrow> cr" and "sy_sh (ap_rt a) = ShDone"
  shows "ap_out a \<in> set app_outputs"
  using assms
  by (cases "ap_greeted a"; cases v; cases bu; cases cr)
    (simp_all add: spoken_def out_ok_def startup_out_def worker_out_def app_outputs_def)

lemma sh_out_prefix:
  assumes "sh_ok sts q" and "length sts = 2" and "sh_app cr bu q" and "bu \<longrightarrow> cr"
  shows "prefix (sh_out cr bu q) (worker_out bu @ (if cr then [line_stopping, line_closed] else []))"
  using assms by (cases q) (auto simp: worker_out_def)

lemma outputs_prefix:
  assumes said: "spoken cr bu v a" and app: "rt_app cr bu (ap_rt a)" and ctl: "ctl_inv (ap_rt a)"
  shows "\<exists>full \<in> set app_outputs. prefix (ap_out a) full"
proof -
  let ?full = "startup_out v (ap_greeted a) @ worker_out bu @ (if cr then [line_stopping, line_closed] else [])"
  have "prefix (ap_out a) ?full"
    using said sh_out_prefix [OF sh_ok_of [OF ctl refl] _ rt_appD(10) [OF app]] rt_appD(1,4) [OF app]
    by (simp add: spoken_def)
  moreover have "?full \<in> set app_outputs"
    using said rt_appD(4) [OF app]
    by (cases "ap_greeted a"; cases v; cases bu; cases cr)
      (simp_all add: spoken_def out_ok_def startup_out_def worker_out_def app_outputs_def)
  ultimately show ?thesis by blast
qed

text \<open>
  C13: The runtime example, whatever its schedule and whenever the signal comes. What it has
  logged is at any time the beginning of one of five sequences, and one of them in full when
  \<open>Run\<close> has returned, which it does with nil. It panics only in the hook that finalizes the
  worker, and only when no worker was stored, since its container began to initialize but its
  init hook was not called.
\<close>

theorem runtime_app_outcome:
  assumes "reach app_start app_step a"
  shows "(\<exists>full \<in> set app_outputs. prefix (ap_out a) full) \<and>
    (\<forall>res. sy_main (ap_rt a) = MainReturned res \<longrightarrow> res = None \<and> ap_out a \<in> set app_outputs) \<and>
    (ap_panicked a \<longrightarrow> sy_sh (ap_rt a) = ShStop 1 [h_finalize] None \<and>
       store_get WorkerType (ct_store (ct (ap_rt a) 1)) = None)"
proof -
  obtain cr bu v where inv: "app_inv cr bu v a"
    using app_reach_inv [OF assms] by blast
  note r = app_reach_rt [OF assms]
  note ctl = runtime_control.reach_inv [OF r]
  have facts: "rt_app cr bu (ap_rt a)" "spoken cr bu v a" "ap_panicked a \<longrightarrow> panic_place bu a"
    using inv by (simp_all add: app_inv_def)
  have "res = None \<and> ap_out a \<in> set app_outputs" if "sy_main (ap_rt a) = MainReturned res" for res
    using app_returns_nil [OF inv r that] outputs_done [OF facts(2)] rt_appD(4) [OF facts(1)] by simp
  moreover have "\<exists>full \<in> set app_outputs. prefix (ap_out a) full"
    by (rule outputs_prefix [OF facts(2,1) ctl])
  moreover have "ap_panicked a \<longrightarrow> sy_sh (ap_rt a) = ShStop 1 [h_finalize] None \<and>
       store_get WorkerType (ct_store (ct (ap_rt a) 1)) = None"
    using facts(3) rt_appD(3) [OF facts(1)] by (simp add: panic_place_def worker_ct_def)
  ultimately show ?thesis by blast
qed

lemma runtime_app_outcome_witness:
  "(\<exists>a. reach app_start app_step a \<and> sy_main (ap_rt a) = MainReturned None \<and> ap_out a \<in> set app_outputs \<and>
      ap_out a = [line_complete, line_running, line_finalized, line_stopping, line_closed]) \<and>
   (\<exists>a. reach app_start app_step a \<and> ap_panicked a \<and> store_get WorkerType (ct_store (ct (ap_rt a) 1)) = None)"
proof -
  obtain a where a: "reach app_start app_step a" "sy_main (ap_rt a) = MainReturned None"
      "ap_out a = [line_complete, line_running, line_finalized, line_stopping, line_closed]"
    using good_run_seen by (rule app_seen_reach) (rule that)
  obtain b where b: "reach app_start app_step b" "ap_panicked b"
    by (rule app_can_panic)
  have "ap_out a \<in> set app_outputs"
    using runtime_app_outcome [OF a(1)] a(2) by blast
  moreover have "store_get WorkerType (ct_store (ct (ap_rt b) 1)) = None"
    using runtime_app_outcome [OF b(1)] b(2) by blast
  ultimately show ?thesis using a b by blast
qed

text \<open>
  C14: Once the context has ended, the runtime example ends, whoever goes next: in no
  interleaving do its goroutines, that is \<open>Run\<close>, the shutdown, the hooks and the tasks, take
  more than 46 further steps, whichever ready arm their selects take and whatever contexts do
  in between; and while neither the panic has come nor \<open>Run\<close> has returned nil, one of them
  can take a step.
\<close>

theorem runtime_app_ends:
  assumes "reach app_start app_step a" and "\<not> live (ap_rt a)" and "app_sched n a b"
  shows "n \<le> 46 \<and>
    (ap_panicked b \<or> sy_main (ap_rt b) = MainReturned None \<or> (\<exists>c. app_own b c))"
proof -
  have b: "reach app_start app_step b" "\<not> live (ap_rt b)" "n + app_left b \<le> app_left a"
    using app_sched_left [OF assms(3,1,2)] by simp_all
  obtain cr bu v cr' bu' v' where inv: "app_inv cr bu v a" "app_inv cr' bu' v' b"
    using app_reach_inv assms(1) b(1) by metis
  have "n \<le> 46"
    using app_left_bound [OF inv(1) app_reach_rt [OF assms(1)] assms(2)] b(3) by simp
  moreover have "sy_main (ap_rt b) = MainReturned None \<or> can_choose b"
    using app_goes_on [OF inv(2)] app_returns_nil [OF inv(2)] over_running [of "ap_rt b"] app_reach_rt b by blast
  ultimately show ?thesis
    using own_choice_own by (auto simp: can_choose_def)
qed

text \<open>The rest of the first run of \<open>Gx_Example_Runtime_Run\<close>, from its signal on.\<close>

lemma runtime_app_ends_witness:
  "\<exists>a b. reach app_start app_step a \<and> \<not> live (ap_rt a) \<and> app_sched (length (drop 24 good_run)) a b \<and>
     length (drop 24 good_run) \<le> 46 \<and>
     (ap_panicked b \<or> sy_main (ap_rt b) = MainReturned None \<or> (\<exists>c. app_own b c))"
proof -
  have "map_option (\<lambda>a. (ctx_err (rt_ctx (sy_rt (ap_rt a))), app_run (drop 24 good_run) a = None)) (app_run (take 24 good_run) app_new) =
      Some (Some Canceled, False)"
    by code_simp
  then obtain a where a: "app_run (take 24 good_run) app_new = Some a" "\<not> live (ap_rt a)" "app_run (drop 24 good_run) a \<noteq> None"
    by auto
  then obtain b where b: "app_run (drop 24 good_run) a = Some b"
    by auto
  have r: "reach app_start app_step a"
    using app_run_reach [OF a(1) app_new_reach] .
  have "list_all own_choice (drop 24 good_run)"
    by code_simp
  then have "app_sched (length (drop 24 good_run)) a b"
    by (rule run_sched [OF b])
  with r a(2) runtime_app_ends [OF r a(2) this] show ?thesis by blast
qed

text \<open>
  After the end of the context the first \<open>select\<close> of the worker may still take the arm of the
  server being ready: such a state is reached when the signal comes before the greeting.
\<close>

lemma greeting_after_the_end:
  "\<exists>a b. reach app_start app_step a \<and> \<not> live (ap_rt a) \<and> app_own a b \<and> ap_greeted b \<and> \<not> ap_greeted a"
proof -
  let ?cs = "take 20 good_run @ [ChSignal, ChMirror]"
  have "map_option (\<lambda>a. (ctx_err (rt_ctx (sy_rt (ap_rt a))), ap_greeted a,
      map_option ap_greeted (app_choose (ChTask 0 1) a))) (app_run ?cs app_new) =
      Some (Some Canceled, False, Some True)"
    by code_simp
  then obtain a b where a: "app_run ?cs app_new = Some a" "\<not> live (ap_rt a)" "\<not> ap_greeted a"
      "app_choose (ChTask 0 1) a = Some b" "ap_greeted b"
    by auto
  have "reach app_start app_step a"
    using app_run_reach [OF a(1) app_new_reach] .
  with a own_choice_own [OF a(4)] show ?thesis by auto
qed

end
