(* ===== verification/Gx_Example_Bus.thy ===== *)
theory Gx_Example_Bus imports Gx_Bus "HOL-Library.List_Lexorder" "HOL-Library.Char_ord" begin

text \<open>
  \<open>examples/bus/main.go\<close>: \<open>main\<close> subscribes three functions, publishes two events, waits until
  all deliveries are done and prints their lines, sorted. Its goroutines and those of the two
  publishes interleave; what they do to the bus are steps of \<open>Gx_Bus\<close>.
\<close>

section \<open>The program\<close>

datatype bus_event = PlacedEvent string | CanceledEvent string

fun bus_type :: "bus_event \<Rightarrow> string" where
  "bus_type (PlacedEvent i) = ''main.OrderPlaced''"
| "bus_type (CanceledEvent i) = ''main.OrderCanceled''"

datatype bus_sub = SubAudit | SubReserve | SubRelease

fun sub_type :: "bus_sub \<Rightarrow> string" where
  "sub_type SubRelease = ''main.OrderCanceled''"
| "sub_type s = ''main.OrderPlaced''"

fun event_ID :: "bus_event \<Rightarrow> string" where
  "event_ID (PlacedEvent i) = i"
| "event_ID (CanceledEvent i) = i"

fun sub_line :: "bus_sub \<Rightarrow> bus_event \<Rightarrow> string" where
  "sub_line SubAudit e = ''audit: order placed '' @ event_ID e"
| "sub_line SubReserve e = ''fulfillment: reserve inventory for '' @ event_ID e"
| "sub_line SubRelease e = ''fulfillment: release inventory for '' @ event_ID e"

definition main_subs :: "bus_sub list" where
  "main_subs = [SubAudit, SubReserve, SubRelease]"

definition main_events :: "bus_event list" where
  "main_events = [PlacedEvent ''order-123'', CanceledEvent ''order-123'']"

text \<open>
  Where \<open>main\<close> is: the subscriptions to come, the publish it is in or about to call, the wait,
  the lines received, the lines printed. \<open>ba_open\<close> are the publishes whose subscriber has
  sent its line but not yet called \<open>Done\<close>, \<open>ba_left\<close> is the counter of the wait group.
\<close>

datatype bus_main_pc =
    BSubscribe "bus_sub list" | BPublish nat | BWait | BCollect "string list" | BDone "string list"

record bus_app =
  ba_bus :: "(string, bus_sub) bus_sys"
  ba_main :: bus_main_pc
  ba_results :: "string chan"
  ba_left :: nat
  ba_open :: "nat list"
  ba_panicked :: bool

definition bus_app_start :: "bus_app \<Rightarrow> bool" where
  "bus_app_start a \<longleftrightarrow>
     bus_start 2 (ba_bus a) \<and> ba_main a = BSubscribe main_subs \<and> ba_results a = chan_make 3 \<and>
     ba_left a = 3 \<and> ba_open a = [] \<and> \<not> ba_panicked a"

definition ba_publish :: "nat \<Rightarrow> bus_sub publish \<Rightarrow> bus_app \<Rightarrow> bus_app" where
  "ba_publish p st a =
     a\<lparr>ba_bus := (ba_bus a)
          \<lparr>by_pub := (by_pub (ba_bus a))(p := st),
           by_read := (by_read (ba_bus a))(p \<mapsto> (bus_type (main_events ! p), by_events (ba_bus a)))\<rparr>\<rparr>"

abbreviation ba_panic :: "bus_app \<Rightarrow> bus_app" where
  "ba_panic a \<equiv> a\<lparr>ba_panicked := True\<rparr>"

inductive bus_main_step :: "bus_app \<Rightarrow> bus_app \<Rightarrow> bool" where
  main_subscribes:
    "ba_main a = BSubscribe (s # ss) \<Longrightarrow> bus_Subscribe (sub_type s) (Some s) (by_bus (ba_bus a)) = Ret b \<Longrightarrow>
     bus_main_step a
       (a\<lparr>ba_bus := (ba_bus a)\<lparr>by_bus := b, by_events := by_events (ba_bus a) @ [Subscribed (sub_type s) s]\<rparr>,
          ba_main := BSubscribe ss\<rparr>)"
| main_subscribe_panics:
    "ba_main a = BSubscribe (s # ss) \<Longrightarrow> bus_Subscribe (sub_type s) (Some s) (by_bus (ba_bus a)) = Panic m \<Longrightarrow>
     bus_main_step a (ba_panic a)"
| main_subscribed: "ba_main a = BSubscribe [] \<Longrightarrow> bus_main_step a (a\<lparr>ba_main := BPublish 0\<rparr>)"
| main_reads:
    "ba_main a = BPublish p \<Longrightarrow> p < length main_events \<Longrightarrow> by_pub (ba_bus a) p = NotCalled \<Longrightarrow>
     bus_subscribers (bus_type (main_events ! p)) (bus_type (main_events ! p)) (by_bus (ba_bus a)) = Ret subs \<Longrightarrow>
     bus_main_step a (ba_publish p (Waiting subs) a)"
| main_publish_panics:
    "ba_main a = BPublish p \<Longrightarrow> p < length main_events \<Longrightarrow> by_pub (ba_bus a) p = NotCalled \<Longrightarrow>
     bus_subscribers (bus_type (main_events ! p)) (bus_type (main_events ! p)) (by_bus (ba_bus a)) = Panic m \<Longrightarrow>
     bus_main_step a (ba_panic (ba_publish p Panicked a))"
| main_acquires:
    "ba_main a = BPublish p \<Longrightarrow> by_pub (ba_bus a) p = Waiting subs \<Longrightarrow>
     (s', None) \<in> set (sem_Acquire live_ctx (bus_sem (by_bus (ba_bus a)))) \<Longrightarrow>
     bus_main_step a
       (a\<lparr>ba_bus := (ba_bus a)\<lparr>by_bus := (by_bus (ba_bus a))\<lparr>bus_sem := s'\<rparr>,
            by_pub := (by_pub (ba_bus a))(p := Calling subs subs), by_slots := p # by_slots (ba_bus a)\<rparr>,
          ba_main := BPublish (Suc p)\<rparr>)"
| main_published:
    "ba_main a = BPublish p \<Longrightarrow> p = length main_events \<Longrightarrow> bus_main_step a (a\<lparr>ba_main := BWait\<rparr>)"
| main_closes:
    "ba_main a = BWait \<Longrightarrow> ba_left a = 0 \<Longrightarrow> chan_close (ba_results a) = Ret c \<Longrightarrow>
     bus_main_step a (a\<lparr>ba_results := c, ba_main := BCollect []\<rparr>)"
| main_close_panics:
    "ba_main a = BWait \<Longrightarrow> ba_left a = 0 \<Longrightarrow> chan_close (ba_results a) = Panic m \<Longrightarrow>
     bus_main_step a (ba_panic a)"
| main_receives:
    "ba_main a = BCollect ls \<Longrightarrow> chan_recv (ba_results a) = Some (Some l, c) \<Longrightarrow>
     bus_main_step a (a\<lparr>ba_results := c, ba_main := BCollect (ls @ [l])\<rparr>)"
| main_prints:
    "ba_main a = BCollect ls \<Longrightarrow> chan_recv (ba_results a) = Some (None, c) \<Longrightarrow>
     bus_main_step a (a\<lparr>ba_main := BDone (sort ls)\<rparr>)"

text \<open>The goroutine of a publish. A \<open>WaitGroup\<close> panics when its counter would be negative.\<close>

inductive bus_deliver_step :: "bus_app \<Rightarrow> bus_app \<Rightarrow> bool" where
  handler_sends:
    "by_pub (ba_bus a) p = Calling subs (s # rest) \<Longrightarrow> p \<notin> set (ba_open a) \<Longrightarrow>
     chan_send (sub_line s (main_events ! p)) (ba_results a) = Ret (Some c) \<Longrightarrow>
     bus_deliver_step a
       (a\<lparr>ba_bus := (ba_bus a)\<lparr>by_pub := (by_pub (ba_bus a))(p := Calling subs rest),
            by_log := by_log (ba_bus a) @ [(p, s)]\<rparr>,
          ba_results := c, ba_open := p # ba_open a\<rparr>)"
| handler_panics:
    "by_pub (ba_bus a) p = Calling subs (s # rest) \<Longrightarrow> p \<notin> set (ba_open a) \<Longrightarrow>
     chan_send (sub_line s (main_events ! p)) (ba_results a) = Panic m \<Longrightarrow> bus_deliver_step a (ba_panic a)"
| handler_done:
    "p \<in> set (ba_open a) \<Longrightarrow> ba_left a = Suc n \<Longrightarrow>
     bus_deliver_step a (a\<lparr>ba_left := n, ba_open := remove1 p (ba_open a)\<rparr>)"
| handler_negative: "p \<in> set (ba_open a) \<Longrightarrow> ba_left a = 0 \<Longrightarrow> bus_deliver_step a (ba_panic a)"
| delivered:
    "by_pub (ba_bus a) p = Calling subs [] \<Longrightarrow> p \<notin> set (ba_open a) \<Longrightarrow>
     sem_Release (bus_sem (by_bus (ba_bus a))) = Some s' \<Longrightarrow>
     bus_deliver_step a
       (a\<lparr>ba_bus := (ba_bus a)\<lparr>by_bus := (by_bus (ba_bus a))\<lparr>bus_sem := s'\<rparr>,
            by_pub := (by_pub (ba_bus a))(p := Finished subs), by_slots := remove1 p (by_slots (ba_bus a))\<rparr>\<rparr>)"

definition bus_app_step :: "bus_app \<Rightarrow> bus_app \<Rightarrow> bool" where
  "bus_app_step a b \<longleftrightarrow> \<not> ba_panicked a \<and> (bus_main_step a b \<or> bus_deliver_step a b)"

text \<open>What the program does to the bus are steps of the bus.\<close>

lemma bus_app_bus:
  assumes "bus_app_step a b"
  shows "ba_bus b = ba_bus a \<or> bus_step (ba_bus a) (ba_bus b)"
  using assms unfolding bus_app_step_def
  by (auto elim!: bus_main_step.cases bus_deliver_step.cases simp: ba_publish_def intro: bus_step.intros)

section \<open>The invariant\<close>

definition pub_subs :: "nat \<Rightarrow> bus_sub list" where
  "pub_subs p = filter (\<lambda>s. sub_type s = bus_type (main_events ! p)) main_subs"

lemma pub_subs_simps [simp]: "pub_subs 0 = [SubAudit, SubReserve]" "pub_subs (Suc 0) = [SubRelease]"
  by (simp_all add: pub_subs_def main_events_def main_subs_def)

fun subscribed :: "bus_main_pc \<Rightarrow> nat" where
  "subscribed (BSubscribe ss) = 3 - length ss"
| "subscribed p = 3"

fun published :: "bus_main_pc \<Rightarrow> nat" where
  "published (BSubscribe ss) = 0"
| "published (BPublish k) = k"
| "published p = 2"

definition pub_ok :: "bus_main_pc \<Rightarrow> nat \<Rightarrow> bus_sub publish \<Rightarrow> bool" where
  "pub_ok m p st \<longleftrightarrow>
     (p < published m \<longrightarrow> st = Finished (pub_subs p) \<or> (\<exists>rest. st = Calling (pub_subs p) rest)) \<and>
     (published m \<le> p \<longrightarrow> st = NotCalled \<or> m = BPublish p \<and> p < 2 \<and> st = Waiting (pub_subs p))"

fun collected :: "bus_main_pc \<Rightarrow> string list" where
  "collected (BCollect ls) = ls"
| "collected (BDone ls) = ls"
| "collected p = []"

definition log_line :: "nat \<times> bus_sub \<Rightarrow> string" where
  "log_line e = sub_line (snd e) (main_events ! fst e)"

definition bus_app_inv :: "bus_app \<Rightarrow> bool" where
  "bus_app_inv a \<longleftrightarrow>
     bus_inv 2 (ba_bus a) \<and>
     (\<forall>ss. ba_main a = BSubscribe ss \<longrightarrow> ss = drop (3 - length ss) main_subs \<and> length ss \<le> 3) \<and>
     bus_m (by_bus (ba_bus a)) \<noteq> None \<and>
     (\<forall>t. gm_slice (bus_m (by_bus (ba_bus a))) t = filter (\<lambda>s. sub_type s = t) (take (subscribed (ba_main a)) main_subs)) \<and>
     published (ba_main a) \<le> 2 \<and> (\<forall>p. pub_ok (ba_main a) p (by_pub (ba_bus a) p)) \<and>
     distinct (ba_open a) \<and> (\<forall>p \<in> set (ba_open a). \<exists>subs rest. by_pub (ba_bus a) p = Calling subs rest) \<and>
     ba_left a + length (by_log (ba_bus a)) = 3 + length (ba_open a) \<and>
     mset (collected (ba_main a) @ ch_buf (ba_results a)) = image_mset log_line (mset (by_log (ba_bus a))) \<and>
     ch_cap (ba_results a) = 3 \<and>
     (ch_closed (ba_results a) \<longleftrightarrow> (\<exists>ls. ba_main a = BCollect ls \<or> ba_main a = BDone ls)) \<and>
     (ch_closed (ba_results a) \<longrightarrow> ba_left a = 0) \<and>
     (\<forall>ls. ba_main a = BDone ls \<longrightarrow> sorted ls \<and> ch_buf (ba_results a) = []) \<and>
     \<not> ba_panicked a"

lemma bus_app_invD:
  assumes "bus_app_inv a"
  shows "bus_inv 2 (ba_bus a)"
    "\<And>ss. ba_main a = BSubscribe ss \<Longrightarrow> ss = drop (3 - length ss) main_subs \<and> length ss \<le> 3"
    "bus_m (by_bus (ba_bus a)) \<noteq> None"
    "\<And>t. gm_slice (bus_m (by_bus (ba_bus a))) t = filter (\<lambda>s. sub_type s = t) (take (subscribed (ba_main a)) main_subs)"
    "published (ba_main a) \<le> 2" "\<forall>p. pub_ok (ba_main a) p (by_pub (ba_bus a) p)"
    "distinct (ba_open a)" "\<forall>p \<in> set (ba_open a). \<exists>subs rest. by_pub (ba_bus a) p = Calling subs rest"
    "ba_left a + length (by_log (ba_bus a)) = 3 + length (ba_open a)"
    "mset (collected (ba_main a) @ ch_buf (ba_results a)) = image_mset log_line (mset (by_log (ba_bus a)))"
    "ch_cap (ba_results a) = 3"
    "ch_closed (ba_results a) \<longleftrightarrow> (\<exists>ls. ba_main a = BCollect ls \<or> ba_main a = BDone ls)"
    "ch_closed (ba_results a) \<Longrightarrow> ba_left a = 0"
    "\<And>ls. ba_main a = BDone ls \<Longrightarrow> sorted ls \<and> ch_buf (ba_results a) = []" "\<not> ba_panicked a"
  using assms unfolding bus_app_inv_def by blast+

text \<open>The calls of the two publishes are all there are.\<close>

lemma log_split:
  "fst ` set l \<subseteq> {0, 1 :: nat} \<Longrightarrow>
     mset l = mset (map (Pair 0) (map snd (filter (\<lambda>e. fst e = 0) l))) +
       mset (map (Pair 1) (map snd (filter (\<lambda>e. fst e = 1) l)))"
  by (induction l) auto

lemma calls_so_far:
  assumes inv: "bus_app_inv a"
  shows "mset (by_log (ba_bus a)) = mset (map (Pair 0) (called 0 (ba_bus a))) + mset (map (Pair 1) (called 1 (ba_bus a)))"
    and "\<And>p. p < 2 \<Longrightarrow> \<exists>rest. called p (ba_bus a) @ rest = pub_subs p \<and>
       (\<forall>subs rest'. by_pub (ba_bus a) p = Calling subs rest' \<longrightarrow> rest' = rest)"
proof -
  note facts = bus_app_invD [OF inv]
  have ok: "publish_ok (by_pub (ba_bus a) p) (called p (ba_bus a)) (p \<in> set (by_slots (ba_bus a)))" for p
    using facts(1) by (simp add: bus_inv_def)
  have none: "called p (ba_bus a) = []" if "\<not> p < 2" for p
    using ok [of p] facts(5) spec [OF facts(6), of p] that by (auto simp: pub_ok_def split: if_splits)
  have "fst e < 2" if "e \<in> set (by_log (ba_bus a))" for e
    using none [of "fst e"] that by (auto simp: called_def filter_empty_conv)
  then have "fst ` set (by_log (ba_bus a)) \<subseteq> {..<2}"
    by blast
  moreover have "{..<2 :: nat} = {0, 1}"
    by auto
  ultimately have "fst ` set (by_log (ba_bus a)) \<subseteq> {0, 1}"
    by simp
  from log_split [OF this] show "mset (by_log (ba_bus a)) =
      mset (map (Pair 0) (called 0 (ba_bus a))) + mset (map (Pair 1) (called 1 (ba_bus a)))"
    unfolding called_def .
  show "\<exists>rest. called p (ba_bus a) @ rest = pub_subs p \<and>
       (\<forall>subs rest'. by_pub (ba_bus a) p = Calling subs rest' \<longrightarrow> rest' = rest)" if "p < 2" for p
    using ok [of p] spec [OF facts(6), of p] by (auto simp: pub_ok_def split: if_splits)
qed

lemma log_length:
  assumes inv: "bus_app_inv a"
  shows "length (by_log (ba_bus a)) = length (called 0 (ba_bus a)) + length (called 1 (ba_bus a))"
  using arg_cong [OF calls_so_far(1) [OF inv], of size] by simp

lemma log_bound:
  assumes inv: "bus_app_inv a"
  shows "length (by_log (ba_bus a)) \<le> 3"
    and "by_pub (ba_bus a) p = Calling subs (s # rest) \<Longrightarrow> length (by_log (ba_bus a)) < 3"
proof -
  obtain r0 r1 where r: "called 0 (ba_bus a) @ r0 = pub_subs 0" "called 1 (ba_bus a) @ r1 = pub_subs 1"
      "\<forall>subs rest'. by_pub (ba_bus a) 0 = Calling subs rest' \<longrightarrow> rest' = r0"
      "\<forall>subs rest'. by_pub (ba_bus a) 1 = Calling subs rest' \<longrightarrow> rest' = r1"
    using calls_so_far(2) [OF inv, of 0] calls_so_far(2) [OF inv, of 1] by auto
  have len: "length (called 0 (ba_bus a)) + length r0 = 2" "length (called 1 (ba_bus a)) + length r1 = 1"
    using arg_cong [OF r(1), of length] arg_cong [OF r(2), of length] unfolding length_append by simp_all
  then show "length (by_log (ba_bus a)) \<le> 3"
    using log_length [OF inv] by simp
  assume c: "by_pub (ba_bus a) p = Calling subs (s # rest)"
  then have "p < 2"
    using bus_app_invD(5) [OF inv] spec [OF bus_app_invD(6) [OF inv], of p] by (auto simp: pub_ok_def split: if_splits)
  then have "r0 \<noteq> [] \<or> r1 \<noteq> []"
    using r(3,4) c by (auto simp: less_2_cases_iff)
  then show "length (by_log (ba_bus a)) < 3"
    using log_length [OF inv] len by (cases r0; cases r1) auto
qed

lemma bus_app_step_bus: "bus_app_inv a \<Longrightarrow> bus_app_step a b \<Longrightarrow> bus_inv 2 (ba_bus b)"
  using bus_app_bus [of a b] bus_app_invD(1) [of a] bus_step_inv [of 2 "ba_bus a" "ba_bus b"] by auto

lemma subscribe_slice:
  assumes "bus_Subscribe t (Some s) b = Ret b'" and "bus_m b \<noteq> None"
  shows "bus_m b' \<noteq> None \<and> gm_slice (bus_m b') u = (if u = t then gm_slice (bus_m b) t @ [s] else gm_slice (bus_m b) u)"
  using assms by (auto simp: bus_Subscribe_def go_bind_eq_Ret gm_assign_def gm_slice_def gm_get_def gm_entries_def update_conv'
      split: option.splits)

lemma drop_Cons_take: "x # ys = drop k xs \<Longrightarrow> take (Suc k) xs = take k xs @ [x] \<and> ys = drop (Suc k) xs"
  by (metis append_Cons append_eq_conv_conj append_take_drop_id drop_Suc list.sel(3) nth_via_drop tl_drop take_Suc_conv_app_nth drop_all leI list.distinct(1))

lemma main_publishes:
  assumes inv: "bus_app_inv a" and "ba_main a = BPublish p" and "p < length main_events"
  shows "bus_subscribers (bus_type (main_events ! p)) (bus_type (main_events ! p)) (by_bus (ba_bus a)) = Ret (pub_subs p)"
proof -
  have "gm_slice (bus_m (by_bus (ba_bus a))) (bus_type (main_events ! p)) = pub_subs p"
    using bus_app_invD(4) [OF inv] assms(2) by (simp add: pub_subs_def main_subs_def)
  moreover have "p = 0 \<or> p = 1"
    using assms(3) by (auto simp: main_events_def)
  then have "pub_subs p \<noteq> []" by auto
  ultimately show ?thesis
    by (simp add: bus_subscribers_def)
qed

lemma bus_main_step_inv:
  assumes "bus_main_step a b" and inv: "bus_app_inv a"
  shows "bus_app_inv b"
proof -
  note facts = bus_app_invD [OF inv]
  have bus: "bus_inv 2 (ba_bus b)"
    using bus_app_step_bus [OF inv] assms(1) facts(15) by (simp add: bus_app_step_def)
  have events: "length main_events = 2"
    by (simp add: main_events_def)
  from assms(1) show ?thesis
  proof cases
    case (main_subscribes s ss b')
    note m = facts(2) [OF main_subscribes(2)]
    let ?k = "3 - length (s # ss)"
    have k: "Suc ?k = 3 - length ss"
      using conjunct2 [OF m] by simp
    have k': "ss = drop (Suc ?k) main_subs" "take (Suc ?k) main_subs = take ?k main_subs @ [s]"
      using drop_Cons_take [OF conjunct1 [OF m]] by blast+
    have slice: "gm_slice (bus_m b') t = filter (\<lambda>s. sub_type s = t) (take (3 - length ss) main_subs)" for t
      using subscribe_slice [OF main_subscribes(3) facts(3), of t] facts(4) [of t]
      unfolding main_subscribes(2) subscribed.simps k [symmetric] k'(2) by auto
    have "bus_m b' \<noteq> None"
      using subscribe_slice [OF main_subscribes(3) facts(3)] by blast
    then show ?thesis
      using facts(3,5-15) bus slice conjunct2 [OF m] k'(1) [unfolded k] main_subscribes(2) unfolding bus_app_inv_def main_subscribes(1)
      by (auto simp: pub_ok_def)
  next
    case (main_subscribe_panics s ss m)
    then show ?thesis
      using facts(3) by (auto simp: bus_Subscribe_def gm_assign_def split: option.splits)
  next
    case (main_publish_panics p m)
    then show ?thesis using main_publishes [OF inv] by simp
  next
    case main_subscribed
    then show ?thesis
      using facts bus unfolding bus_app_inv_def by (auto simp: pub_ok_def main_subs_def)
  next
    case (main_reads p subs)
    have subs: "subs = pub_subs p"
      using main_publishes [OF inv main_reads(2,3)] main_reads(5) by simp
    have "pub_ok (BPublish p) q (((by_pub (ba_bus a))(p := Waiting (pub_subs p))) q)" for q
      using spec [OF facts(6), of q] main_reads(2,3) events
      by (cases "q = p") (auto simp: pub_ok_def split: if_splits)
    then show ?thesis
      using facts(2-5,7-15) bus main_reads(1,2,4) subs unfolding bus_app_inv_def by (auto simp: ba_publish_def)
  next
    case (main_acquires p subs s')
    have subs: "subs = pub_subs p" "p < 2"
      using spec [OF facts(6), of p] main_acquires(3) by (auto simp: pub_ok_def split: if_splits)
    have "pub_ok (BPublish (Suc p)) q (((by_pub (ba_bus a))(p := Calling (pub_subs p) (pub_subs p))) q)" for q
      using spec [OF facts(6), of q] main_acquires(2)
      by (cases "q = p"; cases "q < p") (auto simp: pub_ok_def split: if_splits)
    then show ?thesis
      using facts(2-5,7-15) bus main_acquires(1-3) subs unfolding bus_app_inv_def by auto
  next
    case (main_published p)
    then show ?thesis
      using facts bus events unfolding bus_app_inv_def by (auto simp: pub_ok_def)
  next
    case (main_closes c)
    then show ?thesis
      using facts bus unfolding bus_app_inv_def by (auto simp: pub_ok_def chan_close_def split: if_splits)
  next
    case (main_close_panics m)
    then show ?thesis
      using facts(12) by (simp add: chan_close_def split: if_splits)
  next
    case (main_receives ls l c)
    then show ?thesis
      using facts bus unfolding bus_app_inv_def by (auto simp: pub_ok_def chan_recv_cases)
  next
    case (main_prints ls c)
    then show ?thesis
      using facts bus unfolding bus_app_inv_def by (auto simp: pub_ok_def chan_recv_cases)
  qed
qed

text \<open>When the wait group is at zero every subscriber has been called and is done.\<close>

lemma all_called:
  assumes inv: "bus_app_inv a" and "ba_left a = 0"
  shows "ba_open a = []" and "\<And>p. p < 2 \<Longrightarrow> called p (ba_bus a) = pub_subs p"
    and "image_mset log_line (mset (by_log (ba_bus a))) =
      mset [''audit: order placed order-123'', ''fulfillment: reserve inventory for order-123'',
        ''fulfillment: release inventory for order-123'']"
proof -
  have len: "length (by_log (ba_bus a)) = 3 + length (ba_open a)"
    using bus_app_invD(9) [OF inv] assms(2) by simp
  then show "ba_open a = []"
    using log_bound(1) [OF inv] by simp
  then have log: "length (called 0 (ba_bus a)) + length (called 1 (ba_bus a)) = 3"
    using len log_length [OF inv] by simp
  obtain r0 r1 where r: "called 0 (ba_bus a) @ r0 = pub_subs 0" "called 1 (ba_bus a) @ r1 = pub_subs 1"
    using calls_so_far(2) [OF inv, of 0] calls_so_far(2) [OF inv, of 1] by auto
  have "length (called 0 (ba_bus a)) + length r0 = 2" "length (called 1 (ba_bus a)) + length r1 = 1"
    using arg_cong [OF r(1), of length] arg_cong [OF r(2), of length] unfolding length_append by simp_all
  then have "r0 = [] \<and> r1 = []"
    using log by (cases r0; cases r1) simp_all
  then have whole: "called 0 (ba_bus a) = pub_subs 0" "called 1 (ba_bus a) = pub_subs 1"
    using r by simp_all
  then show "called p (ba_bus a) = pub_subs p" if "p < 2" for p
    using that by (auto simp: less_2_cases_iff)
  show "image_mset log_line (mset (by_log (ba_bus a))) =
      mset [''audit: order placed order-123'', ''fulfillment: reserve inventory for order-123'',
        ''fulfillment: release inventory for order-123'']"
    unfolding calls_so_far(1) [OF inv] whole by (simp add: log_line_def main_events_def)
qed

lemma bus_deliver_step_inv:
  assumes "bus_deliver_step a b" and inv: "bus_app_inv a"
  shows "bus_app_inv b"
proof -
  note facts = bus_app_invD [OF inv]
  have bus: "bus_inv 2 (ba_bus b)"
    using bus_app_step_bus [OF inv] assms(1) facts(15) by (simp add: bus_app_step_def)
  have busy: "\<not> ch_closed (ba_results a)" if "by_pub (ba_bus a) p = Calling subs (s # rest)" for p subs s rest
  proof
    assume "ch_closed (ba_results a)"
    then have "ba_left a = 0" by (rule facts(13))
    then show False
      using log_bound(2) [OF inv that] facts(9) by simp
  qed
  from assms(1) show ?thesis
  proof cases
    case (handler_sends p subs s rest c)
    have st: "published (ba_main a) > p" "subs = pub_subs p"
      using spec [OF facts(6), of p] handler_sends(2) by (auto simp: pub_ok_def split: if_splits)
    show ?thesis
      using facts(2-15) bus busy [OF handler_sends(2)] handler_sends st unfolding bus_app_inv_def
      by (auto simp: pub_ok_def chan_send_cases log_line_def)
  next
    case (handler_panics p subs s rest m)
    then show ?thesis using busy by (auto simp: chan_send_def split: if_splits)
  next
    case (handler_done p n)
    have "length (remove1 p (ba_open a)) = length (ba_open a) - 1" "0 < length (ba_open a)"
      using handler_done(2) by (auto simp: length_remove1)
    then show ?thesis
      using facts bus handler_done unfolding bus_app_inv_def by (auto dest: notin_set_remove1)
  next
    case (handler_negative p)
    then show ?thesis using all_called(1) [OF inv] by simp
  next
    case (delivered p subs s')
    have st: "published (ba_main a) > p" "subs = pub_subs p"
      using spec [OF facts(6), of p] delivered(2) by (auto simp: pub_ok_def split: if_splits)
    show ?thesis
      using facts(2-15) bus delivered st unfolding bus_app_inv_def by (auto simp: pub_ok_def)
  qed
qed

interpretation bus_app: inductive_invariant bus_app_start bus_app_step bus_app_inv
proof
  show "bus_app_inv a" if "bus_app_start a" for a
  proof -
    have "bus_inv 2 (ba_bus a)"
      using that by (intro bus.inv_start) (simp add: bus_app_start_def)
    then show ?thesis
      using that by (auto simp: bus_app_start_def bus_start_def bus_app_inv_def pub_ok_def main_subs_def NewBus_def
          gm_slice_def chan_make_def) (simp_all add: gm_defs)
  qed
  show "bus_app_inv b" if "bus_app_inv a" "bus_app_step a b" for a b
    using that bus_main_step_inv bus_deliver_step_inv by (auto simp: bus_app_step_def)
qed

section \<open>What it prints\<close>

text \<open>
  Whatever the interleaving, nothing panics, and what \<open>main\<close> prints in the end are the three
  lines in their order.
\<close>

lemma bus_app_output:
  assumes "reach bus_app_start bus_app_step a"
  shows "\<not> ba_panicked a \<and> (\<forall>ls. ba_main a = BDone ls \<longrightarrow>
    ls = [''audit: order placed order-123'', ''fulfillment: release inventory for order-123'',
      ''fulfillment: reserve inventory for order-123''])"
proof -
  have inv: "bus_app_inv a"
    by (rule bus_app.reach_inv [OF assms])
  note facts = bus_app_invD [OF inv]
  have "ls = [''audit: order placed order-123'', ''fulfillment: release inventory for order-123'',
      ''fulfillment: reserve inventory for order-123'']" if "ba_main a = BDone ls" for ls
  proof -
    have "ba_left a = 0" "sorted ls" "mset ls = image_mset log_line (mset (by_log (ba_bus a)))"
      using that facts(10,12,13,14) by auto
    then have "sort [''audit: order placed order-123'', ''fulfillment: reserve inventory for order-123'',
        ''fulfillment: release inventory for order-123''] = ls"
      using all_called(3) [OF inv] by (intro properties_for_sort) simp_all
    also have "sort [''audit: order placed order-123'', ''fulfillment: reserve inventory for order-123'',
        ''fulfillment: release inventory for order-123''] = [''audit: order placed order-123'', ''fulfillment: release inventory for order-123'',
      ''fulfillment: reserve inventory for order-123'']"
      by code_simp
    ultimately show ?thesis by simp
  qed
  then show ?thesis using facts(15) by blast
qed

section \<open>It ends\<close>

fun bus_main_left :: "nat \<Rightarrow> bus_main_pc \<Rightarrow> nat" where
  "bus_main_left k (BSubscribe ss) = 20 + length ss"
| "bus_main_left k (BPublish p) = 12 - p"
| "bus_main_left k BWait = 6"
| "bus_main_left k (BCollect ls) = Suc k"
| "bus_main_left k (BDone ls) = 0"

fun pub_left :: "bus_sub publish \<Rightarrow> nat" where
  "pub_left NotCalled = 7"
| "pub_left (Waiting subs) = 6"
| "pub_left (Calling subs rest) = Suc (2 * length rest)"
| "pub_left st = 0"

definition bus_left :: "bus_app \<Rightarrow> nat" where
  "bus_left a =
     bus_main_left (length (ch_buf (ba_results a))) (ba_main a) + pub_left (by_pub (ba_bus a) 0) +
     pub_left (by_pub (ba_bus a) 1) + length (ba_open a)"

lemma active_pub: "bus_app_inv a \<Longrightarrow> by_pub (ba_bus a) p \<noteq> NotCalled \<Longrightarrow> p = 0 \<or> p = 1"
  using bus_app_invD(5) [of a] spec [OF bus_app_invD(6) [of a], of p] by (cases "p < 2") (auto simp: pub_ok_def)

lemma buffered: "bus_app_inv a \<Longrightarrow> ba_main a = BWait \<Longrightarrow> length (ch_buf (ba_results a)) \<le> 3"
  using arg_cong [OF bus_app_invD(10) [of a], of size] log_bound(1) [of a] by simp

lemma pub_subs_length: "length (pub_subs p) \<le> 2 \<or> 1 < p"
  by (cases "p = 0"; cases "p = 1") simp_all

lemma bus_app_step_left:
  assumes "bus_app_step a b" and inv: "bus_app_inv a"
  shows "bus_left b < bus_left a"
proof -
  have inv': "bus_app_inv b"
    using assms bus_main_step_inv bus_deliver_step_inv by (auto simp: bus_app_step_def)
  have open': "0 < length (ba_open a)" if "p \<in> set (ba_open a)" for p
    using that by auto
  from assms(1) consider "bus_main_step a b" | "bus_deliver_step a b"
    by (auto simp: bus_app_step_def)
  then show ?thesis
  proof cases
    case 1
    then show ?thesis
    proof cases
      case (main_reads p subs)
      have "p = 0 \<or> p = 1"
        using main_reads(3) by (auto simp: main_events_def)
      then show ?thesis using main_reads(1,4) by (auto simp: bus_left_def ba_publish_def)
    next
      case (main_acquires p subs s')
      have "p = 0 \<or> p = 1" "length subs \<le> 2"
        using active_pub [OF inv, of p] main_acquires(3) spec [OF bus_app_invD(6) [OF inv], of p] pub_subs_length [of p]
        by (auto simp: pub_ok_def)
      then show ?thesis using main_acquires(1,2,3) by (auto simp: bus_left_def)
    next
      case (main_closes c)
      then show ?thesis using buffered [OF inv] by (auto simp: bus_left_def chan_close_def split: if_splits)
    qed (use bus_app_invD(15) [OF inv'] in \<open>auto simp: bus_left_def main_events_def chan_recv_cases\<close>)
  next
    case 2
    then show ?thesis
    proof cases
      case (handler_sends p subs s rest c)
      then show ?thesis
        using active_pub [OF inv, of p] bus_app_invD(12) [OF inv]
        by (cases "ba_main a") (auto simp: bus_left_def chan_send_cases)
    next
      case (handler_done p n)
      then show ?thesis using open' by (auto simp: bus_left_def length_remove1)
    next
      case (delivered p subs s')
      then show ?thesis using active_pub [OF inv, of p] by (auto simp: bus_left_def)
    qed (use bus_app_invD(15) [OF inv'] in auto)
  qed
qed

lemma main_can_step:
  assumes inv: "bus_app_inv a" and "ba_left a = 0 \<or> ba_main a \<noteq> BWait" and "\<forall>ls. ba_main a \<noteq> BDone ls"
  shows "\<exists>b. bus_main_step a b"
proof -
  note facts = bus_app_invD [OF inv]
  show ?thesis
  proof (cases "ba_main a")
    case (BSubscribe ss)
    then show ?thesis
    proof (cases ss)
      case (Cons s ss')
      then show ?thesis
        using BSubscribe main_subscribes [of a s ss'] main_subscribe_panics [of a s ss']
        by (cases "bus_Subscribe (sub_type s) (Some s) (by_bus (ba_bus a))") auto
    qed (use main_subscribed in auto)
  next
    case (BPublish p)
    show ?thesis
    proof (cases "p = 2")
      case True
      then show ?thesis using BPublish main_published [of a p] by (auto simp: main_events_def)
    next
      case False
      then have p: "p < length main_events"
        using facts(5) BPublish by (simp add: main_events_def)
      from spec [OF facts(6), of p] BPublish consider "by_pub (ba_bus a) p = NotCalled" | "by_pub (ba_bus a) p = Waiting (pub_subs p)"
        by (auto simp: pub_ok_def)
      then show ?thesis
      proof cases
        case 1
        then show ?thesis using main_reads [OF BPublish p 1] main_publishes [OF inv BPublish p] by blast
      next
        case 2
        have "q \<in> {0, 1} - {p}" if "q \<in> set (by_slots (ba_bus a))" for q
        proof -
          have "publish_ok (by_pub (ba_bus a) q) (called q (ba_bus a)) True"
            using facts(1) that by (metis bus_inv_def)
          then have "\<exists>subs rest. by_pub (ba_bus a) q = Calling subs rest"
            by (cases "by_pub (ba_bus a) q") simp_all
          then show ?thesis using active_pub [OF inv, of q] 2 by auto
        qed
        then have "card (set (by_slots (ba_bus a))) \<le> card ({0, 1} - {p})"
          by (intro card_mono) auto
        also have "\<dots> < 2"
          using p by (auto simp: main_events_def less_Suc_eq)
        finally have "length (by_slots (ba_bus a)) < 2"
          using facts(1) by (simp add: bus_inv_def distinct_card)
        then have "\<exists>s'. (s', None) \<in> set (sem_Acquire live_ctx (bus_sem (by_bus (ba_bus a))))"
          using facts(1) by (simp add: bus_inv_def sem_inv_def sem_view_def sem_size_def sem_Acquire_def chan_send_def Let_def) blast
        then show ?thesis using main_acquires [OF BPublish 2] by blast
      qed
    qed
  next
    case BWait
    then show ?thesis
      using assms(2) main_closes [of a] main_close_panics [of a] by (cases "chan_close (ba_results a)") auto
  next
    case (BCollect ls)
    then have "ch_closed (ba_results a)"
      using facts(12) by blast
    then obtain o1 c where "chan_recv (ba_results a) = Some (o1, c)"
      by (cases "ch_buf (ba_results a)") (simp_all add: chan_recv_def)
    then show ?thesis
      using BCollect main_receives [of a ls] main_prints [of a ls] by (cases o1) auto
  qed (use assms(3) in simp)
qed

lemma deliver_can_step:
  assumes inv: "bus_app_inv a" and "ba_left a \<noteq> 0" and "ba_main a = BWait"
  shows "\<exists>b. bus_deliver_step a b"
proof (cases "ba_open a = []")
  case False
  then obtain p ps where "ba_open a = p # ps"
    by (cases "ba_open a") auto
  then show ?thesis
    using handler_done [of p a "ba_left a - 1"] assms(2) by auto
next
  case True
  note facts = bus_app_invD [OF inv]
  have "length (called 0 (ba_bus a)) + length (called 1 (ba_bus a)) < 3"
    using facts(9) True assms(2) log_length [OF inv] by simp
  then obtain p where p: "p < 2" "called p (ba_bus a) \<noteq> pub_subs p"
    by (metis One_nat_def add.commute lessI less_2_cases_iff list.size(3,4) numeral_2_eq_2 numeral_3_eq_3 plus_1_eq_Suc pub_subs_simps nat_less_le)
  have st: "by_pub (ba_bus a) p = Finished (pub_subs p) \<or> (\<exists>rest. by_pub (ba_bus a) p = Calling (pub_subs p) rest)"
    using spec [OF facts(6), of p] p(1) assms(3) by (simp add: pub_ok_def)
  have ok: "publish_ok (by_pub (ba_bus a) p) (called p (ba_bus a)) (p \<in> set (by_slots (ba_bus a)))"
    using facts(1) by (simp add: bus_inv_def)
  then obtain s rest where c: "by_pub (ba_bus a) p = Calling (pub_subs p) (s # rest)"
    using st p(2) by (metis append_Nil2 list.exhaust publish_ok.simps(1,2))
  have "chan_send (sub_line s (main_events ! p)) (ba_results a) \<noteq> Ret None"
  proof -
    have "length (ch_buf (ba_results a)) = length (by_log (ba_bus a))"
      using arg_cong [OF facts(10), of size] assms(3) by simp
    then show ?thesis
      using log_bound(2) [OF inv c] facts(11) by (simp add: chan_send_cases)
  qed
  then show ?thesis
    using handler_sends [OF c] handler_panics [OF c] True
    by (cases "chan_send (sub_line s (main_events ! p)) (ba_results a)") auto
qed

lemma bus_app_goes_on:
  assumes inv: "bus_app_inv a" and "\<forall>ls. ba_main a \<noteq> BDone ls"
  shows "\<exists>b. bus_app_step a b"
  using main_can_step [OF inv] deliver_can_step [OF inv] assms(2) bus_app_invD(15) [OF inv]
  unfolding bus_app_step_def by blast

text \<open>
  No schedule is longer than 37 steps, and every schedule that cannot be continued has printed.
\<close>

lemma bus_app_ends:
  assumes "bus_app_start a" and "(bus_app_step ^^ n) a b"
  shows "n \<le> 37 \<and> ((\<exists>c. bus_app_step b c) \<or> (\<exists>ls. ba_main b = BDone ls))"
proof -
  have "n + bus_left b \<le> bus_left a \<and> bus_app_inv b"
    using assms(2)
  proof (induction n arbitrary: b)
    case 0
    then show ?case using bus_app.inv_start [OF assms(1)] by simp
  next
    case (Suc n)
    then obtain c where c: "(bus_app_step ^^ n) a c" "bus_app_step c b"
      by auto
    then show ?case
      using Suc.IH [OF c(1)] bus_app_step_left [OF c(2)] bus_app.inv_step [OF _ c(2)] by simp
  qed
  moreover have "bus_left a = 37"
    using assms(1) by (simp add: bus_app_start_def bus_start_def bus_left_def main_subs_def)
  ultimately show ?thesis
    using bus_app_goes_on [of b] by auto
qed

end
