(* ===== verification/Gx_Example_Debouncer.thy ===== *)
theory Gx_Example_Debouncer imports Gx_Debouncer Gx_Chan begin

text \<open>
  \<open>examples/debouncer/main.go\<close>: the two demonstrations on \<open>Gx_Debouncer\<close>. The main goroutine,
  the clock and the callbacks, which send to a channel, interleave. A \<open>Sleep\<close> takes at least
  its time, a timer fires at its time or later: what is shown holds for every machine.
\<close>

section \<open>A debouncer whose callbacks send\<close>

text \<open>\<open>da_sends\<close> are the callbacks that have started and not yet sent. The unit of time is a nanosecond.\<close>

record ('f, 'p) deb_app =
  da_db :: "'f db_sys"
  da_main :: 'p
  da_chan :: "'f chan"
  da_sends :: "'f list"

abbreviation now :: "('f, 'p) deb_app \<Rightarrow> int" where
  "now a \<equiv> ds_now (da_db a)"

abbreviation ms :: "int \<Rightarrow> int" where
  "ms n \<equiv> n * 1000000"

definition deb_do :: "'f \<Rightarrow> ('f, 'p) deb_app \<Rightarrow> ('f, 'p) deb_app" where
  "deb_do f a = a\<lparr>da_db := logged (DoCalled f (now a)) (debouncer_Do f (da_db a))\<rparr>"

definition deb_cancel :: "('f, 'p) deb_app \<Rightarrow> ('f, 'p) deb_app" where
  "deb_cancel a = a\<lparr>da_db := logged CancelCalled (debouncer_Cancel (da_db a))\<rparr>"

inductive callback_step :: "('f, 'p) deb_app \<Rightarrow> ('f, 'p) deb_app \<Rightarrow> bool" where
  callback_starts:
    "t \<in> set (ds_timers (da_db a)) \<Longrightarrow> tm_due t \<le> now a \<Longrightarrow>
     callback_step a
       (a\<lparr>da_db := logged (Fired (tm_fn t) (now a)) ((da_db a)\<lparr>ds_timers := timer_Stop (tm_id t) (ds_timers (da_db a))\<rparr>),
          da_sends := da_sends a @ [tm_fn t]\<rparr>)"
| callback_sends:
    "f \<in> set (da_sends a) \<Longrightarrow> chan_send f (da_chan a) = Ret (Some c) \<Longrightarrow>
     callback_step a (a\<lparr>da_chan := c, da_sends := remove1 f (da_sends a)\<rparr>)"
| clock: "0 \<le> dt \<Longrightarrow> callback_step a (a\<lparr>da_db := (da_db a)\<lparr>ds_now := now a + dt\<rparr>\<rparr>)"

definition deb_start :: "'p \<Rightarrow> ('f, 'p) deb_app \<Rightarrow> bool" where
  "deb_start p a \<longleftrightarrow> db_start (ms 100) (da_db a) \<and> da_main a = p \<and> da_chan a = chan_make 1 \<and> da_sends a = []"

section \<open>The two functions\<close>

datatype search_pc = STyping "string list" | SSleeping int "string list" | SWaiting int | SFound string | STimedOut

definition queries :: "string list" where
  "queries = [''g'', ''gx'', ''gx runtime'']"

inductive searchAfterTypingStops :: "(string, search_pc) deb_app \<Rightarrow> (string, search_pc) deb_app \<Rightarrow> bool" where
  search_types:
    "da_main a = STyping (q # qs) \<Longrightarrow>
     searchAfterTypingStops a ((deb_do q a)\<lparr>da_main := SSleeping (now a + ms 30) qs\<rparr>)"
| search_wakes:
    "da_main a = SSleeping t qs \<Longrightarrow> t \<le> now a \<Longrightarrow> searchAfterTypingStops a (a\<lparr>da_main := STyping qs\<rparr>)"
| search_waits:
    "da_main a = STyping [] \<Longrightarrow> searchAfterTypingStops a (a\<lparr>da_main := SWaiting (now a + ms 1000)\<rparr>)"
| search_finds:
    "da_main a = SWaiting t \<Longrightarrow> chan_recv (da_chan a) = Some (Some q, c) \<Longrightarrow>
     searchAfterTypingStops a (a\<lparr>da_chan := c, da_main := SFound q\<rparr>)"
| search_times_out:
    "da_main a = SWaiting t \<Longrightarrow> t \<le> now a \<Longrightarrow> searchAfterTypingStops a (a\<lparr>da_main := STimedOut\<rparr>)"
| search_callback: "callback_step a b \<Longrightarrow> searchAfterTypingStops a b"

datatype cancel_pc = CDo | CCancel | CSelect | CWaiting int | CRan | CDidNotRun

inductive cancelPendingWork :: "(unit, cancel_pc) deb_app \<Rightarrow> (unit, cancel_pc) deb_app \<Rightarrow> bool" where
  cancel_does: "da_main a = CDo \<Longrightarrow> cancelPendingWork a ((deb_do () a)\<lparr>da_main := CCancel\<rparr>)"
| cancel_cancels: "da_main a = CCancel \<Longrightarrow> cancelPendingWork a ((deb_cancel a)\<lparr>da_main := CSelect\<rparr>)"
| cancel_waits: "da_main a = CSelect \<Longrightarrow> cancelPendingWork a (a\<lparr>da_main := CWaiting (now a + ms 150)\<rparr>)"
| cancel_ran:
    "da_main a = CWaiting t \<Longrightarrow> chan_recv (da_chan a) = Some (Some u, c) \<Longrightarrow>
     cancelPendingWork a (a\<lparr>da_chan := c, da_main := CRan\<rparr>)"
| cancel_did_not_run: "da_main a = CWaiting t \<Longrightarrow> t \<le> now a \<Longrightarrow> cancelPendingWork a (a\<lparr>da_main := CDidNotRun\<rparr>)"
| cancel_callback: "callback_step a b \<Longrightarrow> cancelPendingWork a b"

section \<open>What has been called and fired\<close>

lemma callback_db:
  assumes "callback_step a b"
  shows "db_step (da_db a) (da_db b)"
  using assms time_passes [of 0 "da_db a"] by cases (auto intro: fires time_passes)

fun calls_of :: "'f db_event list \<Rightarrow> 'f list" where
  "calls_of [] = []"
| "calls_of (DoCalled f t # evs) = f # calls_of evs"
| "calls_of (e # evs) = calls_of evs"

lemma calls_of_append [simp]: "calls_of (evs @ evs') = calls_of evs @ calls_of evs'"
  by (induction evs rule: calls_of.induct) simp_all

lemma calls_of_mem: "f \<in> set (calls_of evs) \<longleftrightarrow> (\<exists>t. DoCalled f t \<in> set evs)"
  by (induction evs rule: calls_of.induct) auto

fun event_time :: "'f db_event \<Rightarrow> int \<Rightarrow> bool" where
  "event_time (DoCalled f s) t \<longleftrightarrow> s = t"
| "event_time (Fired f s) t \<longleftrightarrow> s = t"
| "event_time CancelCalled t \<longleftrightarrow> False"

text \<open>The log is in the order of time, up to now; what has been or will be sent has fired.\<close>

definition log_ok :: "int \<Rightarrow> 'f db_event list \<Rightarrow> bool" where
  "log_ok t evs \<longleftrightarrow>
     (\<forall>e \<in> set evs. \<forall>s. event_time e s \<longrightarrow> s \<le> t) \<and>
     sorted_wrt (\<lambda>e e'. \<forall>s u. event_time e s \<longrightarrow> event_time e' u \<longrightarrow> s \<le> u) evs"

definition deb_ok :: "('f, 'p) deb_app \<Rightarrow> bool" where
  "deb_ok a \<longleftrightarrow> db_inv (ms 100) (da_db a) \<and> log_ok (now a) (ds_log (da_db a)) \<and>
     (\<forall>f \<in> set (da_sends a) \<union> set (ch_buf (da_chan a)). \<exists>t. Fired f t \<in> set (ds_log (da_db a)))"

lemma log_ok_snoc:
  "log_ok t evs \<Longrightarrow> (\<And>s. event_time e s \<Longrightarrow> s = t) \<Longrightarrow> log_ok t (evs @ [e])"
  unfolding log_ok_def by (auto simp: sorted_wrt_append)

lemma log_ok_later: "log_ok t evs \<Longrightarrow> t \<le> t' \<Longrightarrow> log_ok t' evs"
  unfolding log_ok_def by (meson order_trans)

lemma callback_ok:
  assumes "callback_step a b" and "deb_ok a"
  shows "deb_ok b" and "da_main b = da_main a" and "calls_of (ds_log (da_db b)) = calls_of (ds_log (da_db a))"
proof -
  have "db_inv (ms 100) (da_db b)"
    using db_step_inv callback_db [OF assms(1)] assms(2) by (auto simp: deb_ok_def)
  with assms show "deb_ok b"
  proof cases
    case (callback_starts t)
    then show ?thesis
      using assms(2) \<open>db_inv (ms 100) (da_db b)\<close> by (auto simp: deb_ok_def logged_def intro!: log_ok_snoc)
  next
    case (callback_sends f c)
    then show ?thesis
      using assms(2) \<open>db_inv (ms 100) (da_db b)\<close>
        set_remove1_subset [of f "da_sends a"]
      by (auto simp: deb_ok_def chan_send_cases)
  next
    case (clock dt)
    then show ?thesis
      using assms(2) \<open>db_inv (ms 100) (da_db b)\<close> by (auto simp: deb_ok_def intro: log_ok_later)
  qed
  from assms(1) show "da_main b = da_main a" "calls_of (ds_log (da_db b)) = calls_of (ds_log (da_db a))"
    by (auto elim!: callback_step.cases simp: logged_def)
qed

lemma deb_do_ok:
  assumes "deb_ok a"
  shows "deb_ok ((deb_do f a)\<lparr>da_main := p\<rparr>)"
    and "calls_of (ds_log (da_db (deb_do f a))) = calls_of (ds_log (da_db a)) @ [f]"
proof -
  have "db_inv (ms 100) (da_db (deb_do f a))"
    using db_step_inv [OF _ does, of "ms 100" "da_db a" f] assms by (simp add: deb_ok_def deb_do_def)
  then show "deb_ok ((deb_do f a)\<lparr>da_main := p\<rparr>)"
    using assms by (auto simp: deb_ok_def deb_do_def logged_def debouncer_Do_def Let_def intro!: log_ok_snoc)
  show "calls_of (ds_log (da_db (deb_do f a))) = calls_of (ds_log (da_db a)) @ [f]"
    by (simp add: deb_do_def logged_def debouncer_Do_def Let_def)
qed

lemma deb_start_ok: "deb_start p a \<Longrightarrow> deb_ok a \<and> ds_log (da_db a) = []"
  using debouncer.inv_start [of "ms 100" "da_db a"]
  by (auto simp: deb_start_def deb_ok_def log_ok_def db_start_def chan_make_def)

section \<open>What the programs print\<close>

fun to_type :: "search_pc \<Rightarrow> string list" where
  "to_type (STyping qs) = qs"
| "to_type (SSleeping t qs) = qs"
| "to_type p = []"

definition search_inv :: "(string, search_pc) deb_app \<Rightarrow> bool" where
  "search_inv a \<longleftrightarrow> deb_ok a \<and> calls_of (ds_log (da_db a)) @ to_type (da_main a) = queries \<and>
     (\<forall>q. da_main a = SFound q \<longrightarrow> (\<exists>t. Fired q t \<in> set (ds_log (da_db a))))"

lemma callback_log: "callback_step a b \<Longrightarrow> set (ds_log (da_db a)) \<subseteq> set (ds_log (da_db b))"
  by (erule callback_step.cases) (auto simp: logged_def)

lemma deb_do_log: "ds_log (da_db (deb_do f a)) = ds_log (da_db a) @ [DoCalled f (now a)]"
  by (simp add: deb_do_def logged_def debouncer_Do_def Let_def)

lemma search_step_inv:
  assumes inv: "search_inv a" and "searchAfterTypingStops a b"
  shows "search_inv b"
  using assms(2)
proof cases
  case (search_types q qs)
  have "deb_ok a"
    using inv by (simp add: search_inv_def)
  note ok = deb_do_ok [OF this]
  show ?thesis
    using inv search_types(2) ok(1) ok(2) unfolding search_types(1) search_inv_def by simp
next
  case search_callback
  have "deb_ok a"
    using inv by (simp add: search_inv_def)
  note ok = callback_ok [OF search_callback this]
  show ?thesis
    using inv ok callback_log [OF search_callback] unfolding search_inv_def by (metis subsetD)
qed (use inv in \<open>auto simp: search_inv_def deb_ok_def chan_recv_cases\<close>)

interpretation search: inductive_invariant "deb_start (STyping queries)" searchAfterTypingStops search_inv
proof
  show "search_inv a" if "deb_start (STyping queries) a" for a
    using deb_start_ok [OF that] that by (auto simp: search_inv_def deb_start_def)
qed (rule search_step_inv)

text \<open>
  The search that runs is for a query that was typed, at least 100 ms after it was; unless it
  is the last one, the next was typed later than that.
\<close>

lemma search_result:
  assumes "reach (deb_start (STyping queries)) searchAfterTypingStops a" and "da_main a = SFound q"
  shows "\<exists>pre s t post. ds_log (da_db a) = pre @ DoCalled q s # Fired q t # post \<and> s + ms 100 \<le> t \<and>
    (q = ''gx runtime'' \<or> (\<exists>f u. DoCalled f u \<in> set post \<and> t \<le> u))"
proof -
  have inv: "search_inv a"
    by (rule search.reach_inv [OF assms(1)])
  then obtain t where "Fired q t \<in> set (ds_log (da_db a))"
    using assms(2) by (auto simp: search_inv_def)
  then obtain pre' post where log': "ds_log (da_db a) = pre' @ Fired q t # post"
    by (auto dest: split_list)
  have "fired_ok (ms 100) (ds_log (da_db a))"
    using inv by (simp add: search_inv_def deb_ok_def db_inv_def)
  then obtain pre s where pre: "pre' = pre @ [DoCalled q s]" "s + real_delay (ms 100) \<le> t"
    using log' unfolding fired_ok_def by blast
  then have delay: "s + ms 100 \<le> t"
    by (simp add: real_delay_def)
  then have log: "ds_log (da_db a) = pre @ DoCalled q s # Fired q t # post"
    using log' pre(1) by simp
  have all: "calls_of pre @ q # calls_of post = queries"
    using inv assms(2) by (simp add: search_inv_def log)
  have "\<exists>f u. DoCalled f u \<in> set post \<and> t \<le> u" if "q \<noteq> ''gx runtime''"
  proof -
    have "calls_of post \<noteq> []"
      using arg_cong [OF all, of last] that by (auto simp: queries_def)
    then obtain f where "f \<in> set (calls_of post)"
      by (cases "calls_of post") auto
    then obtain u where u: "DoCalled f u \<in> set post"
      using calls_of_mem by metis
    moreover have "sorted_wrt (\<lambda>e e'. \<forall>s u. event_time e s \<longrightarrow> event_time e' u \<longrightarrow> s \<le> u)
        (pre @ DoCalled q s # Fired q t # post)"
      using inv by (simp add: search_inv_def deb_ok_def log_ok_def log)
    then have "\<forall>e' \<in> set post. \<forall>u. event_time e' u \<longrightarrow> t \<le> u"
      by (simp add: sorted_wrt_append)
    ultimately show ?thesis by force
  qed
  then show ?thesis
    using log delay by blast
qed

definition cancel_log :: "cancel_pc \<Rightarrow> unit db_event list \<Rightarrow> bool" where
  "cancel_log p evs \<longleftrightarrow>
     (\<exists>s. evs = (case p of
        CDo \<Rightarrow> []
      | CCancel \<Rightarrow> [DoCalled () s]
      | _ \<Rightarrow> [DoCalled () s, CancelCalled])) \<or>
     (\<exists>s t. p \<noteq> CDo \<and> evs = (if p = CCancel then [DoCalled () s, Fired () t] else [DoCalled () s, Fired () t, CancelCalled]))"

definition cancel_inv :: "(unit, cancel_pc) deb_app \<Rightarrow> bool" where
  "cancel_inv a \<longleftrightarrow> deb_ok a \<and> cancel_log (da_main a) (ds_log (da_db a)) \<and>
     (da_main a = CRan \<longrightarrow> (\<exists>t. Fired () t \<in> set (ds_log (da_db a))))"

lemma fires_after_call:
  assumes "fired_ok d (evs @ [Fired f t])" and "cancel_log p evs"
  shows "cancel_log p (evs @ [Fired f t])"
proof -
  obtain pre s where "evs = pre @ [DoCalled f s]"
    using assms(1) unfolding fired_ok_snoc by blast
  then show ?thesis
    using assms(2) by (cases p) (auto simp: cancel_log_def Cons_eq_append_conv append_eq_Cons_conv)
qed

lemma cancel_step_inv:
  assumes inv: "cancel_inv a" and "cancelPendingWork a b"
  shows "cancel_inv b"
proof -
  have ok: "deb_ok a" and evs: "cancel_log (da_main a) (ds_log (da_db a))"
    using inv by (simp_all add: cancel_inv_def)
  from assms(2) show ?thesis
  proof cases
    case cancel_does
    then show ?thesis
      using evs deb_do_ok(1) [OF ok] deb_do_log [of "()" a] unfolding cancel_inv_def by (auto simp: cancel_log_def)
  next
    case cancel_cancels
    have "db_inv (ms 100) (da_db (deb_cancel a))"
      using db_step_inv [OF _ cancels, of "ms 100" "da_db a"] ok by (simp add: deb_ok_def deb_cancel_def)
    moreover have "ds_now (debouncer_Cancel y) = ds_now y" "ds_log (debouncer_Cancel y) = ds_log y" for y :: "unit db_sys"
      by (simp_all add: debouncer_Cancel_def split: option.split)
    ultimately show ?thesis
      using ok evs cancel_cancels
      by (auto simp: cancel_inv_def deb_ok_def deb_cancel_def logged_def cancel_log_def intro!: log_ok_snoc)
  next
    case cancel_callback
    note ok' = callback_ok [OF cancel_callback ok]
    have "cancel_log (da_main b) (ds_log (da_db b))"
      using cancel_callback
    proof cases
      case (callback_starts t)
      then have b: "ds_log (da_db b) = ds_log (da_db a) @ [Fired (tm_fn t) (now a)]"
        by (simp add: logged_def)
      have "fired_ok (ms 100) (ds_log (da_db b))"
        using ok'(1) by (simp add: deb_ok_def db_inv_def)
      then show ?thesis
        using fires_after_call [of "ms 100" "ds_log (da_db a)"] evs unfolding b ok'(2) by blast
    qed (use evs ok'(2) in simp_all)
    then show ?thesis
      using ok'(1,2) inv callback_log [OF cancel_callback] unfolding cancel_inv_def by (metis subsetD)
  next
    case (cancel_ran t u c)
    then show ?thesis
      using inv by (auto simp: cancel_inv_def deb_ok_def chan_recv_cases cancel_log_def)
  qed (use inv in \<open>auto simp: cancel_inv_def deb_ok_def cancel_log_def\<close>)
qed

interpretation cancel: inductive_invariant "deb_start CDo" cancelPendingWork cancel_inv
proof
  show "cancel_inv a" if "deb_start CDo a" for a
    using deb_start_ok [OF that] that by (auto simp: cancel_inv_def cancel_log_def deb_start_def)
qed (rule cancel_step_inv)

text \<open>The callback runs only if \<open>Cancel\<close> comes after it has started, so at least 100 ms after \<open>Do\<close>.\<close>

lemma cancel_result:
  assumes "reach (deb_start CDo) cancelPendingWork a" and "da_main a = CRan"
  shows "\<exists>s t. ds_log (da_db a) = [DoCalled () s, Fired () t, CancelCalled] \<and> s + ms 100 \<le> t"
proof -
  have inv: "cancel_inv a"
    by (rule cancel.reach_inv [OF assms(1)])
  then obtain s t where log: "ds_log (da_db a) = [DoCalled () s, Fired () t, CancelCalled]"
    using assms(2) by (auto simp: cancel_inv_def cancel_log_def)
  have "fired_ok (ms 100) ([DoCalled () s] @ [Fired () t] @ [CancelCalled])"
    using inv log by (simp add: cancel_inv_def deb_ok_def db_inv_def)
  then have "s + real_delay (ms 100) \<le> t"
    unfolding append_assoc [symmetric] fired_ok_snoc by simp
  then show ?thesis
    using log by (simp add: real_delay_def)
qed

end
