(* ===== verification/Gx_Example_Buffer.thy ===== *)
theory Gx_Example_Buffer imports Gx_Buffer Gx_Chan begin

text \<open>
  The blocking part of \<open>examples/buffer/main.go\<close>: a consumer goroutine waits in \<open>Next\<close> while
  \<open>main\<close> pushes a value, receives what the consumer passes on and closes the buffer. The
  goroutines interleave on the monitor of \<open>Gx_Container\<close>; the consumer has number 0.
\<close>

datatype producing = WPush | WReceive | WClose string | WDone string

datatype consuming = NextCall | NextSend string | NextEnd

record wait_app =
  wa_mon :: "(string buffer, string \<times> bool) monitor"
  wa_main :: producing
  wa_consumer :: consuming
  wa_received :: "string chan"

definition wait_start :: "wait_app \<Rightarrow> bool" where
  "wait_start a \<longleftrightarrow>
     (\<exists>b. NewBuffer [] 1 = Ret b \<and> mon_start b (wa_mon a)) \<and> wa_main a = WPush \<and>
     wa_consumer a = NextCall \<and> wa_received a = chan_make 1"

definition wait_message :: string where
  "wait_message = ''a value from the producer''"

inductive waitForNextValue :: "wait_app \<Rightarrow> wait_app \<Rightarrow> bool" where
  next_waits:
    "wa_consumer a = NextCall \<Longrightarrow> mon_step (buffer_Next []) (buffer_exec []) (wa_mon a) m \<Longrightarrow>
     mon_data m = mon_data (wa_mon a) \<Longrightarrow> mon_waiting (wa_mon a) = [] \<Longrightarrow> mon_waiting m = [0] \<Longrightarrow>
     waitForNextValue a (a\<lparr>wa_mon := m\<rparr>)"
| next_returns:
    "wa_consumer a = NextCall \<Longrightarrow> mon_step (buffer_Next []) (buffer_exec []) (wa_mon a) m \<Longrightarrow>
     mon_returned m = mon_returned (wa_mon a) @ [(0, v, ok)] \<Longrightarrow>
     waitForNextValue a (a\<lparr>wa_mon := m, wa_consumer := (if ok then NextSend v else NextEnd)\<rparr>)"
| consumer_sends:
    "wa_consumer a = NextSend v \<Longrightarrow> chan_send v (wa_received a) = Ret (Some c) \<Longrightarrow>
     waitForNextValue a (a\<lparr>wa_received := c, wa_consumer := NextEnd\<rparr>)"
| main_pushes:
    "wa_main a = WPush \<Longrightarrow> buffer_Push [] wait_message (mon_data (wa_mon a)) = Ret (b, ok, sig) \<Longrightarrow>
     waitForNextValue a (a\<lparr>wa_mon := notify sig ((wa_mon a)\<lparr>mon_data := b\<rparr>), wa_main := WReceive\<rparr>)"
| main_receives:
    "wa_main a = WReceive \<Longrightarrow> chan_recv (wa_received a) = Some (Some v, c) \<Longrightarrow>
     waitForNextValue a (a\<lparr>wa_received := c, wa_main := WClose v\<rparr>)"
| main_closes:
    "wa_main a = WClose v \<Longrightarrow> buffer_Close (mon_data (wa_mon a)) = (b, sig) \<Longrightarrow>
     waitForNextValue a (a\<lparr>wa_mon := notify sig ((wa_mon a)\<lparr>mon_data := b\<rparr>), wa_main := WDone v\<rparr>)"

section \<open>All its states\<close>

definition wait_state ::
  "string list \<Rightarrow> int \<Rightarrow> bool \<Rightarrow> nat list \<Rightarrow> nat list \<Rightarrow> (nat \<times> string \<times> bool) list \<Rightarrow> producing \<Rightarrow> consuming \<Rightarrow>
     string list \<Rightarrow> wait_app" where
  "wait_state items len shut waiting woken ret p c got =
     \<lparr>wa_mon = \<lparr>mon_data = \<lparr>buf_closed = shut, buf_head = 0, buf_items = items, buf_len = len\<rparr>,
        mon_waiting = waiting, mon_woken = woken, mon_returned = ret\<rparr>,
      wa_main = p, wa_consumer = c, wa_received = \<lparr>ch_cap = 1, ch_buf = got, ch_closed = False\<rparr>\<rparr>"

definition wait_states :: "wait_app list" where
  "wait_states =
     (let v = wait_message; ret = [(0, v, True)]
      in [wait_state [[]] 0 False [] [] [] WPush NextCall [],
          wait_state [[]] 0 False [0] [] [] WPush NextCall [],
          wait_state [v] 1 False [] [] [] WReceive NextCall [],
          wait_state [v] 1 False [] [0] [] WReceive NextCall [],
          wait_state [[]] 0 False [] [] ret WReceive (NextSend v) [],
          wait_state [[]] 0 False [] [] ret WReceive NextEnd [v],
          wait_state [[]] 0 False [] [] ret (WClose v) NextEnd [],
          wait_state [[]] 0 True [] [] ret (WDone v) NextEnd []])"

lemma next_eval:
  "buffer_Next [] \<lparr>buf_closed = False, buf_head = 0, buf_items = [[] :: string], buf_len = 0\<rparr> = Ret None"
  "buffer_Next [] \<lparr>buf_closed = False, buf_head = 0, buf_items = [wait_message], buf_len = 1\<rparr> =
     Ret (Some (\<lparr>buf_closed = False, buf_head = 0, buf_items = [[]], buf_len = 0\<rparr>, wait_message, True))"
  "buffer_Push [] wait_message \<lparr>buf_closed = False, buf_head = 0, buf_items = [[]], buf_len = 0\<rparr> =
     Ret (\<lparr>buf_closed = False, buf_head = 0, buf_items = [wait_message], buf_len = 1\<rparr>, True, Signal)"
  "buffer_Close \<lparr>buf_closed = False, buf_head = 0, buf_items = [[] :: string], buf_len = 0\<rparr> =
     (\<lparr>buf_closed = True, buf_head = 0, buf_items = [[]], buf_len = 0\<rparr>, Broadcast)"
  "NewBuffer ([] :: string) 1 = Ret \<lparr>buf_closed = False, buf_head = 0, buf_items = [[]], buf_len = 0\<rparr>"
  by code_simp+

lemma notify_rest [simp]:
  "mon_returned (notify sig m) = mon_returned m" "mon_waiting m = [] \<Longrightarrow> mon_waiting (notify sig m) = []"
  by (cases sig; simp split: list.split)+

lemma waits_cases:
  assumes "mon_step f g m m'" and "mon_waiting m = []" and "mon_waiting m' = [0]"
  shows "f (mon_data m) = Ret None \<and> m' = m\<lparr>mon_woken := remove1 0 (mon_woken m), mon_waiting := [0]\<rparr>"
  using assms by (auto elim!: mon_stepE simp: remove1_idem)

lemma returns_cases:
  assumes "mon_step f g m m'" and "mon_returned m' = mon_returned m @ [(0, r)]"
  shows "\<exists>d. f (mon_data m) = Ret (Some (d, r)) \<and> (0 \<in> set (mon_woken m) \<or> 0 \<notin> set (mon_waiting m)) \<and>
    m' = m\<lparr>mon_data := d, mon_woken := remove1 0 (mon_woken m), mon_returned := mon_returned m @ [(0, r)]\<rparr>"
  using assms by (auto elim!: mon_stepE simp: remove1_idem)

lemma wait_step:
  assumes "a \<in> set wait_states" and "waitForNextValue a b"
  shows "b \<in> set wait_states"
  using assms(2)
proof cases
  case (next_waits m)
  then show ?thesis
    using waits_cases [OF next_waits(3) next_waits(5,6)] assms(1)
    by (auto simp: wait_states_def wait_state_def Let_def next_eval)
next
  case (next_returns m v ok)
  then show ?thesis
    using returns_cases [OF next_returns(3) next_returns(4)] assms(1)
    by (auto simp: wait_states_def wait_state_def Let_def next_eval)
next
  case (main_pushes b ok sig)
  then show ?thesis
    using assms(1) by (auto simp: wait_states_def wait_state_def Let_def next_eval)
next
  case (main_closes v b sig)
  then show ?thesis
    using assms(1) by (auto simp: wait_states_def wait_state_def Let_def next_eval)
qed (use assms(1) in \<open>auto simp: wait_states_def wait_state_def Let_def chan_send_def chan_recv_def\<close>)

interpretation wait: inductive_invariant wait_start waitForNextValue "\<lambda>a. a \<in> set wait_states"
proof
  show "a \<in> set wait_states" if "wait_start a" for a
    using that by (cases a) (auto simp: wait_start_def mon_start_def next_eval chan_make_def wait_states_def wait_state_def Let_def)
qed (rule wait_step)

text \<open>
  The program prints the value the producer pushed, whether the consumer waited or not, and
  it is never stuck before that.
\<close>

lemma wait_result:
  assumes "reach wait_start waitForNextValue a" and "wa_main a \<in> {WClose v, WDone v}"
  shows "v = wait_message"
  using wait.reach_inv [OF assms(1)] assms(2) by (auto simp: wait_states_def wait_state_def Let_def)

lemma wait_goes_on:
  assumes "reach wait_start waitForNextValue a" and "\<forall>v. wa_main a \<noteq> WDone v"
  shows "\<exists>b. waitForNextValue a b"
proof -
  have wakes: "\<exists>m' v ok. mon_step (buffer_Next []) (buffer_exec []) m m' \<and> mon_returned m' = mon_returned m @ [(0, v, ok)]"
    if "mon_data m = \<lparr>buf_closed = False, buf_head = 0, buf_items = [wait_message], buf_len = 1\<rparr>" "mon_waiting m = []" for m
    using call_returns [of 0 m "buffer_Next []"] wake_returns [of 0 m "buffer_Next []"] that
    by (cases "0 \<in> set (mon_woken m)") (auto simp: next_eval intro!: exI)
  note known = wait.reach_inv [OF assms(1)]
  show ?thesis
  proof (cases "wa_main a")
    case WPush
    then have "buffer_Push [] wait_message (mon_data (wa_mon a)) =
        Ret (\<lparr>buf_closed = False, buf_head = 0, buf_items = [wait_message], buf_len = 1\<rparr>, True, Signal)"
      using known by (auto simp: wait_states_def wait_state_def Let_def next_eval)
    then show ?thesis using main_pushes [OF WPush] by blast
  next
    case (WClose v)
    obtain b sig where "buffer_Close (mon_data (wa_mon a)) = (b, sig)"
      by (cases "buffer_Close (mon_data (wa_mon a))")
    then show ?thesis using main_closes [OF WClose] by blast
  next
    case WReceive
    show ?thesis
    proof (cases "wa_consumer a")
      case NextCall
      then have "mon_data (wa_mon a) = \<lparr>buf_closed = False, buf_head = 0, buf_items = [wait_message], buf_len = 1\<rparr>"
          "mon_waiting (wa_mon a) = []"
        using known WReceive by (auto simp: wait_states_def wait_state_def Let_def)
      from wakes [OF this] show ?thesis using next_returns [OF NextCall] by blast
    next
      case (NextSend v)
      then have "\<exists>c. chan_send v (wa_received a) = Ret (Some c)"
        using known WReceive by (auto simp: wait_states_def wait_state_def Let_def chan_send_def)
      then show ?thesis using consumer_sends [OF NextSend] by blast
    next
      case NextEnd
      then have "\<exists>v c. chan_recv (wa_received a) = Some (Some v, c)"
        using known WReceive by (auto simp: wait_states_def wait_state_def Let_def chan_recv_def)
      then show ?thesis using main_receives [OF WReceive] by blast
    qed
  qed (use assms(2) in simp)
qed

end
