(* ===== verification/Spec2Isabelle.thy ===== *)
theory Spec2Isabelle imports Gx_Buffer Gx_Stack Gx_Map Gx_Set Gx_Semaphore Gx_Runner Gx_Queue Gx_Accumulator
  Gx_Dispatcher Gx_Bus Gx_Throttler Gx_Debouncer Gx_Runtime_Correct Gx_Runtime_Return Gx_Runtime_States Gx_Runtime_Watch Gx_Env
  Gx_Web_Correct Gx_Retry Gx_Assert_Correct Gx_Queue_Program_End Gx_Example_Tasks_Correct Gx_Example_Queues Gx_Examples
  Gx_Example_Runtime_Ends Gx_Example_Bus Gx_Example_Debouncer Gx_Example_Buffer
begin

text \<open>
  A verification of the Go package \<open>gx\<close>: concurrency-safe containers, synchronization and
  timing helpers, a worker queue and an application runtime in the root package, and the
  packages \<open>env\<close>, \<open>web\<close>, \<open>assert\<close> and \<open>test\<close>.

  \<^bold>\<open>The program and its parts.\<close> Most files of the root package stand alone: each has a struct
  whose methods lock its mutex. The exceptions are \<open>bus.go\<close>, which limits its publishes with
  the semaphore, and \<open>runtime.go\<close>, which runs tasks through the runner, keeps dependencies in
  a type-keyed store and drives containers through their lifecycle. In \<open>web\<close> a server builds a
  chain of middleware around a mux, every request gets a context with a writer that records
  whether the response has started, and the errors handlers return become responses.

  \<^bold>\<open>How code is modelled.\<close> A struct is a record with the fields of the source, a method a
  function that returns the new record. A panic is a value of the type \<open>go\<close>, an error an option
  or a value of a result type. Indexing, slicing, \<open>copy\<close>, \<open>make\<close>, maps and channels are those of
  Go with their bounds checks and panics (\<open>Gx_Prelude\<close>, \<open>Gx_GoMap\<close>, \<open>Gx_Chan\<close>). A method that
  runs in one critical section is one atomic step; where goroutines interleave in the source
  they do so in a step relation, split at critical sections and channel communications.
  Mutexes, \<open>sync.Once\<close>, wait groups, condition variables and contexts behave as documented
  (\<open>Gx_Container\<close> for condition variables, \<open>Gx_Context\<close> for contexts and errors).

  \<^bold>\<open>Interfaces.\<close> \<open>refinement\<close> and \<open>inductive_invariant\<close> of \<open>Gx_Prelude\<close> carry the two
  arguments made for most components: equal answers on all operation sequences, and an
  invariant of a step relation. \<open>container\<close> of \<open>Gx_Container\<close> is the contract \<open>Buffer\<close> and
  \<open>Stack\<close> share, with the monitor of their blocking calls; \<open>kv_store\<close> and \<open>list_store\<close> of
  \<open>Gx_GoMap\<close> are the laws of the built-in map its users rely on. Each is interpreted on the
  model of the code in the theory of the component.

  \<^bold>\<open>Containers.\<close> \<open>Gx_Buffer\<close> (\<open>buffer.go\<close>) and \<open>Gx_Stack\<close> (\<open>stack.go\<close>): the ring buffer and
  the stack refine a FIFO and a LIFO list through growth and wrap-around and never panic; no
  wakeup of a blocked caller is lost. \<open>Gx_Map\<close> (\<open>map.go\<close>) refines a partial function, \<open>Gx_Set\<close>
  (\<open>set.go\<close>) a set; the order in which \<open>range\<close> visits a map is an argument.

  \<^bold>\<open>Synchronization and timing.\<close> \<open>Gx_Semaphore\<close> bounds the holders, \<open>Gx_Runner\<close> returns the
  first reported error, which is the cause of the context unless that had ended before, \<open>Gx_Throttler\<close> keeps runs apart, \<open>Gx_Debouncer\<close> runs the last call only,
  \<open>Gx_Accumulator\<close> loses and invents nothing and is silent after \<open>Close\<close>, with its timer
  goroutine as steps and \<open>int\<close> as a 64-bit word. \<open>Gx_Dispatcher\<close> calls handlers in order until
  one fails, for each publish \<open>Gx_Bus\<close> calls the subscribers that were registered for the
  type when it started, by the history of subscriptions the model keeps. Clocks are arguments
  or state, callbacks are the log of their calls or interpreted by a parameter.

  \<^bold>\<open>Gx_Retry\<close> (\<open>retry.go\<close>): the loop of \<open>Do\<close> is a \<open>partial_function\<close>, so that a run that does
  not end is \<open>None\<close>, and \<open>retry_Do_returns\<close> says when it ends. Delays go through the
  floating-point arithmetic of \<open>Gx_Float\<close>, 53 bits rounded to even. A conversion of a value
  that does not fit an integer is left to the implementation by the language and is a
  parameter; below that every rounding is computed. No wait exceeds the delay in effect,
  which after the first is within \<open>MaxDelay\<close>.

  \<^bold>\<open>Gx_Queue\<close> (\<open>queue.go\<close>): \<open>Push\<close>, \<open>PushWait\<close>, \<open>Close\<close>, \<open>Drain\<close> and \<open>Run\<close> as goroutines
  that interleave on one queue, each with its program counter. A run is named by a number, which also
  names the channel \<open>q.done\<close> it makes and closes and its cancel function; if \<open>q.running\<close> did not
  exclude it, several runs would be active at a time. Shown: accepted items are
  handled exactly once or still in the queue, nothing panics, a run that ends in a live context
  has drained the queue, a single worker keeps the order, \<open>Close\<close> is final and can always
  finish, one run at a time. \<open>Gx_Queue_Program\<close> and \<open>Gx_Queue_Program_End\<close> put a program around
  a queue: one goroutine runs it, another pushes, closes and waits for the result. Under every
  interleaving that is the sequential loop over the items for one worker, some order of them
  for many, and it always ends.

  \<^bold>\<open>Runtime\<close> (\<open>runtime.go\<close>). \<open>Gx_Store\<close> has the dependencies, \<open>Gx_Runtime_Data\<close> the records of
  a runtime and its containers with every operation callers and hooks use, \<open>Gx_Runtime\<close> the
  goroutines of \<open>Run\<close>: the caller, the shutdown (run by the caller or on cancellation, once),
  tasks, and contexts that end. Hooks and tasks are unknown code: they succeed, fail, or
  call the runtime and containers at any point. \<open>Gx_Runtime_Tasks\<close> has the bookkeeping of
  tasks, \<open>Gx_Runtime_Hooks\<close> the order of hooks, \<open>Gx_Runtime_Correct\<close> the properties,
  among them which error \<open>Run\<close> returns, \<open>Gx_Runtime_Return\<close> the way on to the return of \<open>Run\<close> from
  every reachable state, by steps of its own goroutines alone and a measure on what is left to do, \<open>Gx_Runtime_States\<close> that no container goes back to an earlier state,
  \<open>Gx_Runtime_Watch\<close> the watchdog of the shutdown, and
  \<open>Gx_Runtime_Demo\<close> one complete run step by step, which the witnesses use.

  \<^bold>\<open>Gx_Env\<close> (\<open>env/env.go\<close>) with the string functions of \<open>Gx_Strings\<close>: readers over an
  environment map, and that lists and integers written in their notation are read back.

  \<^bold>\<open>Web.\<close> \<open>Gx_Web_Error\<close> (\<open>web/error.go\<close>) has errors as trees, \<open>Gx_Web_Writer\<close> and
  \<open>Gx_Web_Context\<close> (\<open>web/context.go\<close>) the response writer and the methods of a context,
  \<open>Gx_Web_Server\<close> (\<open>web/server.go\<close>, \<open>web/test.go\<close>) handlers, middleware and the server. \<open>Gx_Web_Correct\<close>
  shows what a client receives when a handler fails, the order of middleware, that one
  request makes one well-formed response, and that a server has the configuration its options
  ask for and keeps it. Handlers
  share the state of the application, the field \<open>c_app\<close>, of a type the application chooses.

  \<^bold>\<open>Assertions.\<close> \<open>Gx_Values\<close> has Go values as \<open>reflect\<close> shows them, with
  \<open>reflect.DeepEqual\<close>; \<open>Gx_Assert\<close> (\<open>assert/assert.go\<close>) and \<open>Gx_Test_Assert\<close>
  (\<open>test/assert.go\<close>) have the assertions, and \<open>Gx_Assert_Correct\<close> shows that both packages
  check the same statements with the same messages.

  \<^bold>\<open>Examples.\<close> The programs under \<open>examples\<close> use the packages as a client does and are modelled
  on top of them. \<open>Gx_Example_Tasks\<close> is the task API of \<open>examples/web\<close>; \<open>Gx_Example_Tasks_Spec\<close>
  has an abstract store of tasks with its calls and replies, \<open>Gx_Example_Tasks_Correct\<close> shows that
  the whole server answers every sequence of requests as that store does. A handler touches
  the store in one critical section, so overlapping requests act on it in some order.
  \<open>Gx_Example_Queues\<close> has the two queue programs, \<open>Gx_Examples\<close> those of stack, buffer,
  dispatcher, throttler, accumulator, retry and runner, with what they print.
  \<open>Gx_Example_Runtime\<close> is the runtime application: its hooks and tasks take the place of the
  unknown ones of \<open>Gx_Runtime\<close>, so its runs are runs of that model and keep all its invariants
  (\<open>Gx_Example_Runtime_Inv\<close>); \<open>Gx_Example_Runtime_Out\<close> and \<open>Gx_Example_Runtime_Correct\<close> say
  where each hook is called and what has been logged, \<open>Gx_Example_Runtime_Run\<close> has a scheduler
  that computes runs. The steps of the program itself are the relation \<open>app_own\<close>;
  \<open>Gx_Example_Runtime_Ends\<close> shows that after the signal they are at most 46, in any order and
  with any choice of a ready arm, by a measure on what is left to do, and that one is possible
  until the program is over. \<open>Gx_Example_Bus\<close> is the bus program,
  which under every interleaving prints its three lines and ends within 37 steps,
  \<open>Gx_Example_Debouncer\<close> has the two demonstrations of the debouncer with their clock and timers
  (a search that is not for the last query means that the next one came 100 ms later, a canceled
  callback runs only if it had started before), \<open>Gx_Example_Buffer\<close> the blocking part of the
  buffer program, with all its eight states.

  \<^bold>\<open>Parameters.\<close> Code that is not in the repository is an argument of the definitions that use
  it: the JSON encoder and decoder, the mux and the wrapped response writer, \<open>ParseFloat\<close> and
  \<open>ParseDuration\<close>, random numbers and clocks, the text \<open>fmt\<close> gives for a value with methods of
  its own, stack frames, and every callback, handler, hook and worker function.

  \<^bold>\<open>Not modelled.\<close> In \<open>examples\<close>: \<open>pushWaitExample\<close> and \<open>drainExample\<close> of the queue program; the level and destination of log output; the HTTP client of \<open>TestServer\<close>;
  data races the mutexes exclude. Values of the assertion packages are finite and
  without complex numbers. Liveness is stated as the existence of a continuation, since
  the scheduler's fairness is not part of the code.
\<close>

end
